(* ===== verification/Prelude.thy ===== *)
theory Prelude
  imports Main "HOL-Library.Word"
begin

text \<open>
  Shared vocabulary of the development: Rust's \<open>Result\<close> with an explicit panic outcome,
  the three-valued \<open>Ordering\<close> of \<open>core::cmp\<close>, and the generic facts about lists, results
  and orderings that the component theories use.

  A fallible Rust function is a HOL function into \<open>('e, 'a) result\<close>: \<open>Ok\<close> is a returned
  value, \<open>Err e\<close> a returned error and \<open>Panicked\<close> an unwinding panic, so that the three
  ways a call can end are three different values.
\<close>

named_theorems result_simps \<open>unfolding sequences of fallible calls\<close>
named_theorems kernel_eval \<open>evaluating model functions on closed inputs\<close>

section \<open>Results\<close>

datatype 'e failure = Fail 'e | Panic

type_synonym ('e, 'a) result = "'e failure + 'a"

abbreviation Ok :: "'a \<Rightarrow> ('e, 'a) result" where "Ok \<equiv> Inr"
abbreviation Err :: "'e \<Rightarrow> ('e, 'a) result" where "Err e \<equiv> Inl (Fail e)"
abbreviation Panicked :: "('e, 'a) result" where "Panicked \<equiv> Inl Panic"

definition rbind :: "('e, 'a) result \<Rightarrow> ('a \<Rightarrow> ('e, 'b) result) \<Rightarrow> ('e, 'b) result" where
  "rbind m f = (case m of Inl e \<Rightarrow> Inl e | Inr x \<Rightarrow> f x)"

definition map_err :: "('e \<Rightarrow> 'f) \<Rightarrow> ('e, 'a) result \<Rightarrow> ('f, 'a) result" where
  "map_err g m = (case m of Inl (Fail e) \<Rightarrow> Err (g e) | Inl Panic \<Rightarrow> Panicked | Inr x \<Rightarrow> Ok x)"

definition rmap :: "('a \<Rightarrow> 'b) \<Rightarrow> ('e, 'a) result \<Rightarrow> ('e, 'b) result" where
  "rmap g m = (case m of Inl e \<Rightarrow> Inl e | Inr x \<Rightarrow> Ok (g x))"

definition ok_or :: "'e \<Rightarrow> 'a option \<Rightarrow> ('e, 'a) result" where
  "ok_or e x = (case x of None \<Rightarrow> Err e | Some a \<Rightarrow> Ok a)"

lemma rbind_simps [simp]:
  "rbind (Inr x) f = f x" "rbind (Inl e) f = Inl e"
  by (simp_all add: rbind_def)

lemma map_err_simps [simp]:
  "map_err g (Inr x) = Ok x" "map_err g (Err e) = Err (g e)" "map_err g Panicked = Panicked"
  by (simp_all add: map_err_def)

lemma rmap_simps [simp]:
  "rmap g (Inr x) = Ok (g x)" "rmap g (Inl e) = Inl e"
  by (simp_all add: rmap_def)

lemma ok_or_simps [simp]:
  "ok_or e (Some a) = Ok a" "ok_or e None = Err e"
  by (simp_all add: ok_or_def)

lemma rbind_eq_Ok [result_simps]:
  "rbind m f = Inr y \<longleftrightarrow> (\<exists>x. m = Inr x \<and> f x = Inr y)"
  by (cases m) auto

lemma rbind_eq_Inl [result_simps]:
  "rbind m f = Inl e \<longleftrightarrow> m = Inl e \<or> (\<exists>x. m = Inr x \<and> f x = Inl e)"
  by (cases m) auto

lemma map_err_eq_Ok [result_simps]: "map_err g m = Inr x \<longleftrightarrow> m = Inr x"
  by (auto simp: map_err_def split: sum.splits failure.splits)

lemma map_err_eq_Panic [result_simps]: "map_err g m = Panicked \<longleftrightarrow> m = Panicked"
  by (auto simp: map_err_def split: sum.splits failure.splits)

lemma rmap_eq_Ok [result_simps]: "rmap g m = Inr y \<longleftrightarrow> (\<exists>x. m = Inr x \<and> y = g x)"
  by (cases m) auto

lemma rmap_eq_Inl [result_simps]: "rmap g m = Inl e \<longleftrightarrow> m = Inl e"
  by (cases m) auto

lemma ok_or_eq_Ok [result_simps]: "ok_or e m = Inr x \<longleftrightarrow> m = Some x"
  by (cases m) auto

lemma ok_or_eq_Inl [result_simps]: "ok_or e m = Inl f \<longleftrightarrow> m = None \<and> f = Fail e"
  by (cases m) auto

lemma rbind_cong [fundef_cong]:
  assumes "m = m'" "\<And>x. m' = Inr x \<Longrightarrow> f x = g x"
  shows "rbind m f = rbind m' g"
  using assms by (cases m') auto

section \<open>Ordering\<close>

text \<open>\<open>core::cmp::Ordering\<close> and its combinators \<open>then\<close>/\<open>then_with\<close> and \<open>reverse\<close>.\<close>

datatype ordering = Less | Equal | Greater

fun then_cmp :: "ordering \<Rightarrow> ordering \<Rightarrow> ordering" where
  "then_cmp Equal o2 = o2"
| "then_cmp o1 o2 = o1"

fun reverse_cmp :: "ordering \<Rightarrow> ordering" where
  "reverse_cmp Less = Greater"
| "reverse_cmp Equal = Equal"
| "reverse_cmp Greater = Less"

definition cmp :: "'a::linorder \<Rightarrow> 'a \<Rightarrow> ordering" where
  "cmp a b = (if a < b then Less else if a = b then Equal else Greater)"

lemma then_cmp_eq [simp]:
  "then_cmp a b = Equal \<longleftrightarrow> a = Equal \<and> b = Equal"
  "then_cmp a b = Less \<longleftrightarrow> a = Less \<or> a = Equal \<and> b = Less"
  "then_cmp a b = Greater \<longleftrightarrow> a = Greater \<or> a = Equal \<and> b = Greater"
  by (cases a; simp)+

lemma reverse_cmp_eq [simp]:
  "reverse_cmp a = Equal \<longleftrightarrow> a = Equal"
  "reverse_cmp a = Less \<longleftrightarrow> a = Greater"
  "reverse_cmp a = Greater \<longleftrightarrow> a = Less"
  by (cases a; simp)+

lemma reverse_then_cmp: "reverse_cmp (then_cmp a b) = then_cmp (reverse_cmp a) (reverse_cmp b)"
  by (cases a) simp_all

lemma reverse_cmp_reverse [simp]: "reverse_cmp (reverse_cmp a) = a"
  by (cases a) simp_all

lemma cmp_eq [simp]:
  "cmp a b = Equal \<longleftrightarrow> a = b"
  "cmp a b = Less \<longleftrightarrow> a < b"
  "cmp a b = Greater \<longleftrightarrow> b < a"
  by (auto simp: cmp_def)

section \<open>Lists\<close>

lemma take_drop_append_mid:
  assumes "i = length pre" "j = i + length mid"
  shows "take (j - i) (drop i (pre @ mid @ post)) = mid"
  using assms by simp

text \<open>\<open>slice xs i j\<close> is Rust's \<open>xs[i..j]\<close>; \<open>get_range\<close> is \<open>xs.get(i..j)\<close>, \<open>None\<close> out of range.\<close>

definition slice :: "'a list \<Rightarrow> nat \<Rightarrow> nat \<Rightarrow> 'a list" where
  "slice xs i j = take (j - i) (drop i xs)"

definition get_range :: "'a list \<Rightarrow> nat \<Rightarrow> nat \<Rightarrow> 'a list option" where
  "get_range xs i j = (if i \<le> j \<and> j \<le> length xs then Some (slice xs i j) else None)"

definition get_at :: "'a list \<Rightarrow> nat \<Rightarrow> 'a option" where
  "get_at xs i = (if i < length xs then Some (xs ! i) else None)"

lemma length_slice [simp]: "j \<le> length xs \<Longrightarrow> length (slice xs i j) = j - i"
  by (simp add: slice_def)

lemma slice_append [simp]:
  "slice (pre @ mid @ post) (length pre) (length pre + length mid) = mid"
  by (simp add: slice_def)

lemma get_range_append [simp]:
  "get_range (pre @ mid @ post) (length pre) (length pre + length mid) = Some mid"
  by (simp add: get_range_def)

lemma get_range_eq_Some:
  "get_range xs i j = Some ys \<longleftrightarrow> i \<le> j \<and> j \<le> length xs \<and> ys = slice xs i j"
  by (auto simp: get_range_def)

lemma get_range_eq_None: "get_range xs i j = None \<longleftrightarrow> \<not> (i \<le> j \<and> j \<le> length xs)"
  by (auto simp: get_range_def)

lemma get_at_eq_Some: "get_at xs i = Some x \<longleftrightarrow> i < length xs \<and> x = xs ! i"
  by (auto simp: get_at_def)

lemma get_at_eq_None: "get_at xs i = None \<longleftrightarrow> length xs \<le> i"
  by (auto simp: get_at_def)

lemma slice_Suc: "i < length xs \<Longrightarrow> slice xs i (Suc i) = [xs ! i]"
  by (simp add: slice_def hd_drop_conv_nth take_Suc drop_eq_Nil)

lemma slice_slice_append:
  assumes "i \<le> j" "j \<le> k"
  shows "slice xs i j @ slice xs j k = slice xs i k"
proof -
  have "k - i = (j - i) + (k - j)" using assms by simp
  moreover have "drop (j - i) (drop i xs) = drop j xs" using assms by simp
  ultimately show ?thesis by (simp add: slice_def take_add)
qed

lemma slice_full [simp]: "slice xs 0 (length xs) = xs"
  by (simp add: slice_def)

section \<open>Codecs\<close>

text \<open>
  The contract of an encoder with its decoder. \<open>ok\<close> is the set of values the encoder is meant
  for. A \<open>codec\<close> decodes what it encoded; an \<open>exact_codec\<close> moreover accepts nothing but
  encodings, so that a value has one encoding only.
\<close>

locale codec =
  fixes enc :: "'a \<Rightarrow> 'b" and dec :: "'b \<Rightarrow> ('e, 'a) result" and ok :: "'a \<Rightarrow> bool"
  assumes dec_enc: "ok x \<Longrightarrow> dec (enc x) = Inr x"
begin

lemma enc_inj: "ok x \<Longrightarrow> ok y \<Longrightarrow> enc x = enc y \<Longrightarrow> x = y"
  by (metis dec_enc sum.inject(2))

end

locale exact_codec = codec +
  assumes enc_dec: "dec b = Inr x \<Longrightarrow> enc x = b \<and> ok x"
begin

lemma dec_eq_iff: "dec b = Inr x \<longleftrightarrow> ok x \<and> enc x = b"
  by (metis dec_enc enc_dec)

lemma dec_inj: "dec b = Inr x \<Longrightarrow> dec c = Inr x \<Longrightarrow> b = c"
  by (metis enc_dec)

lemma dec_fails_iff: "(\<exists>e. dec b = Inl e) \<longleftrightarrow> b \<notin> enc ` {x. ok x}"
proof
  assume "\<exists>e. dec b = Inl e"
  then show "b \<notin> enc ` {x. ok x}" using dec_enc by fastforce
next
  assume "b \<notin> enc ` {x. ok x}"
  then show "\<exists>e. dec b = Inl e" using enc_dec by (cases "dec b") auto
qed

end

end
