(* ===== verification/Rust_Int.thy ===== *)
theory Rust_Int
  imports Prelude
begin

text \<open>
  The machine integers the program uses, at their width: \<open>u8\<close>, \<open>u32\<close> and two's complement
  \<open>i64\<close> as words, \<open>usize\<close> as a natural number with its 64-bit bound written out (the
  targets are 64-bit). Arithmetic that Rust names explicitly (\<open>checked_add\<close>,
  \<open>saturating_add\<close>, \<open>saturating_sub\<close>, \<open>as u32\<close>) has a definition of that name; an operator
  that Rust checks in debug builds and wraps in release builds takes the build profile as an
  argument and returns \<open>None\<close> where a debug build panics.
\<close>

type_synonym u8 = "8 word"
type_synonym u32 = "32 word"
type_synonym i64 = "64 word"
type_synonym bytes = "u8 list"

section \<open>Unsigned\<close>

definition u32_max :: u32 where "u32_max = 0xFFFFFFFF"

definition checked_add_u32 :: "u32 \<Rightarrow> u32 \<Rightarrow> u32 option" where
  "checked_add_u32 a b = (if unat a + unat b < 2 ^ 32 then Some (a + b) else None)"

definition saturating_add_u32 :: "u32 \<Rightarrow> u32 \<Rightarrow> u32" where
  "saturating_add_u32 a b = (if unat a + unat b < 2 ^ 32 then a + b else u32_max)"

definition as_u32 :: "nat \<Rightarrow> u32" where
  "as_u32 n = of_nat n"

definition try_u32 :: "nat \<Rightarrow> u32 option" where
  "try_u32 n = (if n < 2 ^ 32 then Some (of_nat n) else None)"

definition usize_max :: nat where "usize_max = 2 ^ 64 - 1"

definition checked_add_usize :: "nat \<Rightarrow> nat \<Rightarrow> nat option" where
  "checked_add_usize a b = (if a + b \<le> usize_max then Some (a + b) else None)"

lemma unat_u32_less [simp]: "unat (w :: u32) < 4294967296"
  using unsigned_less [of w, where ?'a = nat] by simp

lemma unat_u8_less [simp]: "unat (w :: u8) < 256"
  using unsigned_less [of w, where ?'a = nat] by simp

lemma unat_as_u32: "unat (as_u32 n) = n mod 2 ^ 32"
  by (simp add: as_u32_def unat_of_nat)

lemma unat_as_u32_id: "n < 2 ^ 32 \<Longrightarrow> unat (as_u32 n) = n"
  by (simp add: unat_as_u32)

lemma as_u32_unat [simp]: "as_u32 (unat w) = w"
  by (simp add: as_u32_def)

lemma unat_u32_max [simp]: "unat u32_max = 4294967295"
  by (simp add: u32_max_def)

lemma checked_add_u32_Some:
  "checked_add_u32 a b = Some c \<longleftrightarrow> unat a + unat b < 2 ^ 32 \<and> c = a + b"
  by (auto simp: checked_add_u32_def)

lemma unat_plus_u32: "unat (a :: u32) + unat b < 2 ^ 32 \<Longrightarrow> unat (a + b) = unat a + unat b"
  by (simp add: unat_word_ariths)

lemma unat_saturating_add_u32:
  "unat (saturating_add_u32 a b) = min (unat a + unat b) (2 ^ 32 - 1)"
  by (auto simp: saturating_add_u32_def unat_word_ariths)

section \<open>Little-endian bytes\<close>

definition u32_to_le_bytes :: "u32 \<Rightarrow> bytes" where
  "u32_to_le_bytes w =
     [ucast w, ucast (drop_bit 8 w), ucast (drop_bit 16 w), ucast (drop_bit 24 w)]"

fun u32_from_le_bytes :: "bytes \<Rightarrow> u32 option" where
  "u32_from_le_bytes [a, b, c, d] =
     Some (word_of_nat (unat a + 256 * unat b + 65536 * unat c + 16777216 * unat d))"
| "u32_from_le_bytes _ = None"

lemma length_u32_to_le_bytes [simp]: "length (u32_to_le_bytes w) = 4"
  by (simp add: u32_to_le_bytes_def)

lemma unat_ucast_drop_bit:
  "unat (ucast (drop_bit n (w :: u32)) :: u8) = unat w div 2 ^ n mod 256"
  unfolding unsigned_ucast_eq unat_drop_bit_eq
  by (simp add: drop_bit_eq_div take_bit_eq_mod)

lemma base256_sum:
  fixes n :: nat
  assumes "n < 4294967296"
  shows "n mod 256 + 256 * (n div 256 mod 256) + 65536 * (n div 65536 mod 256)
    + 16777216 * (n div 16777216 mod 256) = n"
proof -
  define a b c where abc: "a = n div 256" "b = a div 256" "c = b div 256"
  have quot: "n div 65536 = b" "n div 16777216 = c"
    by (simp_all add: abc flip: div_mult2_eq)
  have "c mod 256 = c" using assms by (simp add: quot(2) [symmetric] div_less_iff_less_mult)
  moreover have "n mod 256 = n - 256 * a" "a mod 256 = a - 256 * b" "b mod 256 = b - 256 * c"
    by (simp_all add: abc minus_mult_div_eq_mod)
  moreover have "256 * a \<le> n" "256 * b \<le> a" "256 * c \<le> b"
    by (simp_all add: abc)
  ultimately show ?thesis unfolding quot abc(1) [symmetric] by linarith
qed

lemma u32_from_to_le_bytes [simp]: "u32_from_le_bytes (u32_to_le_bytes w) = Some w"
proof -
  define n where "n = unat w"
  have n: "n < 4294967296" unfolding n_def by (rule unat_u32_less)
  have sum: "n mod 256 + 256 * (n div 256 mod 256) + 65536 * (n div 65536 mod 256)
      + 16777216 * (n div 16777216 mod 256) = n"
    by (rule base256_sum [OF n])
  have b0: "unat (ucast w :: u8) = n mod 256"
    using unat_ucast_drop_bit [of 0 w] by (simp add: n_def)
  have "u32_from_le_bytes (u32_to_le_bytes w) = Some (word_of_nat
      (n mod 256 + 256 * (n div 256 mod 256) + 65536 * (n div 65536 mod 256)
      + 16777216 * (n div 16777216 mod 256)))"
    unfolding u32_to_le_bytes_def u32_from_le_bytes.simps b0 unat_ucast_drop_bit n_def by simp
  then show ?thesis unfolding sum by (simp add: n_def)
qed

lemma u32_from_le_bytes_length: "u32_from_le_bytes bs = Some w \<Longrightarrow> length bs = 4"
  by (cases bs rule: u32_from_le_bytes.cases) auto

lemma u32_from_le_bytes_total: "length bs = 4 \<Longrightarrow> \<exists>w. u32_from_le_bytes bs = Some w"
  by (cases bs rule: u32_from_le_bytes.cases) auto

lemma base256_digits:
  fixes a b c d :: nat
  assumes "a < 256" "b < 256" "c < 256" "d < 256"
  defines "n \<equiv> a + 256 * b + 65536 * c + 16777216 * d"
  shows "n mod 256 = a" "n div 256 mod 256 = b" "n div 65536 mod 256 = c"
    "n div 16777216 mod 256 = d"
proof -
  have digit: "(x + 256 * m) mod 256 = x" "(x + 256 * m) div 256 = m" if "x < 256" for x m :: nat
    using that by simp_all
  have n: "n = a + 256 * (b + 256 * (c + 256 * d))" by (simp add: n_def)
  have d1: "n div 256 = b + 256 * (c + 256 * d)" unfolding n by (rule digit [OF assms(1)])
  have d2: "n div 65536 = c + 256 * d"
    unfolding div_mult2_eq [of n 256 256, simplified] d1 by (rule digit [OF assms(2)])
  have d3: "n div 16777216 = d"
    unfolding div_mult2_eq [of n 65536 256, simplified] d2 by (rule digit [OF assms(3)])
  show "n mod 256 = a" unfolding n by (rule digit [OF assms(1)])
  show "n div 256 mod 256 = b" unfolding d1 by (rule digit [OF assms(2)])
  show "n div 65536 mod 256 = c" unfolding d2 by (rule digit [OF assms(3)])
  show "n div 16777216 mod 256 = d" unfolding d3 using assms(4) by simp
qed

lemma unat_le_sum:
  "unat (word_of_nat (unat a + 256 * unat b + 65536 * unat c + 16777216 * unat d) :: u32)
     = unat a + 256 * unat b + 65536 * unat c + 16777216 * unat d"
  for a b c d :: u8
proof -
  have "unat a + 256 * unat b + 65536 * unat c + 16777216 * unat d < 4294967296"
    using unat_u8_less [of a] unat_u8_less [of b] unat_u8_less [of c] unat_u8_less [of d]
    by linarith
  then show ?thesis unfolding unat_of_nat by simp
qed

lemma u32_to_from_le_bytes: "u32_from_le_bytes bs = Some w \<Longrightarrow> u32_to_le_bytes w = bs"
proof (cases bs rule: u32_from_le_bytes.cases)
  case (1 a b c d)
  let ?n = "unat a + 256 * unat b + 65536 * unat c + 16777216 * unat d"
  assume "u32_from_le_bytes bs = Some w"
  then have "w = word_of_nat ?n"
    unfolding 1 by (simp only: u32_from_le_bytes.simps option.inject)
  then have w: "unat w = ?n" by (simp only: unat_le_sum)
  have ab: "unat a < 256" "unat b < 256" "unat c < 256" "unat d < 256" by (rule unat_u8_less)+
  note digits = base256_digits [OF ab, folded w]
  have "ucast w = a"
    using unat_ucast_drop_bit [of 0 w] digits(1) by (intro unsigned_word_eqI [where ?'a = nat]) simp
  moreover have "ucast (drop_bit 8 w) = b"
    by (rule unsigned_word_eqI [where ?'a = nat]) (use digits(2) in \<open>simp add: unat_ucast_drop_bit\<close>)
  moreover have "ucast (drop_bit 16 w) = c"
    by (rule unsigned_word_eqI [where ?'a = nat]) (use digits(3) in \<open>simp add: unat_ucast_drop_bit\<close>)
  moreover have "ucast (drop_bit 24 w) = d"
    by (rule unsigned_word_eqI [where ?'a = nat]) (use digits(4) in \<open>simp add: unat_ucast_drop_bit\<close>)
  ultimately show ?thesis unfolding 1 u32_to_le_bytes_def by simp
qed auto

section \<open>Signed 64-bit\<close>

definition i64_max :: int where "i64_max = 9223372036854775807"
definition i64_min :: int where "i64_min = -9223372036854775808"

definition i64_of :: "int \<Rightarrow> i64" where
  "i64_of n = word_of_int n"

definition clamp_i64 :: "int \<Rightarrow> int" where
  "clamp_i64 n = max i64_min (min i64_max n)"

definition i64_saturating_add :: "i64 \<Rightarrow> i64 \<Rightarrow> i64" where
  "i64_saturating_add a b = i64_of (clamp_i64 (sint a + sint b))"

definition i64_saturating_sub :: "i64 \<Rightarrow> i64 \<Rightarrow> i64" where
  "i64_saturating_sub a b = i64_of (clamp_i64 (sint a - sint b))"

definition i64_larger :: "i64 \<Rightarrow> i64 \<Rightarrow> i64" where
  "i64_larger a b = (if sint a \<le> sint b then b else a)"

definition i64_smaller :: "i64 \<Rightarrow> i64 \<Rightarrow> i64" where
  "i64_smaller a b = (if sint a \<le> sint b then a else b)"

datatype build_profile = Debug | Release

definition i64_mul :: "build_profile \<Rightarrow> i64 \<Rightarrow> i64 \<Rightarrow> i64 option" where
  "i64_mul prof a b =
     (if i64_min \<le> sint a * sint b \<and> sint a * sint b \<le> i64_max then Some (a * b)
      else case prof of Debug \<Rightarrow> None | Release \<Rightarrow> Some (a * b))"

lemma sint_i64_bounds: "i64_min \<le> sint (a :: i64)" "sint (a :: i64) \<le> i64_max"
  using sint_range_size [of a] by (simp_all add: i64_min_def i64_max_def word_size)

lemma sint_i64_of: "i64_min \<le> n \<Longrightarrow> n \<le> i64_max \<Longrightarrow> sint (i64_of n) = n"
  by (simp add: i64_of_def i64_min_def i64_max_def signed_of_int signed_take_bit_int_eq_self)

lemma clamp_i64_range: "i64_min \<le> clamp_i64 n" "clamp_i64 n \<le> i64_max"
  by (auto simp: clamp_i64_def i64_min_def i64_max_def)

lemma sint_i64_saturating_add: "sint (i64_saturating_add a b) = clamp_i64 (sint a + sint b)"
  by (simp add: i64_saturating_add_def sint_i64_of clamp_i64_range)

lemma sint_i64_saturating_sub: "sint (i64_saturating_sub a b) = clamp_i64 (sint a - sint b)"
  by (simp add: i64_saturating_sub_def sint_i64_of clamp_i64_range)

lemma sint_i64_larger [simp]: "sint (i64_larger a b) = max (sint a) (sint b)"
  by (simp add: i64_larger_def)

lemma sint_i64_smaller [simp]: "sint (i64_smaller a b) = min (sint a) (sint b)"
  by (simp add: i64_smaller_def)

lemma sint_i64_times:
  "i64_min \<le> sint a * sint b \<Longrightarrow> sint a * sint b \<le> i64_max \<Longrightarrow> sint (a * b) = sint a * sint (b :: i64)"
proof -
  assume r: "i64_min \<le> sint a * sint b" "sint a * sint b \<le> i64_max"
  have "a * b = i64_of (sint a * sint b)"
    by (simp add: i64_of_def)
  with r show ?thesis by (simp add: sint_i64_of)
qed

lemma i64_mul_Debug: "i64_mul Debug a b = Some c \<Longrightarrow> sint c = sint a * sint b"
  by (auto simp: i64_mul_def sint_i64_times split: if_splits)

lemma i64_mul_exact:
  "i64_min \<le> sint a * sint b \<Longrightarrow> sint a * sint b \<le> i64_max \<Longrightarrow> i64_mul prof a b = Some (a * b)"
  by (simp add: i64_mul_def)

lemma i64_eq_iff: "(a :: i64) = b \<longleftrightarrow> sint a = sint b"
  by (auto intro: signed_word_eqI)

end
