(* ===== verification/Rust_Str.thy ===== *)
theory Rust_Str
  imports Rust_Int
begin

text \<open>
  Rust strings. A \<open>str\<close> is the list of its Unicode scalar values (\<open>char\<close>s); its bytes are the
  UTF-8 encoding, and \<open>String::from_utf8\<close> is the strict decoder (no overlong forms, no
  surrogates, nothing above U+10FFFF). The two directions are proved inverse to each other.
  The slice methods the program calls (\<open>char_indices\<close>, \<open>trim_matches\<close>, \<open>split\<close>, \<open>contains\<close>,
  \<open>starts_with\<close>, the ASCII predicates) follow.
\<close>

type_synonym str = "nat list"

definition lit :: "string \<Rightarrow> str" where
  "lit s = map of_char s"

definition blit :: "string \<Rightarrow> bytes" where
  "blit s = map of_char s"

definition is_scalar :: "nat \<Rightarrow> bool" where
  "is_scalar c \<longleftrightarrow> c < 55296 \<or> (57344 \<le> c \<and> c < 1114112)"

definition valid_str :: "str \<Rightarrow> bool" where
  "valid_str s \<longleftrightarrow> list_all is_scalar s"

lemma valid_str_simps [simp]:
  "valid_str []" "valid_str (c # s) \<longleftrightarrow> is_scalar c \<and> valid_str s"
  "valid_str (s @ t) \<longleftrightarrow> valid_str s \<and> valid_str t"
  by (auto simp: valid_str_def)

lemma is_scalar_ascii: "c < 128 \<Longrightarrow> is_scalar c"
  by (simp add: is_scalar_def)

section \<open>UTF-8\<close>

definition b8 :: "nat \<Rightarrow> u8" where "b8 n = of_nat n"

lemma unat_b8: "n < 256 \<Longrightarrow> unat (b8 n) = n"
  by (simp add: b8_def unat_of_nat)

lemma b8_unat [simp]: "b8 (unat b) = b"
  by (simp add: b8_def)

definition utf8_char :: "nat \<Rightarrow> bytes" where
  "utf8_char c =
     (if c < 128 then [b8 c]
      else if c < 2048 then [b8 (192 + c div 64), b8 (128 + c mod 64)]
      else if c < 65536 then
        [b8 (224 + c div 4096), b8 (128 + c div 64 mod 64), b8 (128 + c mod 64)]
      else
        [b8 (240 + c div 262144), b8 (128 + c div 4096 mod 64),
         b8 (128 + c div 64 mod 64), b8 (128 + c mod 64)])"

definition as_bytes :: "str \<Rightarrow> bytes" where
  "as_bytes s = concat (map utf8_char s)"

definition is_cont :: "u8 \<Rightarrow> bool" where
  "is_cont b \<longleftrightarrow> 128 \<le> unat b \<and> unat b < 192"

fun utf8_next :: "bytes \<Rightarrow> (nat \<times> bytes) option" where
  "utf8_next [] = None"
| "utf8_next (a # r) =
     (if unat a < 128 then Some (unat a, r)
      else if 194 \<le> unat a \<and> unat a < 224 then
        (case r of
           b # r' \<Rightarrow>
             if is_cont b then Some ((unat a - 192) * 64 + (unat b - 128), r') else None
         | _ \<Rightarrow> None)
      else if 224 \<le> unat a \<and> unat a < 240 then
        (case r of
           b # c # r' \<Rightarrow>
             (let v = (unat a - 224) * 4096 + (unat b - 128) * 64 + (unat c - 128) in
              if is_cont b \<and> is_cont c \<and> 2048 \<le> v \<and> is_scalar v then Some (v, r') else None)
         | _ \<Rightarrow> None)
      else if 240 \<le> unat a \<and> unat a < 248 then
        (case r of
           b # c # d # r' \<Rightarrow>
             (let v = (unat a - 240) * 262144 + (unat b - 128) * 4096 + (unat c - 128) * 64
                      + (unat d - 128) in
              if is_cont b \<and> is_cont c \<and> is_cont d \<and> 65536 \<le> v \<and> is_scalar v
              then Some (v, r') else None)
         | _ \<Rightarrow> None)
      else None)"

lemma utf8_next_shorter: "utf8_next bs = Some (c, r) \<Longrightarrow> length r < length bs"
  by (cases bs) (auto simp: Let_def split: if_splits list.splits)

function from_utf8 :: "bytes \<Rightarrow> str option" where
  "from_utf8 bs =
     (if bs = [] then Some []
      else case utf8_next bs of
        None \<Rightarrow> None
      | Some (c, r) \<Rightarrow> map_option (Cons c) (from_utf8 r))"
  by pat_completeness auto
termination
  by (relation "measure length") (auto dest: utf8_next_shorter)

declare from_utf8.simps [simp del]

lemma as_bytes_simps [simp]:
  "as_bytes [] = []" "as_bytes (c # s) = utf8_char c @ as_bytes s"
  "as_bytes (s @ t) = as_bytes s @ as_bytes t"
  by (simp_all add: as_bytes_def)

lemma utf8_char_nonempty [simp]: "utf8_char c \<noteq> []"
  by (simp add: utf8_char_def)

lemma base64_digits:
  fixes x y z w :: nat
  assumes "y < 64" "z < 64" "w < 64"
  shows "(x * 64 + y) div 64 = x" "(x * 64 + y) mod 64 = y"
    "(x * 4096 + y * 64 + z) div 4096 = x" "(x * 4096 + y * 64 + z) div 64 mod 64 = y"
    "(x * 4096 + y * 64 + z) mod 64 = z"
    "(x * 262144 + y * 4096 + z * 64 + w) div 262144 = x"
    "(x * 262144 + y * 4096 + z * 64 + w) div 4096 mod 64 = y"
    "(x * 262144 + y * 4096 + z * 64 + w) div 64 mod 64 = z"
    "(x * 262144 + y * 4096 + z * 64 + w) mod 64 = w"
proof -
  have digit: "(m * 64 + k) div 64 = m" "(m * 64 + k) mod 64 = k" if "k < 64" for m k :: nat
    using that by simp_all
  show "(x * 64 + y) div 64 = x" "(x * 64 + y) mod 64 = y" by (rule digit [OF assms(1)])+
  have e3: "x * 4096 + y * 64 + z = (x * 64 + y) * 64 + z" by simp
  show "(x * 4096 + y * 64 + z) div 4096 = x"
    unfolding e3 div_mult2_eq [of _ 64 64, simplified] digit [OF assms(2)] by (rule digit [OF assms(1)])
  show "(x * 4096 + y * 64 + z) div 64 mod 64 = y"
    unfolding e3 digit [OF assms(2)] by (rule digit [OF assms(1)])
  show "(x * 4096 + y * 64 + z) mod 64 = z" unfolding e3 by (rule digit [OF assms(2)])
  have e4: "x * 262144 + y * 4096 + z * 64 + w = ((x * 64 + y) * 64 + z) * 64 + w" by simp
  show "(x * 262144 + y * 4096 + z * 64 + w) div 262144 = x"
    unfolding e4 div_mult2_eq [of _ 64 4096, simplified] div_mult2_eq [of _ 64 64, simplified]
      digit [OF assms(3)] digit [OF assms(2)] by (rule digit [OF assms(1)])
  show "(x * 262144 + y * 4096 + z * 64 + w) div 4096 mod 64 = y"
    unfolding e4 div_mult2_eq [of _ 64 64, simplified] digit [OF assms(3)] digit [OF assms(2)]
    by (rule digit [OF assms(1)])
  show "(x * 262144 + y * 4096 + z * 64 + w) div 64 mod 64 = z"
    unfolding e4 digit [OF assms(3)] by (rule digit [OF assms(2)])
  show "(x * 262144 + y * 4096 + z * 64 + w) mod 64 = w" unfolding e4 by (rule digit [OF assms(3)])
qed

lemma utf8_next_encode: "is_scalar c \<Longrightarrow> utf8_next (utf8_char c @ r) = Some (c, r)"
proof -
  assume sc: "is_scalar c"
  then have c: "c < 1114112" by (auto simp: is_scalar_def)
  have m: "c mod 64 < 64" "c div 64 mod 64 < 64" "c div 4096 mod 64 < 64" by simp_all
  have q: "c div 64 div 64 = c div 4096" "c div 4096 div 64 = c div 262144"
    by (simp_all flip: div_mult2_eq)
  have s2: "c div 64 * 64 + c mod 64 = c" by simp
  have s3: "c div 4096 * 4096 + c div 64 mod 64 * 64 + c mod 64 = c"
    using div_mult_mod_eq [of "c div 64" 64] div_mult_mod_eq [of c 64] unfolding q by linarith
  have s4: "c div 262144 * 262144 + c div 4096 mod 64 * 4096 + c div 64 mod 64 * 64 + c mod 64 = c"
    using s3 div_mult_mod_eq [of "c div 4096" 64] unfolding q by linarith
  consider "c < 128" | "128 \<le> c" "c < 2048" | "2048 \<le> c" "c < 65536" | "65536 \<le> c" by linarith
  then show ?thesis
  proof cases
    case 1
    then show ?thesis by (simp add: utf8_char_def unat_b8)
  next
    case 2
    then have e: "utf8_char c = [b8 (192 + c div 64), b8 (128 + c mod 64)]"
      by (simp add: utf8_char_def)
    have "c div 64 < 32" "2 \<le> c div 64"
      using 2 div_le_mono [of 128 c 64] by (simp_all add: div_less_iff_less_mult)
    with m(1) s2 show ?thesis unfolding e by (simp add: unat_b8 is_cont_def)
  next
    case 3
    then have "c div 4096 < 16" by (simp add: div_less_iff_less_mult)
    with 3 m s3 sc show ?thesis
      by (simp add: utf8_char_def unat_b8 is_cont_def Let_def)
  next
    case 4
    then have "c div 262144 < 5" using c by (simp add: div_less_iff_less_mult)
    with 4 m s4 sc show ?thesis
      by (simp add: utf8_char_def unat_b8 is_cont_def Let_def)
  qed
qed

lemma utf8_next_decode:
  assumes "utf8_next bs = Some (c, r)"
  shows "is_scalar c \<and> bs = utf8_char c @ r"
proof -
  obtain a t where bs: "bs = a # t" using assms by (cases bs) auto
  consider "unat a < 128" | "194 \<le> unat a" "unat a < 224" | "224 \<le> unat a" "unat a < 240"
    | "240 \<le> unat a" "unat a < 248" | "248 \<le> unat a \<or> 128 \<le> unat a \<and> unat a < 194" by linarith
  then show ?thesis
  proof cases
    case 1
    with assms bs show ?thesis by (auto simp: utf8_char_def is_scalar_def)
  next
    case 2
    with assms bs obtain b where t: "t = b # r" "is_cont b"
      and c: "c = (unat a - 192) * 64 + (unat b - 128)"
      by (auto split: list.splits if_splits)
    let ?x = "unat a - 192" and ?y = "unat b - 128"
    have y: "?y < 64" using t by (auto simp: is_cont_def)
    have "128 \<le> c" "c < 2048" using 2 y unfolding c by linarith+
    moreover have "c div 64 = ?x" "c mod 64 = ?y" unfolding c
      by (rule base64_digits(1,2) [OF y, of 0 0]; simp)+
    moreover have "192 + ?x = unat a" "128 + ?y = unat b" using 2 t by (auto simp: is_cont_def)
    ultimately show ?thesis using bs t by (simp add: utf8_char_def is_scalar_def)
  next
    case 3
    with assms bs obtain b d where t: "t = b # d # r" "is_cont b" "is_cont d"
      and c: "c = (unat a - 224) * 4096 + (unat b - 128) * 64 + (unat d - 128)"
      and sc: "2048 \<le> c" "is_scalar c"
      by (auto simp: Let_def split: list.splits if_splits)
    let ?x = "unat a - 224" and ?y = "unat b - 128" and ?z = "unat d - 128"
    have y: "?y < 64" "?z < 64" using t by (auto simp: is_cont_def)
    have "c < 65536" using 3 y unfolding c by linarith
    moreover have "c div 4096 = ?x" "c div 64 mod 64 = ?y" "c mod 64 = ?z"
      unfolding c using y by (rule base64_digits(3-5); simp)+
    moreover have "224 + ?x = unat a" "128 + ?y = unat b" "128 + ?z = unat d"
      using 3 t by (auto simp: is_cont_def)
    ultimately show ?thesis using bs t sc by (simp add: utf8_char_def)
  next
    case 4
    with assms bs obtain b d e where t: "t = b # d # e # r" "is_cont b" "is_cont d" "is_cont e"
      and c: "c = (unat a - 240) * 262144 + (unat b - 128) * 4096 + (unat d - 128) * 64
                  + (unat e - 128)"
      and sc: "65536 \<le> c" "is_scalar c"
      by (auto simp: Let_def split: list.splits if_splits)
    let ?x = "unat a - 240" and ?y = "unat b - 128" and ?z = "unat d - 128" and ?w = "unat e - 128"
    have y: "?y < 64" "?z < 64" "?w < 64" using t by (auto simp: is_cont_def)
    have "c div 262144 = ?x" "c div 4096 mod 64 = ?y" "c div 64 mod 64 = ?z" "c mod 64 = ?w"
      unfolding c using y by (rule base64_digits(6-9); simp)+
    moreover have "240 + ?x = unat a" "128 + ?y = unat b" "128 + ?z = unat d" "128 + ?w = unat e"
      using 4 t by (auto simp: is_cont_def)
    ultimately show ?thesis using bs t sc by (simp add: utf8_char_def)
  next
    case 5
    with assms bs show ?thesis by auto
  qed
qed

lemma from_utf8_Nil [simp]: "from_utf8 [] = Some []"
  by (simp add: from_utf8.simps)

lemma from_utf8_step:
  "utf8_next bs = Some (c, r) \<Longrightarrow> from_utf8 bs = map_option (Cons c) (from_utf8 r)"
  by (subst from_utf8.simps) auto

lemma from_utf8_as_bytes: "valid_str s \<Longrightarrow> from_utf8 (as_bytes s) = Some s"
  by (induction s) (simp_all add: from_utf8_step [OF utf8_next_encode])

lemma from_utf8_Some: "from_utf8 bs = Some s \<Longrightarrow> valid_str s \<and> as_bytes s = bs"
proof (induction bs arbitrary: s rule: from_utf8.induct)
  case (1 bs)
  show ?case
  proof (cases "bs = []")
    case True
    with "1.prems" show ?thesis by simp
  next
    case False
    with "1.prems" obtain c r s' where n: "utf8_next bs = Some (c, r)"
      and s: "from_utf8 r = Some s'" "s = c # s'"
      by (subst (asm) from_utf8.simps) (auto split: option.splits)
    from "1.IH" [OF False n refl s(1)] utf8_next_decode [OF n] s(2) show ?thesis by simp
  qed
qed

lemma as_bytes_inj: "valid_str s \<Longrightarrow> valid_str t \<Longrightarrow> as_bytes s = as_bytes t \<Longrightarrow> s = t"
  by (metis from_utf8_as_bytes option.inject)

lemma utf8_char_ascii: "c < 128 \<Longrightarrow> utf8_char c = [b8 c]"
  by (simp add: utf8_char_def)

lemma as_bytes_ascii: "\<forall>c \<in> set s. c < 128 \<Longrightarrow> as_bytes s = map b8 s"
  by (induction s) (auto simp: utf8_char_ascii)

section \<open>Characters and their byte offsets\<close>

fun char_indices_from :: "nat \<Rightarrow> str \<Rightarrow> (nat \<times> nat) list" where
  "char_indices_from i [] = []"
| "char_indices_from i (c # s) = (i, c) # char_indices_from (i + length (utf8_char c)) s"

definition char_indices :: "str \<Rightarrow> (nat \<times> nat) list" where
  "char_indices s = char_indices_from 0 s"

text \<open>A byte offset is on a character boundary when it is the length of a prefix's encoding.\<close>

definition boundary :: "str \<Rightarrow> nat \<Rightarrow> bool" where
  "boundary s i \<longleftrightarrow> (\<exists>n \<le> length s. i = length (as_bytes (take n s)))"

lemma length_as_bytes_take_mono:
  "m \<le> n \<Longrightarrow> length (as_bytes (take m s)) \<le> length (as_bytes (take n s))"
proof (induction s arbitrary: m n)
  case (Cons c s)
  then show ?case by (cases m; cases n) auto
qed simp

lemma length_as_bytes_take_strict:
  "m < n \<Longrightarrow> n \<le> length s \<Longrightarrow> length (as_bytes (take m s)) < length (as_bytes (take n s))"
proof (induction s arbitrary: m n)
  case (Cons c s)
  then show ?case by (cases m; cases n) (auto simp: trans_less_add1)
qed simp

lemma boundary_bound: "boundary s i \<Longrightarrow> i \<le> length (as_bytes s)"
  using length_as_bytes_take_mono [of _ "length s" s] by (auto simp: boundary_def)

section \<open>Slice methods\<close>

definition is_ascii_digit :: "nat \<Rightarrow> bool" where "is_ascii_digit c \<longleftrightarrow> 48 \<le> c \<and> c \<le> 57"
definition is_ascii_uppercase :: "nat \<Rightarrow> bool" where "is_ascii_uppercase c \<longleftrightarrow> 65 \<le> c \<and> c \<le> 90"
definition is_ascii_lowercase :: "nat \<Rightarrow> bool" where "is_ascii_lowercase c \<longleftrightarrow> 97 \<le> c \<and> c \<le> 122"
definition is_ascii_alphanumeric :: "nat \<Rightarrow> bool" where
  "is_ascii_alphanumeric c \<longleftrightarrow> is_ascii_digit c \<or> is_ascii_uppercase c \<or> is_ascii_lowercase c"
definition is_ascii_hexdigit :: "nat \<Rightarrow> bool" where
  "is_ascii_hexdigit c \<longleftrightarrow> is_ascii_digit c \<or> 65 \<le> c \<and> c \<le> 70 \<or> 97 \<le> c \<and> c \<le> 102"

lemmas ascii_defs = is_ascii_digit_def is_ascii_uppercase_def is_ascii_lowercase_def
  is_ascii_alphanumeric_def is_ascii_hexdigit_def

definition to_ascii_lowercase :: "str \<Rightarrow> str" where
  "to_ascii_lowercase s = map (\<lambda>c. if is_ascii_uppercase c then c + 32 else c) s"

definition trim_matches :: "(nat \<Rightarrow> bool) \<Rightarrow> str \<Rightarrow> str" where
  "trim_matches P s = rev (dropWhile P (rev (dropWhile P s)))"

definition starts_with :: "str \<Rightarrow> str \<Rightarrow> bool" where
  "starts_with s p \<longleftrightarrow> take (length p) s = p"

fun contains_str :: "str \<Rightarrow> str \<Rightarrow> bool" where
  "contains_str [] p \<longleftrightarrow> p = []"
| "contains_str (c # s) p \<longleftrightarrow> starts_with (c # s) p \<or> contains_str s p"

fun split_on :: "(nat \<Rightarrow> bool) \<Rightarrow> str \<Rightarrow> str list" where
  "split_on P [] = [[]]"
| "split_on P (c # s) =
     (if P c then [] # split_on P s
      else case split_on P s of [] \<Rightarrow> [[c]] | t # ts \<Rightarrow> (c # t) # ts)"

lemma starts_with_iff: "starts_with s p \<longleftrightarrow> (\<exists>t. s = p @ t)"
  unfolding starts_with_def by (metis append_eq_conv_conj append_take_drop_id)

lemma contains_str_iff: "contains_str s p \<longleftrightarrow> (\<exists>a b. s = a @ p @ b)"
proof (induction s)
  case (Cons c s)
  show ?case
    by (auto simp: Cons starts_with_iff Cons_eq_append_conv)
qed auto

lemma split_on_nonempty [simp]: "split_on P s \<noteq> []"
  by (induction s) (auto split: list.splits)


end
