(* ===== verification/Hex.thy ===== *)
theory Hex
  imports Rust_Str
begin

text \<open>
  \<open>hexutil.rs\<close> and \<open>crypto::hex_lower\<close>: bytes as a lowercase hex string and back. The decoder
  slices the string by byte offsets, as the code does, so an offset inside a multi-byte
  character is a panic of \<open>str\<close> indexing, not an error; \<open>u8::from_str_radix\<close> accepts an
  optional plus sign and digits of either case.
\<close>

section \<open>Encoding\<close>

definition hex_digit :: "nat \<Rightarrow> nat" where
  "hex_digit n = (if n < 10 then 48 + n else 87 + n)"

definition fmt_02x :: "u8 \<Rightarrow> str" where
  "fmt_02x b = [hex_digit (unat b div 16), hex_digit (unat b mod 16)]"

definition hex_serialize :: "bytes \<Rightarrow> str" where
  "hex_serialize bs = concat (map fmt_02x bs)"

section \<open>Decoding\<close>

text \<open>\<open>str::is_char_boundary\<close> and the slice \<open>&s[i..j]\<close>, \<open>None\<close> where it panics.\<close>

definition is_char_boundary :: "str \<Rightarrow> nat \<Rightarrow> bool" where
  "is_char_boundary s i \<longleftrightarrow>
     (let bs = as_bytes s in i = length bs \<or> i < length bs \<and> \<not> is_cont (bs ! i))"

definition str_slice :: "str \<Rightarrow> nat \<Rightarrow> nat \<Rightarrow> str option" where
  "str_slice s i j =
     (if i \<le> j \<and> is_char_boundary s i \<and> is_char_boundary s j
      then from_utf8 (slice (as_bytes s) i j) else None)"

definition to_digit_16 :: "nat \<Rightarrow> nat option" where
  "to_digit_16 c =
     (if is_ascii_digit c then Some (c - 48)
      else if 97 \<le> c \<and> c \<le> 102 then Some (c - 87)
      else if 65 \<le> c \<and> c \<le> 70 then Some (c - 55)
      else None)"

fun radix_16_digits :: "nat \<Rightarrow> str \<Rightarrow> nat option" where
  "radix_16_digits acc [] = Some acc"
| "radix_16_digits acc (c # cs) =
     (case to_digit_16 c of
        None \<Rightarrow> None
      | Some d \<Rightarrow> if acc * 16 + d < 256 then radix_16_digits (acc * 16 + d) cs else None)"

fun u8_from_str_radix_16 :: "str \<Rightarrow> u8 option" where
  "u8_from_str_radix_16 [] = None"
| "u8_from_str_radix_16 (c # cs) =
     (if cs = [] \<and> (c = 43 \<or> c = 45) then None
      else map_option b8 (radix_16_digits 0 (if c = 43 then cs else c # cs)))"

datatype hex_error = OddHexLength | InvalidDigit

fun hex_pairs :: "str \<Rightarrow> nat \<Rightarrow> nat \<Rightarrow> (hex_error, bytes) result" where
  "hex_pairs s i 0 = Ok []"
| "hex_pairs s i (Suc k) =
     (case str_slice s i (i + 2) of
        None \<Rightarrow> Panicked
      | Some t \<Rightarrow>
          (case u8_from_str_radix_16 t of
             None \<Rightarrow> Err InvalidDigit
           | Some b \<Rightarrow> rmap (Cons b) (hex_pairs s (i + 2) k)))"

definition hex_deserialize :: "str \<Rightarrow> (hex_error, bytes) result" where
  "hex_deserialize s =
     (let n = length (as_bytes s) in
      if n mod 2 \<noteq> 0 then Err OddHexLength else hex_pairs s 0 (n div 2))"

section \<open>Facts\<close>

lemma hex_digit_less: "n < 16 \<Longrightarrow> hex_digit n < 128"
  by (simp add: hex_digit_def)

lemma to_digit_hex_digit: "n < 16 \<Longrightarrow> to_digit_16 (hex_digit n) = Some n"
  by (auto simp: hex_digit_def to_digit_16_def is_ascii_digit_def)

lemma hex_digit_not_sign: "n < 16 \<Longrightarrow> hex_digit n \<noteq> 43"
  by (auto simp: hex_digit_def)

lemma unat_u8_nibbles: "unat (b :: u8) div 16 < 16"
  using unat_u8_less [of b] by (simp add: div_less_iff_less_mult)

lemma u8_from_fmt_02x: "u8_from_str_radix_16 (fmt_02x b) = Some b"
proof -
  have "unat b div 16 * 16 + unat b mod 16 = unat b" by (rule div_mult_mod_eq)
  then show ?thesis
    using unat_u8_nibbles [of b] unat_u8_less [of b]
    by (simp add: fmt_02x_def to_digit_hex_digit hex_digit_not_sign)
qed

lemma hex_serialize_ascii: "\<forall>c \<in> set (hex_serialize bs). c < 128"
  by (induction bs) (auto simp: hex_serialize_def fmt_02x_def hex_digit_less unat_u8_nibbles)

lemma length_hex_serialize: "length (hex_serialize bs) = 2 * length bs"
  by (induction bs) (auto simp: hex_serialize_def fmt_02x_def)

lemma valid_str_ascii: "\<forall>c \<in> set s. c < 128 \<Longrightarrow> valid_str s"
  by (auto simp: valid_str_def list_all_iff is_scalar_ascii)

lemma not_is_cont_ascii: "c < 128 \<Longrightarrow> \<not> is_cont (b8 c)"
  by (simp add: is_cont_def unat_b8)

lemma ascii_boundary:
  "\<forall>c \<in> set s. c < 128 \<Longrightarrow> is_char_boundary s i \<longleftrightarrow> i \<le> length s"
  by (auto simp: is_char_boundary_def as_bytes_ascii Let_def not_is_cont_ascii)

text \<open>On an ASCII string, slicing by bytes is slicing by characters.\<close>

lemma ascii_str_slice:
  assumes "\<forall>c \<in> set s. c < 128" "i \<le> j" "j \<le> length s"
  shows "str_slice s i j = Some (slice s i j)"
proof -
  have "set (slice s i j) \<subseteq> set s"
    unfolding slice_def by (meson order_trans set_drop_subset set_take_subset)
  then have a: "\<forall>c \<in> set (slice s i j). c < 128" using assms(1) by blast
  have "slice (as_bytes s) i j = as_bytes (slice s i j)"
    by (simp add: as_bytes_ascii [OF assms(1)] as_bytes_ascii [OF a]) (simp add: slice_def take_map drop_map)
  then show ?thesis
    using assms by (simp add: str_slice_def ascii_boundary from_utf8_as_bytes valid_str_ascii [OF a])
qed

lemma hex_pairs_serialize:
  assumes "\<forall>c \<in> set pre. c < 128"
  shows "hex_pairs (pre @ hex_serialize bs) (length pre) (length bs) = Ok bs"
  using assms
proof (induction bs arbitrary: pre)
  case Nil
  show ?case by simp
next
  case (Cons b bs)
  let ?s = "pre @ hex_serialize (b # bs)"
  have e: "?s = pre @ fmt_02x b @ hex_serialize bs" by (simp add: hex_serialize_def)
  have a: "\<forall>c \<in> set ?s. c < 128" using Cons.prems hex_serialize_ascii by auto
  have l: "length (fmt_02x b) = 2" by (simp add: fmt_02x_def)
  have sl: "str_slice ?s (length pre) (length pre + 2) = Some (fmt_02x b)"
  proof -
    have "slice ?s (length pre) (length pre + 2) = fmt_02x b"
      unfolding e l [symmetric] by (rule slice_append)
    moreover have "length pre + 2 \<le> length ?s" by (simp add: length_hex_serialize)
    ultimately show ?thesis using ascii_str_slice [OF a, of "length pre" "length pre + 2"] by simp
  qed
  have "hex_pairs ((pre @ fmt_02x b) @ hex_serialize bs) (length (pre @ fmt_02x b)) (length bs) = Ok bs"
    by (rule Cons.IH) (use a e in auto)
  then show ?case using sl u8_from_fmt_02x [of b] by (simp add: e l)
qed

lemma hex_deserialize_serialize: "hex_deserialize (hex_serialize bs) = Ok bs"
  using hex_pairs_serialize [of "[]" bs]
  by (simp add: hex_deserialize_def as_bytes_ascii hex_serialize_ascii length_hex_serialize)

interpretation hex: codec hex_serialize hex_deserialize "\<lambda>_. True"
  by unfold_locales (rule hex_deserialize_serialize)

lemma hex_pairs_ascii_no_panic:
  assumes "\<forall>c \<in> set s. c < 128"
  shows "i + 2 * k \<le> length s \<Longrightarrow> hex_pairs s i k \<noteq> Panicked"
  by (induction k arbitrary: i)
     (auto simp: ascii_str_slice [OF assms] result_simps split: option.splits)

lemma hex_deserialize_ascii_no_panic:
  assumes "\<forall>c \<in> set s. c < 128"
  shows "hex_deserialize s \<noteq> Panicked"
  using hex_pairs_ascii_no_panic [OF assms, of 0 "length s div 2"] assms
  by (simp add: hex_deserialize_def Let_def as_bytes_ascii)

lemma hex_deserialize_length:
  assumes "hex_deserialize s = Ok bs"
  shows "length (as_bytes s) = 2 * length bs"
proof -
  have len: "hex_pairs s i k = Ok bs \<Longrightarrow> length bs = k" for i k bs
    by (induction k arbitrary: i bs) (auto simp: result_simps split: option.splits)
  from assms have "length (as_bytes s) mod 2 = 0"
    "hex_pairs s 0 (length (as_bytes s) div 2) = Ok bs"
    by (auto simp: hex_deserialize_def Let_def split: if_splits)
  then show ?thesis using len by fastforce
qed

end
