(* ===== verification/Rust_Regex.thy ===== *)
theory Rust_Regex
  imports Hex
begin

text \<open>
  The regular expressions of \<open>redaction/patterns.rs\<close>. A pattern is a syntax tree, one constructor
  per construct the sources use; \<open>rx_steps\<close> gives its meaning, the end positions of the matches
  from a position in the order a leftmost-first engine prefers them. The \<open>regex\<close> crate itself is
  the \<open>regex_engine\<close> record of functions; \<open>engine_ok\<close> states what its documentation promises:
  the spans are on character boundaries and do not overlap, each is a match, and a text that has
  a match yields one. Unicode tables (\<open>\b\<close>, \<open>\s\<close>, case folding) are a parameter as well.
  \<open>reference_engine\<close> shows that the promises can be kept.
\<close>

section \<open>Syntax\<close>

datatype class_item = Range nat nat | Space

datatype rx =
    Empty
  | Ch nat
  | Cls bool "class_item list"
  | Seq rx rx
  | Alt rx rx
  | Rep rx nat "nat option"
  | Word_Boundary
  | Text_Start
  | Val rx
  | NoCase rx

definition rng :: "char \<Rightarrow> char \<Rightarrow> class_item" where "rng a b = Range (of_char a) (of_char b)"
definition one :: "char \<Rightarrow> class_item" where "one a = rng a a"

definition rx_seq :: "rx list \<Rightarrow> rx" where "rx_seq rs = foldr Seq rs Empty"

fun rx_alt :: "rx list \<Rightarrow> rx" where
  "rx_alt [] = Cls False []"
| "rx_alt [r] = r"
| "rx_alt (r # rs) = Alt r (rx_alt rs)"

definition rx_str :: "string \<Rightarrow> rx" where "rx_str s = rx_seq (map Ch (lit s))"
definition rx_strs :: "string list \<Rightarrow> rx" where "rx_strs ss = rx_alt (map rx_str ss)"
definition rx_opt :: "rx \<Rightarrow> rx" where "rx_opt r = Rep r 0 (Some 1)"
definition rx_star :: "rx \<Rightarrow> rx" where "rx_star r = Rep r 0 None"
definition rx_plus :: "rx \<Rightarrow> rx" where "rx_plus r = Rep r 1 None"
definition rx_least :: "rx \<Rightarrow> nat \<Rightarrow> rx" where "rx_least r n = Rep r n None"
definition rx_times :: "rx \<Rightarrow> nat \<Rightarrow> rx" where "rx_times r n = Rep r n (Some n)"
definition rx_between :: "rx \<Rightarrow> nat \<Rightarrow> nat \<Rightarrow> rx" where "rx_between r n m = Rep r n (Some m)"

lemmas rx_sugar = rx_seq_def rx_str_def rx_strs_def rx_opt_def rx_star_def rx_plus_def rx_least_def
  rx_times_def rx_between_def rng_def one_def

section \<open>Meaning\<close>

text \<open>\<open>variants c\<close>: the other characters that simple case folding identifies with \<open>c\<close>.\<close>

record rx_classes =
  word_char :: "nat \<Rightarrow> bool"
  space_char :: "nat \<Rightarrow> bool"
  variants :: "nat \<Rightarrow> nat list"

definition classes_ok :: "rx_classes \<Rightarrow> bool" where
  "classes_ok C \<longleftrightarrow> (\<forall>c < 128. word_char C c \<longleftrightarrow> is_ascii_alphanumeric c \<or> c = 95)"

fun item_mem :: "rx_classes \<Rightarrow> class_item \<Rightarrow> nat \<Rightarrow> bool" where
  "item_mem C (Range a b) c \<longleftrightarrow> a \<le> c \<and> c \<le> b"
| "item_mem C Space c \<longleftrightarrow> space_char C c"

definition class_mem :: "rx_classes \<Rightarrow> bool \<Rightarrow> bool \<Rightarrow> class_item list \<Rightarrow> nat \<Rightarrow> bool" where
  "class_mem C ci negated items c \<longleftrightarrow>
     list_ex (\<lambda>d. list_ex (\<lambda>it. item_mem C it d) items) (if ci then c # variants C c else [c]) \<noteq> negated"

definition word_at :: "rx_classes \<Rightarrow> str \<Rightarrow> nat \<Rightarrow> bool" where
  "word_at C s i \<longleftrightarrow> i < length s \<and> word_char C (s ! i)"

definition at_word_boundary :: "rx_classes \<Rightarrow> str \<Rightarrow> nat \<Rightarrow> bool" where
  "at_word_boundary C s i \<longleftrightarrow> (0 < i \<and> word_at C s (i - 1)) \<noteq> word_at C s i"

text \<open>
  A position in the text together with the span last captured by the \<open>val\<close> group.
  Greedy iteration: at most \<open>fuel\<close> rounds, a round that consumes nothing only while \<open>lo\<close> asks
  for it.
\<close>

type_synonym rx_pos = "nat \<times> (nat \<times> nat) option"

fun rx_rep :: "(rx_pos \<Rightarrow> rx_pos list) \<Rightarrow> nat \<Rightarrow> nat \<Rightarrow> nat option \<Rightarrow> rx_pos \<Rightarrow> rx_pos list" where
  "rx_rep f 0 lo hi p = (if lo = 0 then [p] else [])"
| "rx_rep f (Suc fuel) lo hi p =
     (if hi = Some 0 then []
      else concat (map (\<lambda>q. rx_rep f fuel (lo - 1) (map_option (\<lambda>h. h - 1) hi) q)
                       (filter (\<lambda>q. fst p < fst q \<or> 0 < lo) (f p)))) @ (if lo = 0 then [p] else [])"

primrec rx_steps :: "rx_classes \<Rightarrow> str \<Rightarrow> rx \<Rightarrow> bool \<Rightarrow> rx_pos \<Rightarrow> rx_pos list" where
  "rx_steps C s Empty ci p = [p]"
| "rx_steps C s (Ch c) ci p =
     (if fst p < length s \<and> class_mem C ci False [Range c c] (s ! fst p)
      then [(Suc (fst p), snd p)] else [])"
| "rx_steps C s (Cls negated items) ci p =
     (if fst p < length s \<and> class_mem C ci negated items (s ! fst p)
      then [(Suc (fst p), snd p)] else [])"
| "rx_steps C s (Seq a b) ci p = concat (map (rx_steps C s b ci) (rx_steps C s a ci p))"
| "rx_steps C s (Alt a b) ci p = rx_steps C s a ci p @ rx_steps C s b ci p"
| "rx_steps C s (Rep r lo hi) ci p = rx_rep (rx_steps C s r ci) (Suc (length s) + lo) lo hi p"
| "rx_steps C s Word_Boundary ci p = (if at_word_boundary C s (fst p) then [p] else [])"
| "rx_steps C s Text_Start ci p = (if fst p = 0 then [p] else [])"
| "rx_steps C s (Val r) ci p =
     map (\<lambda>q. (fst q, Some (fst p, fst q))) (rx_steps C s r ci p)"
| "rx_steps C s (NoCase r) ci p = rx_steps C s r True p"

text \<open>\<open>rx_match C r s i (j, v)\<close>: \<open>r\<close> matches from \<open>i\<close> to \<open>j\<close> and its \<open>val\<close> group is \<open>v\<close>.\<close>

definition rx_match :: "rx_classes \<Rightarrow> rx \<Rightarrow> str \<Rightarrow> nat \<Rightarrow> rx_pos \<Rightarrow> bool" where
  "rx_match C r s i q \<longleftrightarrow> q \<in> set (rx_steps C s r False (i, None))"

text \<open>A lower bound on the length of a match.\<close>

primrec rx_min :: "rx \<Rightarrow> nat" where
  "rx_min Empty = 0"
| "rx_min (Ch c) = 1"
| "rx_min (Cls n is) = 1"
| "rx_min (Seq a b) = rx_min a + rx_min b"
| "rx_min (Alt a b) = min (rx_min a) (rx_min b)"
| "rx_min (Rep r lo hi) = lo * rx_min r"
| "rx_min Word_Boundary = 0"
| "rx_min Text_Start = 0"
| "rx_min (Val r) = rx_min r"
| "rx_min (NoCase r) = rx_min r"

text \<open>Every capture lies inside the text read so far.\<close>

definition step_ok :: "nat \<Rightarrow> nat \<Rightarrow> rx_pos \<Rightarrow> rx_pos \<Rightarrow> bool" where
  "step_ok n w p q \<longleftrightarrow> fst p + w \<le> fst q \<and> fst q \<le> n \<and>
     (\<forall>a b. snd q = Some (a, b) \<longrightarrow> snd p = Some (a, b) \<or> fst p \<le> a \<and> a \<le> b \<and> b \<le> fst q)"

lemma step_ok_refl: "fst p \<le> n \<Longrightarrow> step_ok n 0 p p"
  by (simp add: step_ok_def)

lemma step_ok_trans: "step_ok n v p q \<Longrightarrow> step_ok n w q r \<Longrightarrow> step_ok n (v + w) p r"
  by (fastforce simp: step_ok_def)

lemma step_ok_mono: "step_ok n v p q \<Longrightarrow> w \<le> v \<Longrightarrow> step_ok n w p q"
  by (auto simp: step_ok_def)

lemma step_ok_bound: "step_ok n w p q \<Longrightarrow> fst q \<le> n"
  by (simp add: step_ok_def)

lemma rx_rep_ok:
  assumes "\<And>p q. fst p \<le> n \<Longrightarrow> q \<in> set (f p) \<Longrightarrow> step_ok n w p q"
  shows "q \<in> set (rx_rep f fuel lo hi p) \<Longrightarrow> fst p \<le> n \<Longrightarrow> step_ok n (lo * w) p q"
proof (induction fuel arbitrary: lo hi p)
  case (Suc fuel)
  show ?case
  proof (cases "lo = 0 \<and> q = p")
    case False
    with Suc.prems obtain k where k: "k \<in> set (f p)"
      "q \<in> set (rx_rep f fuel (lo - 1) (map_option (\<lambda>h. h - 1) hi) k)"
      by (auto split: if_splits)
    have w: "step_ok n w p k" using assms [OF Suc.prems(2) k(1)] .
    have "step_ok n (w + (lo - 1) * w) p q"
      by (rule step_ok_trans [OF w Suc.IH [OF k(2) step_ok_bound [OF w]]])
    then show ?thesis by (rule step_ok_mono) (cases lo, auto)
  qed (use Suc.prems step_ok_refl in auto)
qed (auto split: if_splits simp: step_ok_refl)

lemma rx_steps_ok:
  "fst p \<le> length s \<Longrightarrow> q \<in> set (rx_steps C s r ci p) \<Longrightarrow> step_ok (length s) (rx_min r) p q"
proof (induction r arbitrary: ci p q)
  case (Seq a b)
  from Seq.prems(2) obtain k where k: "k \<in> set (rx_steps C s a ci p)"
    "q \<in> set (rx_steps C s b ci k)" by auto
  have a: "step_ok (length s) (rx_min a) p k" by (rule Seq.IH(1) [OF Seq.prems(1) k(1)])
  from step_ok_trans [OF a Seq.IH(2) [OF step_ok_bound [OF a] k(2)]] show ?case by simp
next
  case (Alt a b)
  from Alt.prems(2) consider "q \<in> set (rx_steps C s a ci p)" | "q \<in> set (rx_steps C s b ci p)"
    by auto
  then show ?case
  proof cases
    case 1
    from Alt.IH(1) [OF Alt.prems(1) this] show ?thesis by (rule step_ok_mono) simp
  next
    case 2
    from Alt.IH(2) [OF Alt.prems(1) this] show ?thesis by (rule step_ok_mono) simp
  qed
next
  case (Rep r lo hi)
  from Rep.prems(2) have "q \<in> set (rx_rep (rx_steps C s r ci) (Suc (length s) + lo) lo hi p)" by simp
  with Rep.prems(1) have "step_ok (length s) (lo * rx_min r) p q"
    by (rule_tac rx_rep_ok [where f = "rx_steps C s r ci"]) (rule Rep.IH)
  then show ?case by simp
next
  case (Val r)
  from Val.prems(2) obtain k where k: "k \<in> set (rx_steps C s r ci p)" "q = (fst k, Some (fst p, fst k))"
    by auto
  from Val.IH [OF Val.prems(1) k(1)] k(2) show ?case by (simp add: step_ok_def)
qed (auto split: if_splits simp: step_ok_def)

lemma rx_match_width:
  assumes "i \<le> length s" "rx_match C r s i (j, v)"
  shows "i + rx_min r \<le> j \<and> j \<le> length s"
  using rx_steps_ok [of "(i, None)" s "(j, v)" C r False] assms
  by (simp add: rx_match_def step_ok_def)

lemma rx_match_capture:
  assumes "i \<le> length s" "rx_match C r s i (j, Some (a, b))"
  shows "i \<le> a \<and> a \<le> b \<and> b \<le> j"
  using rx_steps_ok [of "(i, None)" s "(j, Some (a, b))" C r False] assms
  by (simp add: rx_match_def step_ok_def)

section \<open>Finding matches\<close>

lemma rx_seq_steps [simp]:
  "q \<in> set (rx_steps C s (rx_seq []) ci p) \<longleftrightarrow> q = p"
  "q \<in> set (rx_steps C s (rx_seq (r # rs)) ci p) \<longleftrightarrow>
     (\<exists>k \<in> set (rx_steps C s r ci p). q \<in> set (rx_steps C s (rx_seq rs) ci k))"
  by (auto simp: rx_seq_def)

lemma rx_seq_intro:
  "k \<in> set (rx_steps C s r ci p) \<Longrightarrow> q \<in> set (rx_steps C s (rx_seq rs) ci k) \<Longrightarrow>
   q \<in> set (rx_steps C s (rx_seq (r # rs)) ci p)"
  by auto

lemma rx_alt_steps:
  "q \<in> set (rx_steps C s (rx_alt rs) ci p) \<longleftrightarrow> (\<exists>r \<in> set rs. q \<in> set (rx_steps C s r ci p))"
  by (induction rs rule: rx_alt.induct) (auto simp: class_mem_def list_ex_iff)

lemma slice_Cons:
  "i < length s \<Longrightarrow> slice s i (i + Suc n) = s ! i # slice s (Suc i) (Suc i + n)"
  by (simp add: slice_def flip: Cons_nth_drop_Suc)

lemma rx_str_steps:
  assumes "slice s i (i + length w) = lit w" "i + length w \<le> length s"
  shows "(i + length w, v) \<in> set (rx_steps C s (rx_str w) False (i, v))"
  using assms
proof (induction w arbitrary: i)
  case (Cons c w)
  have "s ! i # slice s (Suc i) (Suc i + length w) = of_char c # lit w"
    using Cons.prems slice_Cons [of i s "length w"] by (simp add: lit_def)
  then have "s ! i = of_char c" "slice s (Suc i) (Suc i + length w) = lit w" by simp_all
  moreover from this(2) have "(Suc i + length w, v) \<in> set (rx_steps C s (rx_str w) False (Suc i, v))"
    using Cons.prems(2) Cons.IH [of "Suc i"] by simp
  ultimately show ?case using Cons.prems(2)
    by (simp add: rx_str_def lit_def class_mem_def)
qed (simp add: rx_str_def lit_def)

lemma rx_rep_run:
  assumes "\<And>d. d < k \<Longrightarrow> (Suc (i + d), v) \<in> set (f (i + d, v))"
    "lo \<le> k" "k \<le> fuel" "\<forall>h. hi = Some h \<longrightarrow> k \<le> h"
  shows "(i + k, v) \<in> set (rx_rep f fuel lo hi (i, v))"
  using assms
proof (induction k arbitrary: i fuel lo hi)
  case 0
  then show ?case by (cases fuel) auto
next
  case (Suc k)
  obtain fu where fu: "fuel = Suc fu" using Suc.prems(3) by (cases fuel) auto
  have "(Suc i + k, v) \<in> set (rx_rep f fu (lo - 1) (map_option (\<lambda>h. h - 1) hi) (Suc i, v))"
  proof (rule Suc.IH)
    show "(Suc (Suc i + d), v) \<in> set (f (Suc i + d, v))" if "d < k" for d
      using Suc.prems(1) [of "Suc d"] that by simp
  qed (use Suc.prems fu in auto)
  moreover have "(Suc i, v) \<in> set (f (i, v))" using Suc.prems(1) [of 0] by simp
  moreover have "hi \<noteq> Some 0" using Suc.prems(4) by auto
  ultimately show ?case by (force simp: fu)
qed

lemma rx_class_run:
  assumes "\<forall>d < k. class_mem C ci n items (s ! (i + d))" "i + k \<le> length s"
    "lo \<le> k" "\<forall>h. hi = Some h \<longrightarrow> k \<le> h"
  shows "(i + k, v) \<in> set (rx_steps C s (Rep (Cls n items) lo hi) ci (i, v))"
  unfolding rx_steps.simps by (rule rx_rep_run) (use assms in auto)

section \<open>Engines\<close>

definition byte_at :: "str \<Rightarrow> nat \<Rightarrow> nat" where
  "byte_at s n = length (as_bytes (take n s))"

record regex_engine =
  find_iter :: "rx \<Rightarrow> str \<Rightarrow> (nat \<times> nat) list"
  captures_iter :: "rx \<Rightarrow> str \<Rightarrow> ((nat \<times> nat) \<times> (nat \<times> nat) option) list"
  user_regex :: "str \<Rightarrow> (str \<Rightarrow> (nat \<times> nat) list) option"

definition span_ok :: "str \<Rightarrow> nat \<times> nat \<Rightarrow> bool" where
  "span_ok s p \<longleftrightarrow> fst p \<le> snd p \<and> boundary s (fst p) \<and> boundary s (snd p)"

definition spans_ok :: "str \<Rightarrow> (nat \<times> nat) list \<Rightarrow> bool" where
  "spans_ok s ps \<longleftrightarrow> (\<forall>p \<in> set ps. span_ok s p) \<and> sorted_wrt (\<lambda>p q. snd p \<le> fst q) ps"

definition span_of :: "str \<Rightarrow> nat \<Rightarrow> nat \<Rightarrow> nat \<times> nat" where
  "span_of s i j = (byte_at s i, byte_at s j)"

definition user_spans_ok :: "regex_engine \<Rightarrow> bool" where
  "user_spans_ok E \<longleftrightarrow> (\<forall>p f s. user_regex E p = Some f \<longrightarrow> spans_ok s (f s))"

definition spans_ordered :: "regex_engine \<Rightarrow> bool" where
  "spans_ordered E \<longleftrightarrow>
     (\<forall>r s. sorted_wrt (\<lambda>p q. snd p \<le> fst q) (find_iter E r s)) \<and>
     (\<forall>r s. map fst (captures_iter E r s) = find_iter E r s)"

definition captures_are_matches :: "rx_classes \<Rightarrow> regex_engine \<Rightarrow> bool" where
  "captures_are_matches C E \<longleftrightarrow>
     (\<forall>r s w v. (w, v) \<in> set (captures_iter E r s) \<longrightarrow>
        (\<exists>i j c. i \<le> length s \<and> rx_match C r s i (j, c) \<and> w = span_of s i j \<and>
           v = map_option (\<lambda>(a, b). span_of s a b) c))"

definition matches_are_found :: "rx_classes \<Rightarrow> regex_engine \<Rightarrow> bool" where
  "matches_are_found C E \<longleftrightarrow>
     (\<forall>r s i q. i \<le> length s \<longrightarrow> rx_match C r s i q \<longrightarrow> find_iter E r s \<noteq> [])"

definition engine_ok :: "rx_classes \<Rightarrow> regex_engine \<Rightarrow> bool" where
  "engine_ok C E \<longleftrightarrow>
     spans_ordered E \<and> captures_are_matches C E \<and> matches_are_found C E \<and> user_spans_ok E"

lemma byte_at_mono: "n \<le> m \<Longrightarrow> byte_at s n \<le> byte_at s m"
  by (simp add: byte_at_def length_as_bytes_take_mono)

lemma byte_at_strict: "n < m \<Longrightarrow> m \<le> length s \<Longrightarrow> byte_at s n < byte_at s m"
  by (simp add: byte_at_def length_as_bytes_take_strict)

lemma boundary_byte_at [simp]: "boundary s (byte_at s n)"
  by (cases "n \<le> length s") (auto simp: boundary_def byte_at_def intro: exI [of _ n] exI [of _ "length s"])

lemma span_ok_span_of [simp]: "i \<le> j \<Longrightarrow> span_ok s (span_of s i j)"
  by (simp add: span_ok_def span_of_def byte_at_mono)

lemma engine_found:
  assumes "engine_ok C E" "i \<le> length s" "rx_match C r s i q"
  obtains a b where "(a, b) \<in> set (find_iter E r s)"
  using assms unfolding engine_ok_def matches_are_found_def
  by (metis list.set_intros(1) neq_Nil_conv surj_pair)

lemma engine_capture:
  assumes "engine_ok C E" "(w, v) \<in> set (captures_iter E r s)"
  obtains i j c where "i \<le> length s" "rx_match C r s i (j, c)" "w = span_of s i j"
    "v = map_option (\<lambda>(a, b). span_of s a b) c"
  using assms unfolding engine_ok_def captures_are_matches_def by blast

lemma engine_find:
  assumes "engine_ok C E" "w \<in> set (find_iter E r s)"
  obtains i j c where "i \<le> length s" "rx_match C r s i (j, c)" "w = span_of s i j"
proof -
  have "w \<in> set (map fst (captures_iter E r s))"
    using assms by (simp add: engine_ok_def spans_ordered_def)
  then obtain v where "(w, v) \<in> set (captures_iter E r s)" by auto
  then show ?thesis using assms(1) that by (blast elim: engine_capture)
qed

lemma engine_span_ok: "engine_ok C E \<Longrightarrow> w \<in> set (find_iter E r s) \<Longrightarrow> span_ok s w"
  by (metis add_leD1 engine_find rx_match_width span_ok_span_of)

lemma engine_capture_ok:
  assumes "engine_ok C E" "(w, Some v) \<in> set (captures_iter E r s)"
  shows "span_ok s w" "span_ok s v" "fst w \<le> fst v" "snd v \<le> snd w"
proof -
  obtain i j a b where m: "i \<le> length s" "rx_match C r s i (j, Some (a, b))" "w = span_of s i j"
    "v = span_of s a b"
  proof -
    obtain i j c where m: "i \<le> length s" "rx_match C r s i (j, c)" "w = span_of s i j"
      "Some v = map_option (\<lambda>(a, b). span_of s a b) c"
      using assms by (rule engine_capture)
    then show thesis using that by (cases c) auto
  qed
  note le = rx_match_width [OF m(1,2)] rx_match_capture [OF m(1,2)]
  from le m show "span_ok s w" "span_ok s v" by auto
  from le m show "fst w \<le> fst v" "snd v \<le> snd w" by (simp_all add: span_of_def byte_at_mono)
qed

lemma engine_span_width:
  assumes "engine_ok C E" "(a, b) \<in> set (find_iter E r s)" "0 < rx_min r"
  shows "a < b"
proof -
  obtain i j c where m: "i \<le> length s" "rx_match C r s i (j, c)" "(a, b) = span_of s i j"
    using assms(1,2) by (rule engine_find)
  with rx_match_width [OF m(1,2)] assms(3) show ?thesis
    using byte_at_strict [of i j s] by (simp add: span_of_def)
qed

section \<open>A reference engine\<close>

text \<open>
  Leftmost-first search by the meaning itself, restarting after each match; it keeps the
  promises of \<open>engine_ok\<close>, so that they are consistent, and it can be evaluated.
\<close>

function rx_scan :: "rx_classes \<Rightarrow> rx \<Rightarrow> str \<Rightarrow> nat \<Rightarrow> (nat \<times> nat \<times> (nat \<times> nat) option) list" where
  "rx_scan C r s i =
     (if length s < i then []
      else case rx_steps C s r False (i, None) of
        [] \<Rightarrow> rx_scan C r s (Suc i)
      | (j, c) # _ \<Rightarrow> (i, j, c) # rx_scan C r s (if i < j then j else Suc i))"
  by pat_completeness auto
termination
  by (relation "measure (\<lambda>(C, r, s, i). Suc (length s) - i)") auto

declare rx_scan.simps [simp del]

definition rx_captures :: "rx_classes \<Rightarrow> rx \<Rightarrow> str \<Rightarrow> ((nat \<times> nat) \<times> (nat \<times> nat) option) list" where
  "rx_captures C r s =
     map (\<lambda>(i, j, c). (span_of s i j, map_option (\<lambda>(a, b). span_of s a b) c)) (rx_scan C r s 0)"

definition reference_engine :: "rx_classes \<Rightarrow> (str \<Rightarrow> rx option) \<Rightarrow> regex_engine" where
  "reference_engine C parse =
     \<lparr>find_iter = (\<lambda>r s. map fst (rx_captures C r s)),
      captures_iter = rx_captures C,
      user_regex = (\<lambda>p. map_option (\<lambda>r s. map fst (rx_captures C r s)) (parse p))\<rparr>"

lemma rx_scan_sound:
  "(i, j, c) \<in> set (rx_scan C r s k) \<Longrightarrow> k \<le> i \<and> i \<le> length s \<and> rx_match C r s i (j, c)"
proof (induction C r s k rule: rx_scan.induct)
  case (1 C r s k)
  show ?case
  proof (cases "length s < k")
    case True
    with "1.prems" show ?thesis by (simp add: rx_scan.simps)
  next
    case in_text: False
    show ?thesis
    proof (cases "rx_steps C s r False (k, None)")
      case Nil
      with "1.prems" have "(i, j, c) \<in> set (rx_scan C r s (Suc k))"
        by (subst (asm) rx_scan.simps) (simp add: in_text)
      from "1.IH"(1) [OF in_text Nil this] show ?thesis by simp
    next
      case (Cons q qs)
      obtain j' c' where q: "q = (j', c')" by (cases q)
      from "1.prems" Cons q have "(i, j, c) = (k, j', c') \<or>
          (i, j, c) \<in> set (rx_scan C r s (if k < j' then j' else Suc k))"
        by (subst (asm) rx_scan.simps) (simp add: in_text)
      then show ?thesis
      proof
        assume "(i, j, c) = (k, j', c')"
        then show ?thesis using Cons q in_text by (simp add: rx_match_def)
      next
        assume "(i, j, c) \<in> set (rx_scan C r s (if k < j' then j' else Suc k))"
        from "1.IH"(2) [OF in_text Cons q [symmetric] this] show ?thesis by (auto split: if_splits)
      qed
    qed
  qed
qed

lemma rx_scan_found:
  "i \<le> length s \<Longrightarrow> rx_match C r s i q \<Longrightarrow> k \<le> i \<Longrightarrow> rx_scan C r s k \<noteq> []"
proof (induction C r s k rule: rx_scan.induct)
  case (1 C r s k)
  show ?case
  proof (cases "rx_steps C s r False (k, None)")
    case Nil
    with "1.prems" have "k \<noteq> i" by (auto simp: rx_match_def)
    with "1.IH"(1) [OF _ Nil] "1.prems" Nil show ?thesis by (subst rx_scan.simps) simp
  next
    case (Cons q' qs)
    with "1.prems" show ?thesis by (subst rx_scan.simps) (simp split: prod.split)
  qed
qed

lemma rx_scan_ordered:
  "sorted_wrt (\<lambda>p q. fst (snd p) \<le> fst q) (rx_scan C r s k)"
proof (induction C r s k rule: rx_scan.induct)
  case (1 C r s k)
  show ?case
  proof (cases "length s < k \<or> rx_steps C s r False (k, None) = []")
    case True
    with "1.IH"(1) show ?thesis by (subst rx_scan.simps) auto
  next
    case False
    then obtain j c qs where st: "rx_steps C s r False (k, None) = (j, c) # qs"
      by (cases "rx_steps C s r False (k, None)") auto
    have "k \<le> j" using rx_match_width [of k s C r j c] False st by (simp add: rx_match_def)
    then have "j \<le> i'" if "(i', j', c') \<in> set (rx_scan C r s (if k < j then j else Suc k))" for i' j' c'
      using rx_scan_sound [OF that] by (auto split: if_splits)
    with "1.IH"(2) [OF _ st refl] False st show ?thesis by (subst rx_scan.simps) auto
  qed
qed

lemma reference_spans_ordered:
  "sorted_wrt (\<lambda>p q. snd p \<le> fst q) (map fst (rx_captures C r s))"
  unfolding rx_captures_def sorted_wrt_map
  by (rule sorted_wrt_mono_rel [OF _ rx_scan_ordered]) (auto simp: span_of_def byte_at_mono)

lemma reference_captures:
  assumes "(w, v) \<in> set (rx_captures C r s)"
  obtains i j c where "i \<le> length s" "rx_match C r s i (j, c)" "w = span_of s i j"
    "v = map_option (\<lambda>(a, b). span_of s a b) c"
  using assms by (auto simp: rx_captures_def dest!: rx_scan_sound)

lemma reference_engine_ok: "engine_ok C (reference_engine C parse)"
  unfolding engine_ok_def
proof (intro conjI)
  show "spans_ordered (reference_engine C parse)"
    by (simp add: spans_ordered_def reference_engine_def reference_spans_ordered)
  show "captures_are_matches C (reference_engine C parse)"
    by (auto simp: captures_are_matches_def reference_engine_def elim!: reference_captures)
  show "matches_are_found C (reference_engine C parse)"
    using rx_scan_found [of _ _ C _ _ 0]
    by (auto simp: matches_are_found_def reference_engine_def rx_captures_def)
  have "spans_ok s (map fst (rx_captures C r s))" for r s
  proof -
    have "span_ok s w" if "(w, v) \<in> set (rx_captures C r s)" for w v
      using that by (rule reference_captures) (auto dest: rx_match_width)
    then show ?thesis using reference_spans_ordered by (auto simp: spans_ok_def)
  qed
  then show "user_spans_ok (reference_engine C parse)"
    by (auto simp: user_spans_ok_def reference_engine_def)
qed

end
