(* ===== verification/Redact_Rules.thy ===== *)
theory Redact_Rules
  imports Rust_Regex
begin

text \<open>
  \<open>redaction/rules.rs\<close> and the public types of \<open>redaction/detector.rs\<close>: mask styles, user rules,
  the configuration, the kinds of secret and the confidence of a match. An \<open>f64\<close> is a value of a
  type variable \<open>'f\<close> and its operations are the \<open>f64_ops\<close> record, so that every result holds
  for any rounding; \<open>f_dec F m k\<close> is the double nearest to \<open>m / 10^k\<close>.
\<close>

record 'f f64_ops =
  f_dec :: "nat \<Rightarrow> nat \<Rightarrow> 'f"
  f_from_u32 :: "u32 \<Rightarrow> 'f"
  f_from_usize :: "nat \<Rightarrow> 'f"
  f_neg :: "'f \<Rightarrow> 'f"
  f_add :: "'f \<Rightarrow> 'f \<Rightarrow> 'f"
  f_mul :: "'f \<Rightarrow> 'f \<Rightarrow> 'f"
  f_div :: "'f \<Rightarrow> 'f \<Rightarrow> 'f"
  f_log2 :: "'f \<Rightarrow> 'f"
  f_min :: "'f \<Rightarrow> 'f \<Rightarrow> 'f"
  f_lt :: "'f \<Rightarrow> 'f \<Rightarrow> bool"
  f_ge :: "'f \<Rightarrow> 'f \<Rightarrow> bool"
  f_sum_start :: "'f"

definition RULES_VERSION :: u32 where "RULES_VERSION = 1"

definition rules_version :: u32 where "rules_version = RULES_VERSION"

datatype mask_style = Full | Prefix2 | Suffix4

record user_rule =
  ur_name :: str
  ur_regex :: str
  ur_kind_label :: str

record 'f mask_config =
  enabled :: bool
  style :: mask_style
  min_entropy_len :: u32
  entropy_bits :: "'f"
  user_rules :: "user_rule list"

definition default_config :: "'f f64_ops \<Rightarrow> 'f mask_config" where
  "default_config F =
     \<lparr>enabled = True, style = Full, min_entropy_len = 24, entropy_bits = f_dec F 40 1,
      user_rules = []\<rparr>"

datatype secret_kind =
    GithubToken | OpenAiKey | StripeKey | GitlabToken | AwsAccessKeyId | Jwt | SlackToken
  | GoogleApiKey | PrivateKeyBlock | BearerToken | UrlEmbeddedSecret | KeyValueSecret | ApiToken
  | HighEntropyString | UserDefined

fun secret_kind_as_str :: "secret_kind \<Rightarrow> str" where
  "secret_kind_as_str GithubToken = lit ''GithubToken''"
| "secret_kind_as_str OpenAiKey = lit ''OpenAiKey''"
| "secret_kind_as_str StripeKey = lit ''StripeKey''"
| "secret_kind_as_str GitlabToken = lit ''GitlabToken''"
| "secret_kind_as_str AwsAccessKeyId = lit ''AwsAccessKeyId''"
| "secret_kind_as_str Jwt = lit ''Jwt''"
| "secret_kind_as_str SlackToken = lit ''SlackToken''"
| "secret_kind_as_str GoogleApiKey = lit ''GoogleApiKey''"
| "secret_kind_as_str PrivateKeyBlock = lit ''PrivateKeyBlock''"
| "secret_kind_as_str BearerToken = lit ''BearerToken''"
| "secret_kind_as_str UrlEmbeddedSecret = lit ''UrlEmbeddedSecret''"
| "secret_kind_as_str KeyValueSecret = lit ''KeyValueSecret''"
| "secret_kind_as_str ApiToken = lit ''ApiToken''"
| "secret_kind_as_str HighEntropyString = lit ''HighEntropyString''"
| "secret_kind_as_str UserDefined = lit ''UserDefined''"

datatype confidence = High | Medium

text \<open>A definite pattern is surer than a heuristic.\<close>

instantiation confidence :: linorder
begin

definition less_confidence :: "confidence \<Rightarrow> confidence \<Rightarrow> bool" where
  "less_confidence a b \<longleftrightarrow> a = Medium \<and> b = High"

definition less_eq_confidence :: "confidence \<Rightarrow> confidence \<Rightarrow> bool" where
  "less_eq_confidence a b \<longleftrightarrow> a = Medium \<or> b = High"

instance
proof
  fix a b c :: confidence
  show "a < b \<longleftrightarrow> a \<le> b \<and> \<not> b \<le> a"
    by (cases a; cases b) (simp_all add: less_confidence_def less_eq_confidence_def)
  show "a \<le> a" "a \<le> b \<or> b \<le> a"
    by (cases a; cases b; simp add: less_eq_confidence_def)+
  show "a \<le> b \<Longrightarrow> b \<le> c \<Longrightarrow> a \<le> c"
    by (cases a; cases b; cases c) (simp_all add: less_eq_confidence_def)
  show "a \<le> b \<Longrightarrow> b \<le> a \<Longrightarrow> a = b"
    by (cases a; cases b) (simp_all add: less_eq_confidence_def)
qed

end

record secret_match =
  sm_kind :: secret_kind
  sm_start :: u32
  sm_end :: u32
  sm_confidence :: confidence

text \<open>The detector's internal match, in byte offsets.\<close>

record raw_match =
  rm_start :: nat
  rm_end :: nat
  rm_kind :: secret_kind
  rm_confidence :: confidence

definition raw_span :: "raw_match \<Rightarrow> nat \<times> nat" where
  "raw_span m = (rm_start m, rm_end m)"

definition overlaps_any :: "nat \<Rightarrow> nat \<Rightarrow> (nat \<times> nat) list \<Rightarrow> bool" where
  "overlaps_any s e spans = list_ex (\<lambda>(s', e'). s < e' \<and> s' < e) spans"

lemma lit_inj: "lit s = lit t \<longleftrightarrow> s = t"
  by (auto simp: lit_def inj_map_eq_map [OF inj_of_char])

lemma secret_kind_as_str_inj: "secret_kind_as_str a = secret_kind_as_str b \<Longrightarrow> a = b"
  by (cases a; cases b) (simp_all add: lit_inj)

end
