(* ===== verification/Redact_Patterns.thy ===== *)
theory Redact_Patterns
  imports Redact_Rules
begin

text \<open>
  \<open>redaction/patterns.rs\<close>: the provider-token patterns, the value-gated structural patterns, the
  value gate with its placeholder lists, and the functions that append their matches.
\<close>

section \<open>Provider and format tokens\<close>

definition upper_lower_digit :: "class_item list" where
  "upper_lower_digit = [rng CHR ''A'' CHR ''Z'', rng CHR ''a'' CHR ''z'', rng CHR ''0'' CHR ''9'']"

definition upper_digit :: "class_item list" where
  "upper_digit = [rng CHR ''A'' CHR ''Z'', rng CHR ''0'' CHR ''9'']"

definition ALNUM :: rx where "ALNUM = Cls False upper_lower_digit"
definition ALNUM_U :: rx where "ALNUM_U = Cls False (upper_lower_digit @ [one CHR ''_''])"
definition ALNUM_D :: rx where "ALNUM_D = Cls False (upper_lower_digit @ [one CHR ''-''])"
definition ALNUM_UD :: rx where
  "ALNUM_UD = Cls False (upper_lower_digit @ [one CHR ''_'', one CHR ''-''])"

definition GITHUB_TOKEN :: rx where
  "GITHUB_TOKEN = rx_seq [Word_Boundary, rx_str ''gh'',
     Cls False (map one ''posru''), rx_str ''_'', rx_between ALNUM 36 255, Word_Boundary]"

definition GITHUB_PAT :: rx where
  "GITHUB_PAT = rx_seq [Word_Boundary, rx_str ''github_pat_'', rx_between ALNUM_U 40 255,
     Word_Boundary]"

definition OPENAI_KEY :: rx where
  "OPENAI_KEY = rx_seq [Word_Boundary, rx_str ''sk-'', rx_opt (rx_str ''proj-''),
     rx_least ALNUM 20, Word_Boundary]"

definition STRIPE_KEY :: rx where
  "STRIPE_KEY = rx_seq [Word_Boundary, rx_strs [''sk'', ''rk''], rx_str ''_'',
     rx_strs [''live'', ''test''], rx_str ''_'', rx_least ALNUM 16, Word_Boundary]"

definition GITLAB_TOKEN :: rx where
  "GITLAB_TOKEN = rx_seq [Word_Boundary, rx_str ''glpat-'', rx_least ALNUM_UD 20, Word_Boundary]"

definition AWS_ACCESS_KEY_ID :: rx where
  "AWS_ACCESS_KEY_ID = rx_seq [Word_Boundary,
     rx_strs [''AKIA'', ''ASIA'', ''AGPA'', ''AIDA'', ''AROA'', ''AIPA'', ''ANPA'', ''ANVA''],
     rx_times (Cls False upper_digit) 16, Word_Boundary]"

definition JWT :: rx where
  "JWT = rx_seq [Word_Boundary, rx_str ''eyJ'', rx_least ALNUM_UD 8, rx_str ''.'',
     rx_least ALNUM_UD 8, rx_str ''.'', rx_least ALNUM_UD 8]"

definition SLACK_TOKEN :: rx where
  "SLACK_TOKEN = rx_seq [Word_Boundary,
     rx_alt [rx_seq [rx_str ''xox'', Cls False (map one ''baprse'')], rx_str ''xapp''],
     rx_str ''-'', rx_least ALNUM_D 10, Word_Boundary]"

definition SLACK_WEBHOOK :: rx where
  "SLACK_WEBHOOK = rx_seq [rx_str ''https://hooks.slack.com/services/T'',
     rx_plus (Cls False upper_digit), rx_str ''/B'', rx_plus (Cls False upper_digit), rx_str ''/'',
     rx_least ALNUM 20]"

definition GOOGLE_API_KEY :: rx where
  "GOOGLE_API_KEY = rx_seq [Word_Boundary, rx_str ''AIza'', rx_times ALNUM_UD 35, Word_Boundary]"

definition GOOGLE_OAUTH_SECRET :: rx where
  "GOOGLE_OAUTH_SECRET = rx_seq [Word_Boundary, rx_str ''GOCSPX-'', rx_least ALNUM_UD 20,
     Word_Boundary]"

definition SENDGRID_KEY :: rx where
  "SENDGRID_KEY = rx_seq [Word_Boundary, rx_str ''SG.'', rx_times ALNUM_UD 22, rx_str ''.'',
     rx_times ALNUM_UD 43, Word_Boundary]"

definition NPM_TOKEN :: rx where
  "NPM_TOKEN = rx_seq [Word_Boundary, rx_str ''npm_'', rx_times ALNUM 36, Word_Boundary]"

definition PRIVATE_KEY_BLOCK :: rx where
  "PRIVATE_KEY_BLOCK = rx_seq [rx_str ''-----BEGIN '',
     rx_opt (rx_seq [rx_plus (Cls False (upper_digit @ [one CHR '' ''])), rx_str '' '']),
     rx_str ''PRIVATE KEY-----'']"

section \<open>Value-gated structural secrets\<close>

definition no_authority :: "class_item list" where
  "no_authority = [one CHR ''/'', Space, one CHR '':'', one CHR ''@'']"

definition CONNECTION_STRING :: rx where
  "CONNECTION_STRING = NoCase (rx_seq [Word_Boundary,
     rx_alt [rx_seq [rx_str ''http'', rx_opt (rx_str ''s'')],
       rx_strs [''postgres'', ''postgresql'', ''mysql'', ''mariadb'', ''mongodb'', ''mongodb+srv'',
         ''redis'', ''rediss'', ''amqp'', ''amqps'', ''ftp'', ''ftps'', ''sftp'', ''ssh'', ''smtp'',
         ''smtps'', ''imap'', ''imaps'', ''ldap'', ''ldaps'', ''kafka'', ''nats'', ''mqtt'', ''mqtts'']],
     rx_str ''://'', rx_star (Cls True no_authority), rx_str '':'',
     Val (rx_plus (Cls True no_authority)), rx_str ''@''])"

definition AUTHZ_BEARER :: rx where
  "AUTHZ_BEARER = NoCase (rx_seq [Word_Boundary, rx_opt (rx_str ''proxy-''),
     rx_str ''authorization'', rx_star (Cls False [Space]), rx_str '':'', rx_star (Cls False [Space]),
     rx_strs [''bearer'', ''basic'', ''token''], rx_plus (Cls False [Space]),
     Val (rx_least (Cls False (upper_lower_digit @
       [one CHR ''.'', one CHR ''_'', one CHR ''~'', one CHR ''+'', one CHR ''/'', one CHR ''='',
        one CHR ''-''])) 8)])"

definition api_key_name :: rx where
  "api_key_name = rx_seq [rx_str ''api'', rx_opt (Cls False [one CHR ''_'', one CHR ''-'']),
     rx_str ''key'']"

definition URL_EMBEDDED_SECRET :: rx where
  "URL_EMBEDDED_SECRET = NoCase (rx_seq [Word_Boundary, rx_str ''http'', rx_opt (rx_str ''s''),
     rx_str ''://'', rx_star (Cls True [Space]), Cls False [one CHR ''?'', one CHR ''&''],
     rx_alt ([rx_strs [''access_token'', ''refresh_token'', ''id_token'', ''auth_token'', ''token''],
       api_key_name,
       rx_strs [''client_secret'', ''password'', ''passwd'', ''pwd'', ''signature'']]),
     rx_str ''='', Val (rx_least (Cls True [Space, one CHR ''&'', one CHR ''#'']) 3)])"

definition quote_items :: "class_item list" where
  "quote_items = [Range 34 34, Range 39 39]"

definition KEY_VALUE_SECRET :: rx where
  "KEY_VALUE_SECRET = NoCase (rx_seq [rx_alt [Text_Start, Cls True upper_lower_digit],
     rx_alt [rx_strs [''password'', ''passwd'', ''pwd'', ''secret''], api_key_name,
       rx_strs [''client_secret'', ''secret_key'', ''access_key'', ''aws_secret_access_key'',
         ''private_key'', ''auth_token'']],
     rx_star (Cls False [Space]), Cls False [one CHR '':'', one CHR ''=''],
     rx_star (Cls False [Space]), rx_opt (Cls False quote_items),
     Val (rx_least (Cls True (Space # quote_items)) 4)])"

definition DATA_URI :: rx where
  "DATA_URI = NoCase (rx_seq [Word_Boundary, rx_str ''data:'',
     rx_star (Cls True [one CHR '','', Space]), rx_str '';base64,'',
     rx_plus (Cls False (upper_lower_digit @ [one CHR ''+'', one CHR ''/'', one CHR ''='']))])"

section \<open>The value gate\<close>

definition STRONG_PLACEHOLDER_FRAGMENTS :: "str list" where
  "STRONG_PLACEHOLDER_FRAGMENTS = map lit
     [''changeme'', ''change_me'', ''change-me'', ''replaceme'', ''replace_me'', ''replace-me'',
      ''placeholder'', ''yourkey'', ''your_key'', ''your-key'', ''yourapikey'', ''your_api_key'',
      ''yoursecret'', ''your_secret'', ''examplekey'', ''example_key'', ''insertyour'', ''xxxxxxxx'']"

definition PLACEHOLDER_WORDS :: "str list" where
  "PLACEHOLDER_WORDS = map lit
     [''your'', ''yours'', ''replace'', ''example'', ''sample'', ''placeholder'', ''todo'', ''fixme'',
      ''dummy'', ''redacted'', ''none'', ''null'', ''nil'', ''undefined'', ''here'', ''change'',
      ''changeme'', ''username'', ''password'', ''passwd'', ''user'', ''pass'', ''host'', ''secret'',
      ''test'', ''foo'', ''bar'', ''baz'', ''xxx'', ''xxxx'']"

definition is_pathlike :: "str \<Rightarrow> bool" where
  "is_pathlike v \<longleftrightarrow>
     starts_with v (lit ''/'') \<or> starts_with v (lit ''~'') \<or> starts_with v (lit ''./'') \<or>
     starts_with v (lit ''../'') \<or>
     (contains_str v (lit ''/'') \<and> \<not> list_ex (\<lambda>c. is_ascii_digit c \<or> is_ascii_uppercase c) v)"

definition looks_like_secret_value :: "str \<Rightarrow> bool" where
  "looks_like_secret_value v =
     (let trimmed = trim_matches (\<lambda>c. c = 34 \<or> c = 39) v in
      if length trimmed < 8 then False
      else if is_pathlike trimmed then False
      else if contains_str trimmed (lit ''_'') \<and>
        list_all (\<lambda>c. is_ascii_uppercase c \<or> is_ascii_digit c \<or> c = 95) trimmed then False
      else let lower = to_ascii_lowercase trimmed in
      if list_ex (\<lambda>frag. contains_str lower frag) STRONG_PLACEHOLDER_FRAGMENTS then False
      else if list_ex (\<lambda>tok. tok \<noteq> [] \<and> tok \<in> set PLACEHOLDER_WORDS)
        (split_on (\<lambda>c. \<not> is_ascii_alphanumeric c) lower) then False
      else list_ex (\<lambda>c. is_ascii_digit c \<or> is_ascii_uppercase c \<or> c = 43 \<or> c = 61) trimmed)"

section \<open>Appending matches\<close>

definition push_all ::
  "(nat \<times> nat) list \<Rightarrow> secret_kind \<Rightarrow> raw_match list \<Rightarrow> raw_match list" where
  "push_all spans kind out =
     out @ map (\<lambda>(a, b). \<lparr>rm_start = a, rm_end = b, rm_kind = kind, rm_confidence = High\<rparr>)
               (filter (\<lambda>(a, b). a < b) spans)"

definition capture_str :: "str \<Rightarrow> (nat \<times> nat) option \<Rightarrow> str" where
  "capture_str text v = (case v of
     None \<Rightarrow> [] | Some (a, b) \<Rightarrow> (case str_slice text a b of None \<Rightarrow> [] | Some t \<Rightarrow> t))"

definition push_gated ::
  "regex_engine \<Rightarrow> rx \<Rightarrow> str \<Rightarrow> secret_kind \<Rightarrow> raw_match list \<Rightarrow> raw_match list" where
  "push_gated E r text kind out =
     out @ map (\<lambda>((a, b), v). \<lparr>rm_start = a, rm_end = b, rm_kind = kind, rm_confidence = High\<rparr>)
               (filter (\<lambda>(w, v). looks_like_secret_value (capture_str text v))
                       (captures_iter E r text))"

definition provider_patterns :: "(rx \<times> secret_kind) list" where
  "provider_patterns =
     [(GITHUB_TOKEN, GithubToken), (GITHUB_PAT, GithubToken), (OPENAI_KEY, OpenAiKey),
      (STRIPE_KEY, StripeKey), (GITLAB_TOKEN, GitlabToken), (AWS_ACCESS_KEY_ID, AwsAccessKeyId),
      (JWT, Jwt), (SLACK_TOKEN, SlackToken), (SLACK_WEBHOOK, SlackToken),
      (GOOGLE_API_KEY, GoogleApiKey), (GOOGLE_OAUTH_SECRET, GoogleApiKey),
      (SENDGRID_KEY, ApiToken), (NPM_TOKEN, ApiToken), (PRIVATE_KEY_BLOCK, PrivateKeyBlock)]"

definition provider_matches :: "regex_engine \<Rightarrow> str \<Rightarrow> raw_match list \<Rightarrow> raw_match list" where
  "provider_matches E text out =
     fold (\<lambda>(r, kind). push_all (find_iter E r text) kind) provider_patterns out"

definition gated_literal_matches :: "regex_engine \<Rightarrow> str \<Rightarrow> raw_match list \<Rightarrow> raw_match list" where
  "gated_literal_matches E text out =
     push_gated E AUTHZ_BEARER text BearerToken
       (push_gated E CONNECTION_STRING text UrlEmbeddedSecret out)"

definition url_matches :: "regex_engine \<Rightarrow> str \<Rightarrow> raw_match list \<Rightarrow> raw_match list" where
  "url_matches E text out = push_gated E URL_EMBEDDED_SECRET text UrlEmbeddedSecret out"

definition kv_matches :: "regex_engine \<Rightarrow> str \<Rightarrow> raw_match list \<Rightarrow> raw_match list" where
  "kv_matches E text out = push_gated E KEY_VALUE_SECRET text KeyValueSecret out"

definition data_uri_spans :: "regex_engine \<Rightarrow> str \<Rightarrow> (nat \<times> nat) list" where
  "data_uri_spans E text = find_iter E DATA_URI text"

definition user_matches ::
  "regex_engine \<Rightarrow> str \<Rightarrow> 'f mask_config \<Rightarrow> raw_match list \<Rightarrow> raw_match list" where
  "user_matches E text config out =
     fold (\<lambda>rule out. case user_regex E (ur_regex rule) of
             Some f \<Rightarrow> push_all (f text) UserDefined out
           | None \<Rightarrow> out) (user_rules config) out"

definition user_rule_errors :: "regex_engine \<Rightarrow> 'f mask_config \<Rightarrow> str list" where
  "user_rule_errors E config =
     map ur_name (filter (\<lambda>rule. user_regex E (ur_regex rule) = None) (user_rules config))"

section \<open>The patterns never match the empty string\<close>

lemmas pattern_defs = GITHUB_TOKEN_def GITHUB_PAT_def OPENAI_KEY_def STRIPE_KEY_def
  GITLAB_TOKEN_def AWS_ACCESS_KEY_ID_def JWT_def SLACK_TOKEN_def SLACK_WEBHOOK_def
  GOOGLE_API_KEY_def GOOGLE_OAUTH_SECRET_def SENDGRID_KEY_def NPM_TOKEN_def PRIVATE_KEY_BLOCK_def
  CONNECTION_STRING_def AUTHZ_BEARER_def URL_EMBEDDED_SECRET_def KEY_VALUE_SECRET_def DATA_URI_def

lemma provider_patterns_nonempty: "(r, k) \<in> set provider_patterns \<Longrightarrow> 0 < rx_min r"
  by (auto simp: provider_patterns_def pattern_defs rx_sugar lit_def ALNUM_def ALNUM_U_def
      ALNUM_D_def ALNUM_UD_def)

lemma gated_patterns_nonempty:
  "0 < rx_min CONNECTION_STRING" "0 < rx_min AUTHZ_BEARER" "0 < rx_min URL_EMBEDDED_SECRET"
  "0 < rx_min KEY_VALUE_SECRET" "0 < rx_min DATA_URI"
  by (simp_all add: pattern_defs rx_sugar lit_def api_key_name_def)

section \<open>Every appended match is a non-empty span on character boundaries\<close>

definition raw_ok :: "str \<Rightarrow> raw_match \<Rightarrow> bool" where
  "raw_ok text m \<longleftrightarrow> rm_start m < rm_end m \<and> boundary text (rm_start m) \<and> boundary text (rm_end m)"

lemma raw_ok_span: "span_ok text (a, b) \<Longrightarrow> a < b \<Longrightarrow>
    raw_ok text \<lparr>rm_start = a, rm_end = b, rm_kind = k, rm_confidence = c\<rparr>"
  by (simp add: raw_ok_def span_ok_def)

lemma push_all_ok:
  "\<forall>p \<in> set ps. span_ok text p \<Longrightarrow> \<forall>m \<in> set out. raw_ok text m \<Longrightarrow>
   \<forall>m \<in> set (push_all ps k out). raw_ok text m"
  by (auto simp: push_all_def intro: raw_ok_span)

lemma engine_find_eq: "engine_ok C E \<Longrightarrow> map fst (captures_iter E r s) = find_iter E r s"
  by (simp add: engine_ok_def spans_ordered_def)

lemma push_gated_ok:
  assumes "engine_ok C E" "0 < rx_min r" "\<forall>m \<in> set out. raw_ok text m"
  shows "\<forall>m \<in> set (push_gated E r text k out). raw_ok text m"
proof -
  have "raw_ok text \<lparr>rm_start = a, rm_end = b, rm_kind = k, rm_confidence = High\<rparr>"
    if "((a, b), v) \<in> set (captures_iter E r text)" for a b v
  proof (rule raw_ok_span)
    have "(a, b) \<in> set (map fst (captures_iter E r text))" using that by force
    then have "(a, b) \<in> set (find_iter E r text)"
      by (simp only: engine_find_eq [OF assms(1)])
    then show "span_ok text (a, b)" "a < b"
      using assms(1,2) engine_span_ok engine_span_width by blast+
  qed
  with assms(3) show ?thesis by (auto simp: push_gated_def)
qed

lemma provider_matches_ok:
  assumes "engine_ok C E" "\<forall>m \<in> set out. raw_ok text m"
  shows "\<forall>m \<in> set (provider_matches E text out). raw_ok text m"
proof -
  have "\<forall>m \<in> set (fold (\<lambda>(r, kind). push_all (find_iter E r text) kind) ps out). raw_ok text m" for ps
    using assms(2)
  proof (induction ps arbitrary: out)
    case (Cons p ps)
    obtain r k where p: "p = (r, k)" by (cases p)
    have "\<forall>w \<in> set (find_iter E r text). span_ok text w"
      using engine_span_ok [OF assms(1)] by blast
    then have "\<forall>m \<in> set (push_all (find_iter E r text) k out). raw_ok text m"
      using Cons.prems by (rule push_all_ok)
    from Cons.IH [OF this] show ?case by (simp add: p)
  qed simp
  then show ?thesis by (simp add: provider_matches_def)
qed

lemma user_matches_ok:
  assumes "engine_ok C E" "\<forall>m \<in> set out. raw_ok text m"
  shows "\<forall>m \<in> set (user_matches E text config out). raw_ok text m"
proof -
  let ?add = "\<lambda>rule out. case user_regex E (ur_regex rule) of
     Some f \<Rightarrow> push_all (f text) UserDefined out | None \<Rightarrow> out"
  have "\<forall>m \<in> set (fold ?add rules out). raw_ok text m" for rules
    using assms(2)
  proof (induction rules arbitrary: out)
    case (Cons rule rules)
    have "\<forall>m \<in> set (?add rule out). raw_ok text m"
    proof (cases "user_regex E (ur_regex rule)")
      case (Some f)
      then have "\<forall>p \<in> set (f text). span_ok text p"
        using assms(1) by (simp add: engine_ok_def user_spans_ok_def spans_ok_def)
      with Some Cons.prems show ?thesis by (simp add: push_all_ok)
    qed (use Cons.prems in simp)
    from Cons.IH [OF this] show ?case by simp
  qed simp
  then show ?thesis by (simp add: user_matches_def)
qed

section \<open>A provider token is found\<close>

lemma push_all_subset: "set out \<subseteq> set (push_all ps k out)"
  by (auto simp: push_all_def)

lemma fold_push_subset:
  "set out \<subseteq> set (fold (\<lambda>(r, kind). push_all (find_iter E r text) kind) ps out)"
proof (induction ps arbitrary: out)
  case (Cons p ps)
  obtain r k where p: "p = (r, k)" by (cases p)
  show ?case using Cons [of "push_all (find_iter E r text) k out"] push_all_subset
    by (fastforce simp: p)
qed simp

lemma user_matches_subset: "set out \<subseteq> set (user_matches E text config out)"
proof -
  have "set out \<subseteq> set (fold (\<lambda>rule out. case user_regex E (ur_regex rule) of
      Some f \<Rightarrow> push_all (f text) UserDefined out | None \<Rightarrow> out) rules out)" for rules
  proof (induction rules arbitrary: out)
    case (Cons rule rules)
    show ?case
      using Cons [of "case user_regex E (ur_regex rule) of
        Some f \<Rightarrow> push_all (f text) UserDefined out | None \<Rightarrow> out"] push_all_subset
      by (cases "user_regex E (ur_regex rule)") fastforce+
  qed simp
  then show ?thesis by (simp add: user_matches_def)
qed

lemma provider_span_pushed:
  assumes "engine_ok C E" "(r, k) \<in> set provider_patterns" "(a, b) \<in> set (find_iter E r text)"
  shows "\<lparr>rm_start = a, rm_end = b, rm_kind = k, rm_confidence = High\<rparr> \<in> set (provider_matches E text out)"
proof -
  let ?m = "\<lparr>rm_start = a, rm_end = b, rm_kind = k, rm_confidence = High\<rparr>"
  have "a < b" by (rule engine_span_width [OF assms(1,3) provider_patterns_nonempty [OF assms(2)]])
  obtain ps qs where split: "provider_patterns = ps @ (r, k) # qs"
    using assms(2) by (auto simp: in_set_conv_decomp)
  have "?m \<in> set (push_all (find_iter E r text) k out')" for out'
    using assms(3) \<open>a < b\<close> by (force simp: push_all_def)
  then show ?thesis
    unfolding provider_matches_def split using fold_push_subset by fastforce
qed

lemma provider_found:
  assumes "engine_ok C E" "(r, k) \<in> set provider_patterns"
    and "i \<le> length text" "rx_match C r text i q"
  shows "\<exists>m \<in> set (provider_matches E text out). rm_kind m = k"
proof -
  obtain a b where "(a, b) \<in> set (find_iter E r text)"
    using assms(1,3,4) by (rule engine_found)
  from provider_span_pushed [OF assms(1,2) this, of out] show ?thesis by force
qed

text \<open>A GitHub token between characters that are no word characters matches its pattern.\<close>

lemma slice_mid: "slice (a @ b @ c) (length a) (length a + length b) = b"
  by (rule slice_append)

lemma word_boundary_edges:
  assumes "classes_ok C" "t \<noteq> []" "\<forall>c \<in> set t. c < 128"
    and "is_ascii_alphanumeric (hd t)" "is_ascii_alphanumeric (last t)"
    and "pre = [] \<or> \<not> word_char C (last pre)" "post = [] \<or> \<not> word_char C (hd post)"
  shows "at_word_boundary C (pre @ t @ post) (length pre)"
    "at_word_boundary C (pre @ t @ post) (length pre + length t)"
proof -
  have w: "word_char C (hd t)" "word_char C (last t)"
    using assms(1-5) by (auto simp: classes_ok_def)
  have h: "(pre @ t @ post) ! length pre = hd t" using assms(2) by (simp add: nth_append hd_conv_nth)
  have l: "(pre @ t @ post) ! (length pre + length t - 1) = last t"
  proof -
    have "length pre + length t - 1 = length pre + (length t - 1)" using assms(2) by (cases t) auto
    then show ?thesis using assms(2) by (simp only: nth_append_length_plus)
        (simp add: nth_append last_conv_nth)
  qed
  have p: "pre \<noteq> [] \<Longrightarrow> (pre @ t @ post) ! (length pre - 1) = last pre"
    by (simp add: nth_append last_conv_nth)
  have q: "post \<noteq> [] \<Longrightarrow> (pre @ t @ post) ! (length pre + length t) = hd post"
    by (simp add: nth_append hd_conv_nth)
  show "at_word_boundary C (pre @ t @ post) (length pre)"
    using assms(2,6) w h p by (cases "pre = []") (auto simp: at_word_boundary_def word_at_def)
  show "at_word_boundary C (pre @ t @ post) (length pre + length t)"
    using assms(2,7) w l q
    by (cases "post = []"; cases t) (auto simp: at_word_boundary_def word_at_def)
qed

lemma alnum_class: "is_ascii_alphanumeric c \<longleftrightarrow> class_mem C False False upper_lower_digit c"
  by (auto simp: class_mem_def upper_lower_digit_def rng_def ascii_defs)

lemma github_token_match:
  assumes "classes_ok C" "k \<in> set ''posru''" "list_all is_ascii_alphanumeric body"
    and "36 \<le> length body" "length body \<le> 255"
    and "pre = [] \<or> \<not> word_char C (last pre)" "post = [] \<or> \<not> word_char C (hd post)"
  defines "t \<equiv> lit ''gh'' @ [of_char k] @ lit ''_'' @ body"
  shows "rx_match C GITHUB_TOKEN (pre @ t @ post) (length pre) (length pre + length t, None)"
proof -
  let ?s = "pre @ t @ post" and ?i = "length pre"
  have len: "length t = 4 + length body" by (simp add: t_def lit_def)
  have body: "body \<noteq> []" using assms(4) by auto
  have "is_ascii_alphanumeric (last t)"
    using assms(3) body by (simp add: t_def list_all_iff)
  moreover have "\<forall>c \<in> set t. c < 128"
    using assms(2,3) by (auto simp: t_def lit_def list_all_iff ascii_defs)
  moreover have "is_ascii_alphanumeric (hd t)" by (simp add: t_def lit_def ascii_defs)
  ultimately have edges: "at_word_boundary C ?s ?i" "at_word_boundary C ?s (?i + length t)"
    using word_boundary_edges [of C t pre post] assms(1,6,7) by (auto simp: t_def lit_def)
  have "slice ?s ?i (?i + length ''gh'') = lit ''gh''"
    by (simp add: t_def slice_def lit_def)
  from rx_str_steps [OF this, of None C] have gh: "(?i + 2, None) \<in> set (rx_steps C ?s (rx_str ''gh'') False (?i, None))"
    using len by simp
  have "?s ! (?i + 2) = of_char k" by (simp add: t_def lit_def nth_append)
  then have k: "(?i + 3, None) \<in> set (rx_steps C ?s (Cls False (map one ''posru'')) False (?i + 2, None))"
    using assms(2) len by (auto simp: class_mem_def one_def rng_def)
  have "slice ?s (?i + 3) ((?i + 3) + length ''_'') = lit ''_''"
    by (simp add: t_def slice_def lit_def)
  from rx_str_steps [OF this, of None C] have us: "(?i + 4, None) \<in> set (rx_steps C ?s (rx_str ''_'') False (?i + 3, None))"
    using len by (simp add: numeral_eq_Suc)
  have "\<forall>d < length body. class_mem C False False upper_lower_digit (?s ! (?i + 4 + d))"
    using assms(3) by (auto simp: t_def lit_def nth_append list_all_length simp flip: alnum_class)
  then have run: "(?i + 4 + length body, None) \<in>
      set (rx_steps C ?s (rx_between ALNUM 36 255) False (?i + 4, None))"
    unfolding rx_between_def ALNUM_def by (rule rx_class_run) (use assms(4,5) len in auto)
  show ?thesis
    unfolding rx_match_def GITHUB_TOKEN_def
  proof (intro rx_seq_intro)
    show "(?i, None) \<in> set (rx_steps C ?s Word_Boundary False (?i, None))" using edges(1) by simp
    show "(?i + length t, None) \<in> set (rx_steps C ?s Word_Boundary False (?i + 4 + length body, None))"
      using edges(2) len by (simp add: add.assoc)
  qed ((rule gh k us run)+, simp)
qed

section \<open>The value gate rejects placeholders\<close>

lemma dropWhile_keeps:
  assumes "frag \<noteq> []" "\<forall>c \<in> set frag. \<not> P c"
  shows "\<exists>a'. dropWhile P (a @ frag @ b) = a' @ frag @ b"
proof (cases "\<forall>c \<in> set a. P c")
  case True
  have "dropWhile P (frag @ b) = frag @ b" using assms by (cases frag) auto
  with True show ?thesis by (intro exI [of _ "[]"]) (simp add: dropWhile_append2)
next
  case False
  then show ?thesis by (auto simp: dropWhile_append1)
qed

lemma trim_matches_keeps:
  assumes "frag \<noteq> []" "\<forall>c \<in> set frag. \<not> P c"
  shows "\<exists>a' b'. trim_matches P (a @ frag @ b) = a' @ frag @ b'"
proof -
  obtain a' where a: "dropWhile P (a @ frag @ b) = a' @ frag @ b"
    using dropWhile_keeps [OF assms] by blast
  obtain c where "dropWhile P (rev b @ rev frag @ rev a') = c @ rev frag @ rev a'"
    using dropWhile_keeps [of "rev frag" P "rev b" "rev a'"] assms by auto
  then have "trim_matches P (a @ frag @ b) = a' @ frag @ rev c"
    by (simp add: trim_matches_def a)
  then show ?thesis by blast
qed

lemma trim_matches_map:
  "(\<And>c. P (f c) = P c) \<Longrightarrow> trim_matches P (map f s) = map f (trim_matches P s)"
  by (simp add: trim_matches_def dropWhile_map comp_def rev_map)

lemma lowercase_trim_quotes:
  "to_ascii_lowercase (trim_matches (\<lambda>c. c = 34 \<or> c = 39) v) =
   trim_matches (\<lambda>c. c = 34 \<or> c = 39) (to_ascii_lowercase v)"
  unfolding to_ascii_lowercase_def
  by (rule trim_matches_map [symmetric]) (auto simp: is_ascii_uppercase_def)

lemma placeholder_fragments_plain:
  "\<forall>frag \<in> set STRONG_PLACEHOLDER_FRAGMENTS. frag \<noteq> [] \<and> (\<forall>c \<in> set frag. c \<noteq> 34 \<and> c \<noteq> 39)"
  by code_simp

lemma placeholder_rejected:
  assumes "frag \<in> set STRONG_PLACEHOLDER_FRAGMENTS" "to_ascii_lowercase v = a @ frag @ b"
  shows "\<not> looks_like_secret_value v"
proof -
  let ?trimmed = "trim_matches (\<lambda>c. c = 34 \<or> c = 39) v"
  have plain: "frag \<noteq> []" "\<forall>c \<in> set frag. \<not> (c = 34 \<or> c = 39)"
    using placeholder_fragments_plain assms(1) by blast+
  obtain a' b' where "to_ascii_lowercase ?trimmed = a' @ frag @ b'"
    unfolding lowercase_trim_quotes assms(2) using trim_matches_keeps [OF plain] by blast
  then have "contains_str (to_ascii_lowercase ?trimmed) frag" unfolding contains_str_iff by blast
  with assms(1) have "list_ex (contains_str (to_ascii_lowercase ?trimmed)) STRONG_PLACEHOLDER_FRAGMENTS"
    by (auto simp: list_ex_iff)
  then show ?thesis by (simp add: looks_like_secret_value_def Let_def)
qed

section \<open>User rules\<close>

lemma user_matches_compiled:
  "user_matches E text config out =
     user_matches E text (config\<lparr>user_rules :=
       filter (\<lambda>r. user_regex E (ur_regex r) \<noteq> None) (user_rules config)\<rparr>) out"
proof -
  have "fold (\<lambda>rule out. case user_regex E (ur_regex rule) of
      Some f \<Rightarrow> push_all (f text) UserDefined out | None \<Rightarrow> out) rules out =
    fold (\<lambda>rule out. case user_regex E (ur_regex rule) of
      Some f \<Rightarrow> push_all (f text) UserDefined out | None \<Rightarrow> out)
      (filter (\<lambda>r. user_regex E (ur_regex r) \<noteq> None) rules) out" for rules
    by (induction rules arbitrary: out) auto
  then show ?thesis by (simp add: user_matches_def)
qed

end
