(* ===== verification/Redact_Entropy.thy ===== *)
theory Redact_Entropy
  imports Redact_Patterns
begin

text \<open>
  \<open>redaction/entropy.rs\<close>: the scan for maximal runs of token bytes, the qualification of a run
  and its Shannon entropy. The \<open>u32\<close> counters of \<open>shannon_entropy\<close> are unguarded additions:
  \<open>None\<close> is the overflow panic of a debug build. The slice \<open>&text[start..end]\<close> is \<open>str_slice\<close>,
  which is \<open>None\<close> off a character boundary; the scan is proved never to get there.
\<close>

definition ENTROPY_RATIO :: "'f f64_ops \<Rightarrow> 'f" where "ENTROPY_RATIO F = f_dec F 85 2"
definition ENTROPY_REF_CAP :: "'f f64_ops \<Rightarrow> 'f" where "ENTROPY_REF_CAP F = f_dec F 60 1"

definition is_token_byte :: "u8 \<Rightarrow> bool" where
  "is_token_byte b \<longleftrightarrow> is_ascii_alphanumeric (unat b) \<or> unat b = 43 \<or> unat b = 61"

definition is_plain_hex :: "str \<Rightarrow> bool" where
  "is_plain_hex run = list_all is_ascii_hexdigit run"

definition class_count :: "str \<Rightarrow> nat" where
  "class_count run =
     of_bool (list_ex is_ascii_lowercase run) + of_bool (list_ex is_ascii_uppercase run) +
     of_bool (list_ex is_ascii_digit run) + of_bool (list_ex (\<lambda>c. c = 43 \<or> c = 61) run)"

definition u32_add :: "build_profile \<Rightarrow> u32 \<Rightarrow> u32 \<Rightarrow> u32 option" where
  "u32_add prof a b = (case checked_add_u32 a b of
     Some c \<Rightarrow> Some c
   | None \<Rightarrow> (case prof of Debug \<Rightarrow> None | Release \<Rightarrow> Some (a + b)))"

fun count_bytes :: "build_profile \<Rightarrow> u32 list \<Rightarrow> u32 \<Rightarrow> bytes \<Rightarrow> (u32 list \<times> u32) option" where
  "count_bytes prof counts tot [] = Some (counts, tot)"
| "count_bytes prof counts tot (b # bs) =
     (case u32_add prof (counts ! unat b) 1 of
        None \<Rightarrow> None
      | Some c \<Rightarrow> (case u32_add prof tot 1 of
          None \<Rightarrow> None
        | Some t \<Rightarrow> count_bytes prof (counts[unat b := c]) t bs))"

definition shannon_entropy :: "build_profile \<Rightarrow> 'f f64_ops \<Rightarrow> str \<Rightarrow> 'f option" where
  "shannon_entropy prof F s =
     (case count_bytes prof (replicate 256 0) 0 (as_bytes s) of
        None \<Rightarrow> None
      | Some (counts, tot) \<Rightarrow>
          if tot = 0 then Some (f_dec F 0 1)
          else Some (foldl (f_add F) (f_sum_start F)
            (map (\<lambda>c. let p = f_div F (f_from_u32 F c) (f_from_u32 F tot)
                      in f_mul F (f_neg F p) (f_log2 F p))
                 (filter (\<lambda>c. c > 0) counts))))"

definition qualifies :: "build_profile \<Rightarrow> 'f f64_ops \<Rightarrow> str \<Rightarrow> 'f mask_config \<Rightarrow> bool option" where
  "qualifies prof F run config =
     (let len = length run in
      if as_u32 len < min_entropy_len config then Some False
      else if is_plain_hex run then Some False
      else if class_count run < 3 then Some False
      else case shannon_entropy prof F run of
        None \<Rightarrow> None
      | Some h \<Rightarrow>
          if f_lt F h (entropy_bits config) then Some False
          else let reference = f_min F (f_log2 F (f_from_usize F len)) (ENTROPY_REF_CAP F)
               in Some (f_ge F h (f_mul F (ENTROPY_RATIO F) reference)))"

function token_run_end :: "bytes \<Rightarrow> nat \<Rightarrow> nat" where
  "token_run_end bs i =
     (if i < length bs \<and> is_token_byte (bs ! i) then token_run_end bs (Suc i) else i)"
  by pat_completeness auto
termination
  by (relation "measure (\<lambda>(bs, i). length bs - i)") auto

declare token_run_end.simps [simp del]

lemma token_run_end_ge: "i \<le> token_run_end bs i"
proof (induction bs i rule: token_run_end.induct)
  case (1 bs i)
  then show ?case by (subst token_run_end.simps) (auto simp: Suc_le_eq)
qed

lemma token_run_end_gt: "i < length bs \<Longrightarrow> is_token_byte (bs ! i) \<Longrightarrow> i < token_run_end bs i"
  using token_run_end_ge [of "Suc i" bs] by (subst token_run_end.simps) simp

function entropy_scan ::
  "build_profile \<Rightarrow> 'f f64_ops \<Rightarrow> str \<Rightarrow> 'f mask_config \<Rightarrow> (nat \<times> nat) list \<Rightarrow> nat \<Rightarrow>
   raw_match list \<Rightarrow> raw_match list option" where
  "entropy_scan prof F text config occupied i out =
     (let bs = as_bytes text in
      if \<not> i < length bs then Some out
      else if \<not> is_token_byte (bs ! i) then entropy_scan prof F text config occupied (i + 1) out
      else let e = token_run_end bs i in
        case str_slice text i e of
          None \<Rightarrow> None
        | Some run \<Rightarrow> (case qualifies prof F run config of
            None \<Rightarrow> None
          | Some q \<Rightarrow> entropy_scan prof F text config occupied e
              (if q \<and> \<not> overlaps_any i e occupied
               then out @ [\<lparr>rm_start = i, rm_end = e, rm_kind = HighEntropyString,
                            rm_confidence = Medium\<rparr>]
               else out)))"
  by pat_completeness auto
termination
  by (relation "measure (\<lambda>(prof, F, text, config, occupied, i, out). length (as_bytes text) - i)")
    (auto dest: token_run_end_gt intro: diff_less_mono2)

declare entropy_scan.simps [simp del]

definition high_entropy_matches ::
  "build_profile \<Rightarrow> 'f f64_ops \<Rightarrow> str \<Rightarrow> 'f mask_config \<Rightarrow> (nat \<times> nat) list \<Rightarrow>
   raw_match list \<Rightarrow> raw_match list option" where
  "high_entropy_matches prof F text config occupied out =
     entropy_scan prof F text config occupied 0 out"

section \<open>The counters\<close>

lemma u32_add_exact:
  "unat a + unat b < 2 ^ 32 \<Longrightarrow> \<exists>c. u32_add prof a b = Some c \<and> unat c = unat a + unat b"
  by (simp add: u32_add_def checked_add_u32_def unat_plus_u32)

lemma count_bytes_exact:
  assumes "length counts = 256" "unat tot + length bs < 2 ^ 32"
    and "\<forall>i < 256. unat (counts ! i) \<le> unat tot"
  shows "\<exists>cs t. count_bytes prof counts tot bs = Some (cs, t) \<and> length cs = 256 \<and>
    unat t = unat tot + length bs \<and>
    (\<forall>i < 256. unat (cs ! i) = unat (counts ! i) + count_list (map unat bs) i)"
  using assms
proof (induction bs arbitrary: counts tot)
  case (Cons b bs)
  have b: "unat b < 256" by (rule unat_u8_less)
  have le: "unat (counts ! unat b) \<le> unat tot" using Cons.prems(3) b by blast
  obtain c where c: "u32_add prof (counts ! unat b) 1 = Some c" "unat c = unat (counts ! unat b) + 1"
    using u32_add_exact [of "counts ! unat b" 1 prof] le Cons.prems(2) by auto
  obtain t where t: "u32_add prof tot 1 = Some t" "unat t = unat tot + 1"
    using u32_add_exact [of tot 1 prof] Cons.prems(2) by auto
  have "\<forall>i < 256. unat (counts[unat b := c] ! i) \<le> unat t"
    using Cons.prems(1,3) c(2) t(2) b le by (auto simp: nth_list_update le_SucI)
  then obtain cs t' where r: "count_bytes prof (counts[unat b := c]) t bs = Some (cs, t')"
    "length cs = 256" "unat t' = unat t + length bs"
    "\<forall>i < 256. unat (cs ! i) = unat (counts[unat b := c] ! i) + count_list (map unat bs) i"
    using Cons.IH [of "counts[unat b := c]" t] Cons.prems(1,2) t(2) by auto
  have "\<forall>i < 256. unat (cs ! i) = unat (counts ! i) + count_list (map unat (b # bs)) i"
    using r(4) Cons.prems(1) c(2) b by (auto simp: nth_list_update)
  with c(1) t r(1,2,3) show ?case by simp
qed simp

lemma shannon_entropy_total:
  "length (as_bytes s) < 2 ^ 32 \<Longrightarrow> \<exists>h. shannon_entropy prof F s = Some h"
  using count_bytes_exact [of "replicate 256 0" 0 "as_bytes s" prof]
  by (auto simp: shannon_entropy_def)

lemma qualifies_total:
  assumes "length (as_bytes run) < 2 ^ 32"
  obtains q where "qualifies prof F run config = Some q"
proof -
  obtain h where "shannon_entropy prof F run = Some h"
    using shannon_entropy_total [OF assms, of prof F] by blast
  then have "qualifies prof F run config \<noteq> None"
    by (simp add: qualifies_def Let_def del: not_None_eq)
  then show ?thesis using that by blast
qed

section \<open>Token bytes are characters of their own\<close>

lemma utf8_char_multi: "128 \<le> c \<Longrightarrow> is_scalar c \<Longrightarrow> b \<in> set (utf8_char c) \<Longrightarrow> 128 \<le> unat b"
proof -
  assume c: "128 \<le> c" "is_scalar c" "b \<in> set (utf8_char c)"
  then have "c < 1114112" by (auto simp: is_scalar_def)
  then have d: "c div 262144 < 5" by (simp add: div_less_iff_less_mult)
  have e: "c < 2048 \<Longrightarrow> c div 64 < 32" "c < 65536 \<Longrightarrow> c div 4096 < 16"
    by (simp_all add: div_less_iff_less_mult)
  have m: "c mod 64 < 64" "c div 64 mod 64 < 64" "c div 4096 mod 64 < 64" by simp_all
  from c(1,3) show ?thesis unfolding utf8_char_def using d e m
    by (auto simp: unat_b8 split: if_splits)
qed

lemma utf8_char_first: "is_scalar c \<Longrightarrow> \<not> is_cont (utf8_char c ! 0)"
proof -
  assume "is_scalar c"
  then have "c < 1114112" by (auto simp: is_scalar_def)
  then have d: "c div 262144 < 5" by (simp add: div_less_iff_less_mult)
  have e: "c < 2048 \<Longrightarrow> c div 64 < 32" "c < 65536 \<Longrightarrow> c div 4096 < 16"
    by (simp_all add: div_less_iff_less_mult)
  show ?thesis unfolding utf8_char_def using d e
    by (auto simp: unat_b8 is_cont_def)
qed

lemma utf8_char_token:
  assumes "is_scalar c" "b \<in> set (utf8_char c)" "unat b < 128"
  shows "c < 128 \<and> utf8_char c = [b] \<and> unat b = c"
proof -
  have "c < 128" using utf8_char_multi [of c b] assms by linarith
  with assms show ?thesis by (auto simp: utf8_char_ascii unat_b8)
qed

lemma is_token_byte_ascii: "is_token_byte b \<Longrightarrow> unat b < 128"
  by (auto simp: is_token_byte_def ascii_defs)

text \<open>A run of ASCII bytes of an encoding is itself the encoding of a run of characters.\<close>

lemma ascii_run_split:
  assumes "valid_str s" "i < j" "j \<le> length (as_bytes s)"
    and "\<forall>k. i \<le> k \<longrightarrow> k < j \<longrightarrow> unat (as_bytes s ! k) < 128"
  shows "\<exists>a r b. s = a @ r @ b \<and> length (as_bytes a) = i \<and> length r = j - i \<and>
    (\<forall>c \<in> set r. c < 128) \<and> as_bytes r = slice (as_bytes s) i j"
  using assms
proof (induction s arbitrary: i j)
  case (Cons c s)
  let ?w = "length (utf8_char c)"
  show ?case
  proof (cases "i = 0")
    case True
    have "(as_bytes (c # s)) ! 0 \<in> set (utf8_char c)"
      by (cases "utf8_char c") auto
    moreover have "unat (as_bytes (c # s) ! 0) < 128" using Cons.prems(2,4) True by blast
    moreover have "is_scalar c" using Cons.prems(1) by simp
    ultimately have "c < 128" using utf8_char_token by blast
    then have c: "c < 128" "utf8_char c = [b8 c]" by (simp_all add: utf8_char_ascii)
    show ?thesis
    proof (cases "j = 1")
      case True
      with c \<open>i = 0\<close> show ?thesis
        by (intro exI [of _ "[]"] exI [of _ "[c]"] exI [of _ s]) (simp add: slice_def)
    next
      case False
      have "\<exists>a r b. s = a @ r @ b \<and> length (as_bytes a) = 0 \<and> length r = j - 1 - 0 \<and>
        (\<forall>c \<in> set r. c < 128) \<and> as_bytes r = slice (as_bytes s) 0 (j - 1)"
      proof (rule Cons.IH)
        show "\<forall>k. 0 \<le> k \<longrightarrow> k < j - 1 \<longrightarrow> unat (as_bytes s ! k) < 128"
        proof (intro allI impI)
          fix k assume "k < j - 1"
          then have "Suc k < j" by simp
          with Cons.prems(4) True have "unat (as_bytes (c # s) ! Suc k) < 128" by blast
          with c(2) show "unat (as_bytes s ! k) < 128" by simp
        qed
      qed (use Cons.prems c True False in auto)
      then obtain a r b where r: "s = a @ r @ b" "length (as_bytes a) = 0" "length r = j - 1"
        "\<forall>c \<in> set r. c < 128" "as_bytes r = slice (as_bytes s) 0 (j - 1)" by auto
      from r(2) have "a = []" by (cases a) auto
      obtain j' where "j = Suc j'" using False Cons.prems(2) by (cases j) auto
      with r c True \<open>a = []\<close> False show ?thesis
        by (intro exI [of _ "[]"] exI [of _ "c # r"] exI [of _ b]) (simp add: slice_def)
    qed
  next
    case False
    have w: "?w \<le> i"
    proof (rule ccontr)
      assume "\<not> ?w \<le> i"
      then have "as_bytes (c # s) ! i \<in> set (utf8_char c)" by (simp add: nth_append)
      moreover have "unat (as_bytes (c # s) ! i) < 128" using Cons.prems(2,4) by blast
      moreover have "is_scalar c" using Cons.prems(1) by simp
      ultimately have "utf8_char c = [as_bytes (c # s) ! i]" using utf8_char_token by blast
      then have "?w = length [as_bytes (c # s) ! i]" by (rule arg_cong)
      then have "?w = 1" by simp
      with \<open>\<not> ?w \<le> i\<close> False show False by simp
    qed
    have "\<exists>a r b. s = a @ r @ b \<and> length (as_bytes a) = i - ?w \<and> length r = (j - ?w) - (i - ?w) \<and>
      (\<forall>c \<in> set r. c < 128) \<and> as_bytes r = slice (as_bytes s) (i - ?w) (j - ?w)"
    proof (rule Cons.IH)
      show "\<forall>k. i - ?w \<le> k \<longrightarrow> k < j - ?w \<longrightarrow> unat (as_bytes s ! k) < 128"
      proof (intro allI impI)
        fix k assume "i - ?w \<le> k" "k < j - ?w"
        then have "i \<le> k + ?w" "k + ?w < j" using w by auto
        with Cons.prems(4) have "unat (as_bytes (c # s) ! (k + ?w)) < 128" by blast
        then show "unat (as_bytes s ! k) < 128" by (simp add: nth_append)
      qed
    qed (use Cons.prems w in auto)
    then obtain a r b where r: "s = a @ r @ b" "length (as_bytes a) = i - ?w"
      "length r = (j - ?w) - (i - ?w)" "\<forall>c \<in> set r. c < 128"
      "as_bytes r = slice (as_bytes s) (i - ?w) (j - ?w)" by auto
    with w Cons.prems(2) show ?thesis
      by (intro exI [of _ "c # a"] exI [of _ r] exI [of _ b]) (auto simp: slice_def)
  qed
qed simp

section \<open>The scan finds exactly the qualifying maximal runs\<close>

definition token_run :: "bytes \<Rightarrow> nat \<Rightarrow> nat \<Rightarrow> bool" where
  "token_run bs i j \<longleftrightarrow> i < j \<and> j \<le> length bs \<and>
     (\<forall>k. i \<le> k \<longrightarrow> k < j \<longrightarrow> is_token_byte (bs ! k)) \<and>
     (0 < i \<longrightarrow> \<not> is_token_byte (bs ! (i - 1))) \<and>
     (j < length bs \<longrightarrow> \<not> is_token_byte (bs ! j))"

definition entropy_match :: "nat \<Rightarrow> nat \<Rightarrow> raw_match" where
  "entropy_match i j =
     \<lparr>rm_start = i, rm_end = j, rm_kind = HighEntropyString, rm_confidence = Medium\<rparr>"

definition entropy_hit ::
  "build_profile \<Rightarrow> 'f f64_ops \<Rightarrow> str \<Rightarrow> 'f mask_config \<Rightarrow> (nat \<times> nat) list \<Rightarrow> nat \<Rightarrow> nat \<Rightarrow> bool" where
  "entropy_hit prof F text config occupied i j \<longleftrightarrow>
     token_run (as_bytes text) i j \<and> \<not> overlaps_any i j occupied \<and>
     (\<exists>run. str_slice text i j = Some run \<and> qualifies prof F run config = Some True)"

text \<open>\<open>fresh bs i\<close>: position \<open>i\<close> is not inside a run.\<close>

definition fresh :: "bytes \<Rightarrow> nat \<Rightarrow> bool" where
  "fresh bs i \<longleftrightarrow> (0 < i \<longrightarrow> i < length bs \<longrightarrow> is_token_byte (bs ! i) \<longrightarrow> \<not> is_token_byte (bs ! (i - 1)))"

lemma token_run_end_bound: "i \<le> length bs \<Longrightarrow> token_run_end bs i \<le> length bs"
  by (induction bs i rule: token_run_end.induct) (subst token_run_end.simps, simp)

lemma token_run_end_tokens:
  "i \<le> k \<Longrightarrow> k < token_run_end bs i \<Longrightarrow> is_token_byte (bs ! k)"
proof (induction bs i rule: token_run_end.induct)
  case (1 bs i)
  from 1(3) have "i < length bs \<and> is_token_byte (bs ! i)" using 1(2)
    by (subst (asm) token_run_end.simps) (auto split: if_splits)
  with 1 show ?case by (cases "k = i") (auto simp: token_run_end.simps [of bs i])
qed

lemma token_run_end_stop:
  "token_run_end bs i < length bs \<Longrightarrow> \<not> is_token_byte (bs ! token_run_end bs i)"
proof (induction bs i rule: token_run_end.induct)
  case (1 bs i)
  then show ?case
    by (cases "i < length bs \<and> is_token_byte (bs ! i)") (auto simp: token_run_end.simps [of bs i])
qed

lemma token_run_at:
  assumes "i < length bs" "is_token_byte (bs ! i)" "fresh bs i"
  shows "token_run bs i j \<longleftrightarrow> j = token_run_end bs i"
proof
  let ?e = "token_run_end bs i"
  have e: "i < ?e" "?e \<le> length bs" using assms token_run_end_gt token_run_end_bound by simp_all
  show "token_run bs i j" if "j = ?e"
    using that e assms(3,1,2) token_run_end_tokens [of i _ bs] token_run_end_stop [of bs i]
    by (auto simp: token_run_def fresh_def)
  show "j = ?e" if j: "token_run bs i j"
  proof (rule ccontr)
    assume "j \<noteq> ?e"
    then consider "j < ?e" | "?e < j" by linarith
    then show False
    proof cases
      case 1
      with j e token_run_end_tokens [of i j bs] show False by (auto simp: token_run_def)
    next
      case 2
      with j e token_run_end_stop [of bs i] show False by (auto simp: token_run_def)
    qed
  qed
qed

lemma token_run_not_inside:
  "token_run bs a b \<Longrightarrow> i < a \<Longrightarrow> a < token_run_end bs i \<Longrightarrow> False"
proof -
  assume a: "token_run bs a b" "i < a" "a < token_run_end bs i"
  then have "is_token_byte (bs ! (a - 1))" by (intro token_run_end_tokens [of i]) linarith+
  with a show False by (auto simp: token_run_def)
qed

lemma token_run_slice:
  assumes "valid_str text" "token_run (as_bytes text) i j"
  obtains run where "str_slice text i j = Some run" "length run = j - i"
    "as_bytes run = slice (as_bytes text) i j" "boundary text i" "boundary text j"
proof -
  have "\<forall>k. i \<le> k \<longrightarrow> k < j \<longrightarrow> unat (as_bytes text ! k) < 128"
    using assms(2) is_token_byte_ascii by (auto simp: token_run_def)
  moreover have ij: "i < j" "j \<le> length (as_bytes text)" using assms(2) by (simp_all add: token_run_def)
  ultimately obtain a r b where r: "text = a @ r @ b" "length (as_bytes a) = i" "length r = j - i"
    "\<forall>c \<in> set r. c < 128" "as_bytes r = slice (as_bytes text) i j"
    using ascii_run_split [OF assms(1) ij] by blast
  have lr: "length (as_bytes r) = j - i" using r(3,4) by (simp add: as_bytes_ascii)
  have bi: "boundary text i" unfolding boundary_def
    by (rule exI [of _ "length a"]) (simp add: r(1) r(2))
  have bj: "boundary text j" unfolding boundary_def
    by (rule exI [of _ "length a + length r"]) (use r(1,2) lr ij in simp)
  have tok: "is_token_byte (as_bytes text ! i)" using assms(2) by (auto simp: token_run_def)
  have "is_char_boundary text i"
    using is_token_byte_ascii [OF tok] ij by (simp add: is_char_boundary_def Let_def is_cont_def)
  moreover have "is_char_boundary text j"
  proof (cases b)
    case Nil
    with r(1,2) lr ij show ?thesis by (simp add: is_char_boundary_def)
  next
    case (Cons c b')
    have "j = length (as_bytes a) + length (as_bytes r)" using lr r(2) ij by simp
    then have "as_bytes text ! j = utf8_char c ! 0"
      by (simp add: r(1) Cons nth_append)
    moreover have "\<not> is_cont (utf8_char c ! 0)"
    proof -
      have "is_scalar c" using assms(1) r(1) Cons by simp
      then show ?thesis by (rule utf8_char_first)
    qed
    ultimately show ?thesis using ij by (auto simp: is_char_boundary_def Let_def)
  qed
  moreover have "from_utf8 (slice (as_bytes text) i j) = Some r"
    unfolding r(5) [symmetric] using assms(1) r(1) by (intro from_utf8_as_bytes) simp
  ultimately have "str_slice text i j = Some r" using ij by (simp add: str_slice_def)
  from that [OF this r(3,5) bi bj] show thesis .
qed

lemma entropy_scan_exact:
  assumes "valid_str text" "length (as_bytes text) < 2 ^ 32" "fresh (as_bytes text) i"
  shows "\<exists>ms. entropy_scan prof F text config occupied i out = Some (out @ ms) \<and>
    (\<forall>m. m \<in> set ms \<longleftrightarrow> (\<exists>a b. i \<le> a \<and> entropy_hit prof F text config occupied a b \<and>
       m = entropy_match a b)) \<and>
    sorted_wrt (\<lambda>m n. rm_end m \<le> rm_start n) ms"
  using assms
proof (induction "length (as_bytes text) - i" arbitrary: i out rule: less_induct)
  case less
  let ?bs = "as_bytes text" and ?hit = "entropy_hit prof F text config occupied"
  note unfold = entropy_scan.simps [of prof F "text" config occupied i out]
  show ?case
  proof (cases "i < length ?bs")
    case False
    then have "\<not> ?hit a b" if "i \<le> a" for a b
      using that by (auto simp: entropy_hit_def token_run_def)
    with False show ?thesis unfolding unfold by simp
  next
    case in_text: True
    show ?thesis
    proof (cases "is_token_byte (?bs ! i)")
      case False
      then have "\<not> ?hit i b" for b by (auto simp: entropy_hit_def token_run_def)
      then have eq: "i \<le> a \<and> ?hit a b \<longleftrightarrow> i + 1 \<le> a \<and> ?hit a b" for a b
        by (metis Suc_eq_plus1 Suc_leI le_less less_imp_le Suc_le_lessD)
      have "fresh ?bs (i + 1)" using False by (simp add: fresh_def)
      from less.hyps [OF _ less.prems(1,2) this, of out] in_text obtain ms where
        ms: "entropy_scan prof F text config occupied (i + 1) out = Some (out @ ms)"
        "\<forall>m. m \<in> set ms \<longleftrightarrow> (\<exists>a b. i + 1 \<le> a \<and> ?hit a b \<and> m = entropy_match a b)"
        "sorted_wrt (\<lambda>m n. rm_end m \<le> rm_start n) ms" by (auto simp: diff_less_mono2)
      have "m \<in> set ms \<longleftrightarrow> (\<exists>a b. i \<le> a \<and> ?hit a b \<and> m = entropy_match a b)" for m
        using ms(2) eq by blast
      with ms(1,3) show ?thesis unfolding unfold using in_text False by (simp add: Let_def)
    next
      case tok: True
      let ?e = "token_run_end ?bs i"
      have run: "token_run ?bs i ?e" using token_run_at in_text tok less.prems(3) by blast
      have e: "i < ?e" "?e \<le> length ?bs" using run by (auto simp: token_run_def)
      obtain r where r: "str_slice text i ?e = Some r" "length r = ?e - i"
        "as_bytes r = slice ?bs i ?e"
        by (rule token_run_slice [OF less.prems(1) run])
      have "length (as_bytes r) < 2 ^ 32" using r(3) e less.prems(2) by simp
      then obtain q where q: "qualifies prof F r config = Some q" by (rule qualifies_total)
      define hit where "hit \<longleftrightarrow> q \<and> \<not> overlaps_any i ?e occupied"
      have here: "?hit i b \<longleftrightarrow> b = ?e \<and> hit" for b
        using token_run_at [OF in_text tok less.prems(3)] r(1) q by (auto simp: entropy_hit_def hit_def)
      have later: "i < a \<and> ?hit a b \<longleftrightarrow> ?e \<le> a \<and> ?hit a b" for a b
        using token_run_not_inside [of ?bs a b i] e(1) linorder_not_le [of ?e a]
        by (auto simp: entropy_hit_def simp del: not_le)
      let ?out = "if hit then out @ [entropy_match i ?e] else out"
      have "fresh ?bs ?e" using token_run_end_stop [of ?bs i] by (auto simp: fresh_def)
      from less.hyps [OF _ less.prems(1,2) this, of ?out] e in_text obtain ms where
        ms: "entropy_scan prof F text config occupied ?e ?out = Some (?out @ ms)"
        "\<forall>m. m \<in> set ms \<longleftrightarrow> (\<exists>a b. ?e \<le> a \<and> ?hit a b \<and> m = entropy_match a b)"
        "sorted_wrt (\<lambda>m n. rm_end m \<le> rm_start n) ms" by (auto simp: diff_less_mono2)
      have "entropy_scan prof F text config occupied i out =
          Some (out @ (if hit then entropy_match i ?e # ms else ms))"
        unfolding unfold using in_text tok r(1) q ms(1)
        by (cases hit) (auto simp: Let_def hit_def entropy_match_def)
      moreover have "m \<in> set (if hit then entropy_match i ?e # ms else ms) \<longleftrightarrow>
          (\<exists>a b. i \<le> a \<and> ?hit a b \<and> m = entropy_match a b)" for m
      proof -
        have eq: "i \<le> a \<and> ?hit a b \<longleftrightarrow> a = i \<and> b = ?e \<and> hit \<or> ?e \<le> a \<and> ?hit a b" for a b
        proof (cases "a = i")
          case True
          then show ?thesis using here [of b] e(1) by auto
        next
          case False
          then show ?thesis using later [of a b] by (simp add: le_less)
        qed
        have "(\<exists>a b. i \<le> a \<and> ?hit a b \<and> m = entropy_match a b) \<longleftrightarrow>
            (\<exists>a b. (a = i \<and> b = ?e \<and> hit \<or> ?e \<le> a \<and> ?hit a b) \<and> m = entropy_match a b)"
          by (simp only: eq flip: conj_assoc)
        also have "\<dots> \<longleftrightarrow> hit \<and> m = entropy_match i ?e \<or>
            (\<exists>a b. ?e \<le> a \<and> ?hit a b \<and> m = entropy_match a b)" by auto
        finally show ?thesis using ms(2) by simp
      qed
      moreover have "sorted_wrt (\<lambda>m n. rm_end m \<le> rm_start n)
          (if hit then entropy_match i ?e # ms else ms)"
        using ms(2,3) by (auto simp: entropy_match_def)
      ultimately show ?thesis by blast
    qed
  qed
qed

lemma high_entropy_matches_exact:
  assumes "valid_str text" "length (as_bytes text) < 2 ^ 32"
  obtains ms where
    "high_entropy_matches prof F text config occupied out = Some (out @ ms)"
    "\<forall>m. m \<in> set ms \<longleftrightarrow> (\<exists>a b. entropy_hit prof F text config occupied a b \<and> m = entropy_match a b)"
    "sorted_wrt (\<lambda>m n. rm_end m \<le> rm_start n) ms"
proof -
  have "fresh (as_bytes text) 0" by (simp add: fresh_def)
  from entropy_scan_exact [OF assms this, of prof F config occupied out] that show thesis
    by (auto simp: high_entropy_matches_def)
qed

lemma entropy_hit_ok:
  assumes "valid_str text" "entropy_hit prof F text config occupied a b"
  shows "raw_ok text (entropy_match a b)"
proof -
  have run: "token_run (as_bytes text) a b" using assms(2) by (simp add: entropy_hit_def)
  then have "a < b" by (simp add: token_run_def)
  moreover obtain r where "str_slice text a b = Some r" "boundary text a" "boundary text b"
    by (rule token_run_slice [OF assms(1) run])
  ultimately show ?thesis by (simp add: raw_ok_def entropy_match_def)
qed

end
