(* ===== verification/Rust_Sort.thy ===== *)
theory Rust_Sort
  imports Prelude "HOL-Library.Multiset"
begin

text \<open>
  Comparators and \<open>slice::sort_by\<close>. \<open>comparator\<close> is the contract the standard library asks of
  the closure it sorts with, \<open>total_comparator\<close> the contract of an \<open>Ord::cmp\<close> that only calls
  identical values equal. \<open>sort_by\<close> is the stable sort; its three laws (permutation, sortedness,
  stability) are proved once in the locale and reach the detector through an interpretation.
\<close>

locale comparator =
  fixes cmpf :: "'a \<Rightarrow> 'a \<Rightarrow> ordering"
  assumes refl: "cmpf a a = Equal"
    and swap: "cmpf b a = reverse_cmp (cmpf a b)"
    and trans: "cmpf a b \<noteq> Greater \<Longrightarrow> cmpf b c \<noteq> Greater \<Longrightarrow> cmpf a c \<noteq> Greater"

locale total_comparator = comparator +
  assumes antisym: "cmpf a b = Equal \<Longrightarrow> a = b"

fun insert_by :: "('a \<Rightarrow> 'a \<Rightarrow> ordering) \<Rightarrow> 'a \<Rightarrow> 'a list \<Rightarrow> 'a list" where
  "insert_by c x [] = [x]"
| "insert_by c x (y # ys) =
     (if c x y = Greater then y # insert_by c x ys else x # y # ys)"

fun sort_by :: "('a \<Rightarrow> 'a \<Rightarrow> ordering) \<Rightarrow> 'a list \<Rightarrow> 'a list" where
  "sort_by c [] = []"
| "sort_by c (x # xs) = insert_by c x (sort_by c xs)"

fun list_cmp :: "('a \<Rightarrow> 'a \<Rightarrow> ordering) \<Rightarrow> 'a list \<Rightarrow> 'a list \<Rightarrow> ordering" where
  "list_cmp c [] [] = Equal"
| "list_cmp c [] (y # ys) = Less"
| "list_cmp c (x # xs) [] = Greater"
| "list_cmp c (x # xs) (y # ys) = then_cmp (c x y) (list_cmp c xs ys)"

lemma mset_insert_by [simp]: "mset (insert_by c x xs) = add_mset x (mset xs)"
  by (induction xs) auto

lemma mset_sort_by [simp]: "mset (sort_by c xs) = mset xs"
  by (induction xs) auto

lemma set_insert_by [simp]: "set (insert_by c x xs) = insert x (set xs)"
  by (induction xs) auto

lemma set_sort_by [simp]: "set (sort_by c xs) = set xs"
  by (induction xs) auto

lemma sort_by_Nil_iff [simp]: "sort_by c xs = [] \<longleftrightarrow> xs = []"
  by (metis set_empty set_sort_by)

context comparator
begin

lemma Greater_swap: "cmpf a b = Greater \<longleftrightarrow> cmpf b a = Less"
  using swap [of a b] by simp

lemma Equal_sym: "cmpf a b = Equal \<longleftrightarrow> cmpf b a = Equal"
  using swap [of a b] by simp

lemma total: "cmpf a b = Greater \<Longrightarrow> cmpf b a \<noteq> Greater"
  using swap [of a b] by simp

lemma Equal_trans: "cmpf a b = Equal \<Longrightarrow> cmpf b c = Equal \<Longrightarrow> cmpf a c = Equal"
  using trans [of a b c] trans [of c b a] Greater_swap Equal_sym
  by (metis ordering.distinct ordering.exhaust)

lemma Less_trans: "cmpf a b = Less \<Longrightarrow> cmpf b c \<noteq> Greater \<Longrightarrow> cmpf a c = Less"
  by (metis Equal_sym Greater_swap ordering.distinct ordering.exhaust trans)

lemma Less_trans': "cmpf a b \<noteq> Greater \<Longrightarrow> cmpf b c = Less \<Longrightarrow> cmpf a c = Less"
  by (metis Equal_sym Greater_swap ordering.distinct ordering.exhaust trans)

lemma sorted_insert_by:
  "sorted_wrt (\<lambda>a b. cmpf a b \<noteq> Greater) xs \<Longrightarrow>
   sorted_wrt (\<lambda>a b. cmpf a b \<noteq> Greater) (insert_by cmpf x xs)"
proof (induction xs)
  case Nil
  show ?case by simp
next
  case (Cons y ys)
  then have ys: "\<forall>z \<in> set ys. cmpf y z \<noteq> Greater"
    and IH: "sorted_wrt (\<lambda>a b. cmpf a b \<noteq> Greater) (insert_by cmpf x ys)" by simp_all
  show ?case
  proof (cases "cmpf x y = Greater")
    case True
    with ys IH total [OF True] show ?thesis by simp
  next
    case False
    with ys have "\<forall>z \<in> set ys. cmpf x z \<noteq> Greater"
      using trans [OF False] by simp
    with False Cons.prems show ?thesis by simp
  qed
qed

lemma sorted_sort_by: "sorted_wrt (\<lambda>a b. cmpf a b \<noteq> Greater) (sort_by cmpf xs)"
  by (induction xs) (auto intro: sorted_insert_by)

lemma filter_insert_by:
  "filter (\<lambda>y. cmpf k y = Equal) (insert_by cmpf x xs) =
     (if cmpf k x = Equal then [x] else []) @ filter (\<lambda>y. cmpf k y = Equal) xs"
proof (induction xs)
  case Nil
  show ?case by simp
next
  case (Cons y ys)
  show ?case
  proof (cases "cmpf x y = Greater")
    case True
    then have "\<not> (cmpf k x = Equal \<and> cmpf k y = Equal)"
      using Equal_trans [of x k y] Equal_sym [of k x] by auto
    with True Cons show ?thesis by auto
  next
    case False
    then show ?thesis by simp
  qed
qed

lemma sort_by_stable:
  "filter (\<lambda>y. cmpf k y = Equal) (sort_by cmpf xs) = filter (\<lambda>y. cmpf k y = Equal) xs"
  by (induction xs) (simp_all add: filter_insert_by)

lemma list_cmp_refl: "list_cmp cmpf xs xs = Equal"
  by (induction xs) (simp_all add: refl)

lemma list_cmp_swap: "list_cmp cmpf ys xs = reverse_cmp (list_cmp cmpf xs ys)"
proof (induction xs arbitrary: ys)
  case Nil
  show ?case by (cases ys) simp_all
next
  case (Cons x xs)
  show ?case
    by (cases ys) (simp_all add: Cons swap [of x] reverse_then_cmp)
qed

lemma list_cmp_trans:
  "list_cmp cmpf xs ys \<noteq> Greater \<Longrightarrow> list_cmp cmpf ys zs \<noteq> Greater \<Longrightarrow> list_cmp cmpf xs zs \<noteq> Greater"
proof (induction xs arbitrary: ys zs)
  case Nil
  then show ?case by (cases zs) simp_all
next
  case (Cons x xs)
  from Cons.prems(1) obtain y ys' where ys: "ys = y # ys'" by (cases ys) auto
  with Cons.prems(2) obtain z zs' where zs: "zs = z # zs'" by (cases zs) auto
  from Cons.prems have xy: "cmpf x y \<noteq> Greater" and yz: "cmpf y z \<noteq> Greater"
    by (auto simp: ys zs)
  show ?case
  proof (cases "cmpf x y = Less \<or> cmpf y z = Less")
    case True
    then have "cmpf x z = Less" using Less_trans [OF _ yz] Less_trans' [OF xy] by blast
    then show ?thesis by (simp add: zs)
  next
    case False
    with xy yz have e: "cmpf x y = Equal" "cmpf y z = Equal" by (metis ordering.exhaust)+
    with Cons.prems have "list_cmp cmpf xs ys' \<noteq> Greater" "list_cmp cmpf ys' zs' \<noteq> Greater"
      by (auto simp: ys zs)
    then have "list_cmp cmpf xs zs' \<noteq> Greater" by (rule Cons.IH)
    with Equal_trans [OF e] show ?thesis by (simp add: zs)
  qed
qed

lemma list_cmp_comparator: "comparator (list_cmp cmpf)"
  by unfold_locales (rule list_cmp_refl list_cmp_swap list_cmp_trans; assumption?)+

end

context total_comparator
begin

lemma list_cmp_antisym: "list_cmp cmpf xs ys = Equal \<Longrightarrow> xs = ys"
proof (induction xs arbitrary: ys)
  case Nil
  then show ?case by (cases ys) simp_all
next
  case (Cons x xs)
  then show ?case by (cases ys) (auto dest: antisym)
qed

lemma list_cmp_total: "total_comparator (list_cmp cmpf)"
  by (intro total_comparator.intro list_cmp_comparator total_comparator_axioms.intro
      list_cmp_antisym)

end

section \<open>Ways to build comparators\<close>

interpretation ord: total_comparator "cmp :: 'a::linorder \<Rightarrow> 'a \<Rightarrow> ordering"
  by unfold_locales (auto simp: cmp_def split: if_splits)

lemma comparator_key: "comparator c \<Longrightarrow> comparator (\<lambda>a b. c (f a) (f b))"
  unfolding comparator_def by blast

lemma comparator_flip:
  assumes "comparator c"
  shows "comparator (\<lambda>a b. c b a)"
proof
  fix x y z
  show "c x x = Equal" by (rule comparator.refl [OF assms])
  show "c x y = reverse_cmp (c y x)" by (rule comparator.swap [OF assms])
  assume "c y x \<noteq> Greater" "c z y \<noteq> Greater"
  then show "c z x \<noteq> Greater" using comparator.trans [OF assms] by blast
qed

lemma comparator_then:
  assumes c: "comparator c" and d: "comparator d"
  shows "comparator (\<lambda>x y. then_cmp (c x y) (d x y))"
proof
  fix x y z
  show "then_cmp (c x x) (d x x) = Equal"
    by (simp add: comparator.refl [OF c] comparator.refl [OF d])
  show "then_cmp (c y x) (d y x) = reverse_cmp (then_cmp (c x y) (d x y))"
    by (simp only: comparator.swap [OF c, where a = x and b = y]
        comparator.swap [OF d, where a = x and b = y] reverse_then_cmp)
  assume "then_cmp (c x y) (d x y) \<noteq> Greater" "then_cmp (c y z) (d y z) \<noteq> Greater"
  then have cc: "c x y \<noteq> Greater" "c y z \<noteq> Greater"
    and dd: "c x y = Equal \<Longrightarrow> d x y \<noteq> Greater" "c y z = Equal \<Longrightarrow> d y z \<noteq> Greater"
    by auto
  show "then_cmp (c x z) (d x z) \<noteq> Greater"
  proof (cases "c x y = Less \<or> c y z = Less")
    case True
    then have "c x z = Less"
      using comparator.Less_trans [OF c _ cc(2)] comparator.Less_trans' [OF c cc(1)] by blast
    then show ?thesis by simp
  next
    case False
    with cc have e: "c x y = Equal" "c y z = Equal" by (metis ordering.exhaust)+
    from comparator.Equal_trans [OF c e] comparator.trans [OF d dd(1) [OF e(1)] dd(2) [OF e(2)]]
    show ?thesis by simp
  qed
qed

lemma total_comparator_key:
  assumes c: "total_comparator c" and f: "inj f"
  shows "total_comparator (\<lambda>a b. c (f a) (f b))"
proof (rule total_comparator.intro)
  show "comparator (\<lambda>a b. c (f a) (f b))"
    by (rule comparator_key) (rule total_comparator.axioms [OF c])
  show "total_comparator_axioms (\<lambda>a b. c (f a) (f b))"
  proof
    fix a b assume "c (f a) (f b) = Equal"
    then show "a = b" using total_comparator.antisym [OF c] f by (blast dest: injD)
  qed
qed

end
