(* ===== verification/Redact_Detector.thy ===== *)
theory Redact_Detector
  imports Redact_Entropy Rust_Sort
begin

text \<open>
  \<open>redaction/detector.rs\<close>: collection of the raw matches of every source, resolution of overlaps
  by a stable sort and one greedy pass, and conversion of byte offsets to character offsets.
  \<open>None\<close> is a panic (only the entropy counters can cause one).
\<close>

section \<open>Definitions\<close>

definition collect_raw ::
  "build_profile \<Rightarrow> 'f f64_ops \<Rightarrow> regex_engine \<Rightarrow> str \<Rightarrow> 'f mask_config \<Rightarrow> raw_match list option" where
  "collect_raw prof F E text config =
     (let all = gated_literal_matches E text (provider_matches E text []);
          urls = url_matches E text [];
          url_spans = map raw_span urls;
          kv = filter (\<lambda>m. \<not> overlaps_any (rm_start m) (rm_end m) url_spans) (kv_matches E text []);
          all = user_matches E text config (all @ urls @ kv);
          occupied = map raw_span all @ data_uri_spans E text
      in high_entropy_matches prof F text config occupied all)"

fun conf_rank :: "confidence \<Rightarrow> nat" where
  "conf_rank High = 1"
| "conf_rank Medium = 0"

text \<open>The order in which matches are resolved. The source subtracts the ends of a span as \<open>usize\<close>; every
  raw match starts before it ends (\<open>raw_ok\<close>), so that the difference is one of naturals.\<close>

definition raw_cmp :: "raw_match \<Rightarrow> raw_match \<Rightarrow> ordering" where
  "raw_cmp a b =
     then_cmp (then_cmp (cmp (rm_start a) (rm_start b))
                        (cmp (conf_rank (rm_confidence b)) (conf_rank (rm_confidence a))))
              (cmp (rm_end b - rm_start b) (rm_end a - rm_start a))"

fun keep_loop :: "raw_match list \<Rightarrow> nat \<Rightarrow> raw_match list \<Rightarrow> raw_match list" where
  "keep_loop kept last_end [] = kept"
| "keep_loop kept last_end (m # raws) =
     (if kept = [] \<or> last_end \<le> rm_start m then keep_loop (kept @ [m]) (rm_end m) raws
      else keep_loop kept last_end raws)"

definition merge_non_overlapping :: "raw_match list \<Rightarrow> raw_match list" where
  "merge_non_overlapping raws = keep_loop [] 0 (sort_by raw_cmp raws)"

fun skip_below :: "nat \<Rightarrow> (nat \<times> nat) list \<Rightarrow> nat \<Rightarrow> (nat \<times> nat) list \<times> nat" where
  "skip_below target [] char_idx = ([], char_idx)"
| "skip_below target ((byte, c) # chars) char_idx =
     (if target \<le> byte then ((byte, c) # chars, char_idx)
      else skip_below target chars (char_idx + 1))"

definition u32_or_max :: "nat \<Rightarrow> u32" where
  "u32_or_max n = (case try_u32 n of Some w \<Rightarrow> w | None \<Rightarrow> u32_max)"

fun offsets_loop :: "(nat \<times> nat) list \<Rightarrow> nat \<Rightarrow> nat list \<Rightarrow> u32 list" where
  "offsets_loop chars char_idx [] = []"
| "offsets_loop chars char_idx (target # targets) =
     (let (chars', idx') = skip_below target chars char_idx
      in u32_or_max idx' # offsets_loop chars' idx' targets)"

definition byte_to_char_offsets :: "str \<Rightarrow> nat list \<Rightarrow> u32 list" where
  "byte_to_char_offsets text sorted_bytes = offsets_loop (char_indices text) 0 sorted_bytes"

definition span_bytes :: "raw_match list \<Rightarrow> nat list" where
  "span_bytes kept = concat (map (\<lambda>m. [rm_start m, rm_end m]) kept)"

definition detect_secrets ::
  "build_profile \<Rightarrow> 'f f64_ops \<Rightarrow> regex_engine \<Rightarrow> str \<Rightarrow> 'f mask_config \<Rightarrow> secret_match list option" where
  "detect_secrets prof F E text config =
     (case collect_raw prof F E text config of
        None \<Rightarrow> None
      | Some raws \<Rightarrow>
          let kept = merge_non_overlapping raws in
          if kept = [] then Some []
          else let chars = byte_to_char_offsets text (span_bytes kept) in
            Some (map (\<lambda>(i, m). \<lparr>sm_kind = rm_kind m, sm_start = chars ! (i * 2),
                                 sm_end = chars ! (i * 2 + 1), sm_confidence = rm_confidence m\<rparr>)
                      (enumerate 0 kept)))"

definition is_secret ::
  "build_profile \<Rightarrow> 'f f64_ops \<Rightarrow> regex_engine \<Rightarrow> str \<Rightarrow> 'f mask_config \<Rightarrow> bool option" where
  "is_secret prof F E text config =
     map_option (\<lambda>raws. raws \<noteq> []) (collect_raw prof F E text config)"

section \<open>Overlap resolution\<close>

interpretation raw_order: comparator raw_cmp
  unfolding raw_cmp_def
proof (intro comparator_then)
  show "comparator (\<lambda>a b. cmp (rm_start a) (rm_start b))"
    by (rule comparator_key [where c = cmp and f = rm_start]) (rule ord.comparator_axioms)
  show "comparator (\<lambda>a b. cmp (conf_rank (rm_confidence b)) (conf_rank (rm_confidence a)))"
    by (rule comparator_flip, rule comparator_key [where c = cmp and f = "\<lambda>m. conf_rank (rm_confidence m)"])
      (rule ord.comparator_axioms)
  show "comparator (\<lambda>a b. cmp (rm_end b - rm_start b) (rm_end a - rm_start a))"
    by (rule comparator_flip, rule comparator_key [where c = cmp and f = "\<lambda>m. rm_end m - rm_start m"])
      (rule ord.comparator_axioms)
qed

definition not_after :: "raw_match \<Rightarrow> raw_match \<Rightarrow> bool" where
  "not_after a b \<longleftrightarrow> raw_cmp a b \<noteq> Greater"

lemma not_after_start: "not_after a b \<Longrightarrow> rm_start a \<le> rm_start b"
  by (auto simp: not_after_def raw_cmp_def not_less)

text \<open>The documented priority: earliest start, then higher confidence, then the longer span.\<close>

definition preferred :: "raw_match \<Rightarrow> raw_match \<Rightarrow> bool" where
  "preferred a b \<longleftrightarrow> rm_start a < rm_start b \<or> rm_start a = rm_start b \<and>
     (rm_confidence b < rm_confidence a \<or> rm_confidence a = rm_confidence b \<and>
      rm_end b - rm_start b \<le> rm_end a - rm_start a)"

lemma conf_rank_less: "conf_rank a < conf_rank b \<longleftrightarrow> a < b"
  by (cases a; cases b) (simp_all add: less_confidence_def)

lemma conf_rank_eq: "conf_rank a = conf_rank b \<longleftrightarrow> a = b"
  by (cases a; cases b) simp_all

lemma not_after_preferred: "not_after a b \<longleftrightarrow> preferred a b"
  by (auto simp: not_after_def raw_cmp_def preferred_def cmp_def conf_rank_less conf_rank_eq
      split: if_splits)

lemma not_after_refl [simp]: "not_after a a"
  by (simp add: not_after_def raw_order.refl)

definition disjoint_spans :: "raw_match list \<Rightarrow> bool" where
  "disjoint_spans ms \<longleftrightarrow> sorted_wrt (\<lambda>a b. rm_end a \<le> rm_start b) ms"

text \<open>\<open>beaten_by k m\<close>: \<open>m\<close> is \<open>k\<close>, or begins inside \<open>k\<close> and does not sort before it.\<close>

definition beaten_by :: "raw_match \<Rightarrow> raw_match \<Rightarrow> bool" where
  "beaten_by k m \<longleftrightarrow> not_after k m \<and> (k = m \<or> rm_start m < rm_end k)"

lemma keep_loop_laws:
  assumes "sorted_wrt not_after raws" "\<forall>m \<in> set raws. rm_start m \<le> rm_end m"
    and "disjoint_spans kept" "\<forall>k \<in> set kept. rm_end k \<le> last_end"
    and "kept \<noteq> [] \<Longrightarrow> last_end = rm_end (last kept) \<and> (\<forall>m \<in> set raws. not_after (last kept) m)"
  shows "disjoint_spans (keep_loop kept last_end raws) \<and>
    set kept \<subseteq> set (keep_loop kept last_end raws) \<and>
    set (keep_loop kept last_end raws) \<subseteq> set kept \<union> set raws \<and>
    (\<forall>m \<in> set raws. \<exists>k \<in> set (keep_loop kept last_end raws). beaten_by k m)"
  using assms
proof (induction kept last_end raws rule: keep_loop.induct)
  case (2 kept last_end m raws)
  show ?case
  proof (cases "kept = [] \<or> last_end \<le> rm_start m")
    case True
    have "disjoint_spans (kept @ [m])"
      using "2.prems"(3,4) True by (fastforce simp: disjoint_spans_def sorted_wrt_append)
    moreover have "\<forall>k \<in> set (kept @ [m]). rm_end k \<le> rm_end m"
      using "2.prems"(2,4) True by fastforce
    ultimately have IH: "disjoint_spans (keep_loop (kept @ [m]) (rm_end m) raws) \<and>
      set (kept @ [m]) \<subseteq> set (keep_loop (kept @ [m]) (rm_end m) raws) \<and>
      set (keep_loop (kept @ [m]) (rm_end m) raws) \<subseteq> set (kept @ [m]) \<union> set raws \<and>
      (\<forall>n \<in> set raws. \<exists>k \<in> set (keep_loop (kept @ [m]) (rm_end m) raws). beaten_by k n)"
      using "2.prems"(1,2) by (intro "2.IH"(1) [OF True]) auto
    have "beaten_by m m" by (simp add: beaten_by_def)
    with IH True show ?thesis by auto
  next
    case False
    have IH: "disjoint_spans (keep_loop kept last_end raws) \<and>
      set kept \<subseteq> set (keep_loop kept last_end raws) \<and>
      set (keep_loop kept last_end raws) \<subseteq> set kept \<union> set raws \<and>
      (\<forall>n \<in> set raws. \<exists>k \<in> set (keep_loop kept last_end raws). beaten_by k n)"
      using "2.prems" by (intro "2.IH"(2) [OF False]) auto
    have "beaten_by (last kept) m" using "2.prems"(5) False by (auto simp: beaten_by_def)
    moreover have "last kept \<in> set (keep_loop kept last_end raws)" using IH False by auto
    ultimately show ?thesis using IH False by auto
  qed
qed simp

lemma merge_laws:
  assumes "\<forall>m \<in> set raws. rm_start m \<le> rm_end m"
  shows "disjoint_spans (merge_non_overlapping raws)"
    "set (merge_non_overlapping raws) \<subseteq> set raws"
    "m \<in> set raws \<Longrightarrow> \<exists>k \<in> set (merge_non_overlapping raws). beaten_by k m"
proof -
  have "sorted_wrt not_after (sort_by raw_cmp raws)"
    unfolding not_after_def by (rule raw_order.sorted_sort_by)
  moreover have "disjoint_spans []" by (simp add: disjoint_spans_def)
  ultimately have laws: "disjoint_spans (keep_loop [] 0 (sort_by raw_cmp raws)) \<and>
    set [] \<subseteq> set (keep_loop [] 0 (sort_by raw_cmp raws)) \<and>
    set (keep_loop [] 0 (sort_by raw_cmp raws)) \<subseteq> set [] \<union> set (sort_by raw_cmp raws) \<and>
    (\<forall>m \<in> set (sort_by raw_cmp raws). \<exists>k \<in> set (keep_loop [] 0 (sort_by raw_cmp raws)). beaten_by k m)"
    using assms by (intro keep_loop_laws) auto
  then show "disjoint_spans (merge_non_overlapping raws)" "set (merge_non_overlapping raws) \<subseteq> set raws"
    by (simp_all add: merge_non_overlapping_def)
  show "\<exists>k \<in> set (merge_non_overlapping raws). beaten_by k m" if "m \<in> set raws"
    using laws that by (simp add: merge_non_overlapping_def)
qed

lemma keep_loop_Nil_iff: "keep_loop kept e raws = [] \<longleftrightarrow> kept = [] \<and> raws = []"
  by (induction kept e raws rule: keep_loop.induct) auto

lemma merge_Nil_iff: "merge_non_overlapping raws = [] \<longleftrightarrow> raws = []"
  by (simp add: merge_non_overlapping_def keep_loop_Nil_iff)

section \<open>Character offsets\<close>

lemma byte_at_0 [simp]: "byte_at s 0 = 0"
  by (simp add: byte_at_def)

lemma byte_at_Cons_Suc [simp]: "byte_at (c # s) (Suc n) = length (utf8_char c) + byte_at s n"
  by (simp add: byte_at_def)

lemma char_indices_from_eq:
  "char_indices_from off s = map (\<lambda>i. (off + byte_at s i, s ! i)) [0..<length s]"
proof (induction s arbitrary: off)
  case (Cons c s)
  have "[0..<length (c # s)] = 0 # map Suc [0..<length s]"
    by (simp add: map_Suc_upt upt_conv_Cons del: upt_Suc)
  then show ?case using Cons by (simp add: add.assoc del: upt_Suc)
qed simp

lemma char_indices_eq: "char_indices s = map (\<lambda>i. (byte_at s i, s ! i)) [0..<length s]"
  by (simp add: char_indices_def char_indices_from_eq)

lemma byte_at_le_iff:
  assumes "i \<le> length s" "n \<le> length s"
  shows "byte_at s n \<le> byte_at s i \<longleftrightarrow> n \<le> i"
  using byte_at_strict [of i n s] byte_at_mono [of n i s] assms by (metis leD not_le)

lemma skip_below_exact:
  assumes "idx \<le> n" "n \<le> length s"
  shows "skip_below (byte_at s n) (drop idx (char_indices s)) idx = (drop n (char_indices s), n)"
  using assms
proof (induction "n - idx" arbitrary: idx)
  case 0
  then have "idx = n" by simp
  then show ?case
    by (cases "n < length s") (simp_all add: char_indices_eq drop_map upt_conv_Cons del: upt_Suc)
next
  case (Suc d)
  then have i: "idx < n" by simp
  then have head: "drop idx (char_indices s) = (byte_at s idx, s ! idx) # drop (Suc idx) (char_indices s)"
    using Suc.prems(2) by (simp add: char_indices_eq drop_map upt_conv_Cons del: upt_Suc)
  have "\<not> byte_at s n \<le> byte_at s idx" using i Suc.prems(2) by (simp add: byte_at_le_iff)
  moreover have "skip_below (byte_at s n) (drop (Suc idx) (char_indices s)) (Suc idx) = (drop n (char_indices s), n)"
    using Suc i by simp
  ultimately show ?case by (simp add: head)
qed

lemma offsets_loop_exact:
  assumes "sorted (idx # ns)" "\<forall>n \<in> set ns. n \<le> length s"
  shows "offsets_loop (drop idx (char_indices s)) idx (map (byte_at s) ns) = map u32_or_max ns"
  using assms
proof (induction ns arbitrary: idx)
  case (Cons n ns)
  have "idx \<le> n" "n \<le> length s" using Cons.prems by simp_all
  from skip_below_exact [OF this] Cons show ?case by simp
qed simp

lemma byte_to_char_offsets_exact:
  assumes "sorted ns" "\<forall>n \<in> set ns. n \<le> length s"
  shows "byte_to_char_offsets s (map (byte_at s) ns) = map u32_or_max ns"
  using offsets_loop_exact [of 0 ns s] assms by (simp add: byte_to_char_offsets_def)

lemma unat_u32_or_max: "unat (u32_or_max n) = min n (2 ^ 32 - 1)"
  by (auto simp: u32_or_max_def try_u32_def unat_of_nat split: option.splits)

text \<open>A text has no more characters than bytes.\<close>

lemma length_utf8_char_pos: "1 \<le> length (utf8_char c)"
  by (simp add: utf8_char_def)

lemma length_le_bytes: "length s \<le> length (as_bytes s)"
proof (induction s)
  case (Cons c s)
  with length_utf8_char_pos [of c] show ?case by simp
qed simp

definition char_index :: "str \<Rightarrow> nat \<Rightarrow> nat" where
  "char_index s b = length (filter (\<lambda>n. byte_at s n < b) [0..<length s])"

lemma char_index_byte_at:
  assumes "n \<le> length s"
  shows "char_index s (byte_at s n) = n"
proof -
  have "byte_at s i < byte_at s n \<longleftrightarrow> i < n" if "i < length s" for i
    using byte_at_le_iff [of i s n] that assms by (simp flip: not_le)
  then have "filter (\<lambda>i. byte_at s i < byte_at s n) [0..<length s] = filter (\<lambda>i. i < n) [0..<length s]"
    by (intro filter_cong) auto
  moreover have "[0..<length s] = [0..<n] @ [n..<length s]"
    using assms by (metis le_add_diff_inverse upt_add_eq_append zero_le)
  ultimately show ?thesis by (simp add: char_index_def filter_empty_conv del: upt_Suc)
qed

lemma boundary_char_index:
  assumes "boundary s b"
  shows "byte_at s (char_index s b) = b" "char_index s b \<le> length s"
proof -
  obtain n where n: "n \<le> length s" "b = byte_at s n"
    using assms by (auto simp: boundary_def byte_at_def)
  then show "byte_at s (char_index s b) = b" "char_index s b \<le> length s"
    by (simp_all add: char_index_byte_at)
qed

lemma char_index_mono: "boundary s a \<Longrightarrow> boundary s b \<Longrightarrow> char_index s a \<le> char_index s b \<longleftrightarrow> a \<le> b"
  by (metis boundary_char_index byte_at_le_iff)

section \<open>Collection\<close>

lemma raw_matches_ok:
  assumes "engine_ok C E"
  shows "\<forall>m \<in> set (gated_literal_matches E text (provider_matches E text [])). raw_ok text m"
    "\<forall>m \<in> set (url_matches E text []). raw_ok text m"
    "\<forall>m \<in> set (kv_matches E text []). raw_ok text m"
  unfolding gated_literal_matches_def url_matches_def kv_matches_def
  using assms gated_patterns_nonempty
  by (intro push_gated_ok [OF assms] provider_matches_ok [OF assms]; simp)+

definition literal_matches ::
  "regex_engine \<Rightarrow> str \<Rightarrow> 'f mask_config \<Rightarrow> raw_match list" where
  "literal_matches E text config =
     user_matches E text config
       (gated_literal_matches E text (provider_matches E text []) @ url_matches E text [] @
        filter (\<lambda>m. \<not> overlaps_any (rm_start m) (rm_end m) (map raw_span (url_matches E text [])))
          (kv_matches E text []))"

lemma literal_matches_ok:
  assumes "engine_ok C E"
  shows "\<forall>m \<in> set (literal_matches E text config). raw_ok text m"
  unfolding literal_matches_def
  using raw_matches_ok [OF assms] by (intro user_matches_ok [OF assms]) auto

lemma collect_raw_eq:
  "collect_raw prof F E text config =
     high_entropy_matches prof F text config
       (map raw_span (literal_matches E text config) @ data_uri_spans E text)
       (literal_matches E text config)"
  by (simp add: collect_raw_def literal_matches_def Let_def)

lemma collect_raw_exact:
  assumes "engine_ok C E" "valid_str text" "length (as_bytes text) < 2 ^ 32"
  obtains raws where "collect_raw prof F E text config = Some raws"
    "\<forall>m \<in> set raws. raw_ok text m"
    "set (literal_matches E text config) \<subseteq> set raws"
proof -
  obtain ms where ms: "collect_raw prof F E text config = Some (literal_matches E text config @ ms)"
    "\<forall>m. m \<in> set ms \<longleftrightarrow> (\<exists>a b. entropy_hit prof F text config
       (map raw_span (literal_matches E text config) @ data_uri_spans E text) a b \<and> m = entropy_match a b)"
    unfolding collect_raw_eq by (rule high_entropy_matches_exact [OF assms(2,3)])
  have "\<forall>m \<in> set ms. raw_ok text m"
  proof
    fix m assume "m \<in> set ms"
    then obtain a b where "entropy_hit prof F text config
       (map raw_span (literal_matches E text config) @ data_uri_spans E text) a b" "m = entropy_match a b"
      using ms(2) by blast
    then show "raw_ok text m" using entropy_hit_ok [OF assms(2)] by simp
  qed
  then have "\<forall>m \<in> set (literal_matches E text config @ ms). raw_ok text m"
    using literal_matches_ok [OF assms(1)] by auto
  from that [OF ms(1) this] show thesis by simp
qed

section \<open>Detection\<close>

definition to_secret :: "str \<Rightarrow> raw_match \<Rightarrow> secret_match" where
  "to_secret text m =
     \<lparr>sm_kind = rm_kind m, sm_start = u32_or_max (char_index text (rm_start m)),
      sm_end = u32_or_max (char_index text (rm_end m)), sm_confidence = rm_confidence m\<rparr>"

lemma span_bytes_nth:
  "i < length kept \<Longrightarrow> span_bytes kept ! (i * 2) = rm_start (kept ! i) \<and>
     span_bytes kept ! Suc (i * 2) = rm_end (kept ! i)"
proof (induction kept arbitrary: i)
  case (Cons m kept)
  then show ?case by (cases i) (auto simp: span_bytes_def)
qed simp

lemma length_span_bytes: "length (span_bytes kept) = 2 * length kept"
  by (induction kept) (auto simp: span_bytes_def)

lemma set_span_bytes: "set (span_bytes kept) = rm_start ` set kept \<union> rm_end ` set kept"
  by (auto simp: span_bytes_def)

lemma sorted_span_bytes:
  "disjoint_spans kept \<Longrightarrow> \<forall>m \<in> set kept. rm_start m \<le> rm_end m \<Longrightarrow> sorted (span_bytes kept)"
proof (induction kept)
  case (Cons m kept)
  have "rm_end m \<le> x" if "x \<in> set (span_bytes kept)" for x
    using that Cons.prems by (fastforce simp: set_span_bytes disjoint_spans_def)
  with Cons show ?case
    by (fastforce simp: span_bytes_def disjoint_spans_def)
qed (simp add: span_bytes_def)

lemma span_offsets:
  assumes "disjoint_spans kept" "\<forall>m \<in> set kept. raw_ok text m"
  shows "byte_to_char_offsets text (span_bytes kept) =
    map (\<lambda>b. u32_or_max (char_index text b)) (span_bytes kept)"
proof -
  have b: "boundary text x" if "x \<in> set (span_bytes kept)" for x
    using that assms(2) by (auto simp: set_span_bytes raw_ok_def)
  have "sorted (span_bytes kept)"
    using assms by (intro sorted_span_bytes) (auto simp: raw_ok_def less_imp_le)
  then have "sorted (map (char_index text) (span_bytes kept))"
    using b by (auto simp: sorted_map sorted_wrt_iff_nth_less char_index_mono)
  moreover have "map (byte_at text) (map (char_index text) (span_bytes kept)) = span_bytes kept"
    using b by (simp add: map_idI boundary_char_index(1))
  ultimately show ?thesis
    using byte_to_char_offsets_exact [of "map (char_index text) (span_bytes kept)" "text"] b
    by (simp add: boundary_char_index(2) o_def)
qed

lemma detect_secrets_eq:
  assumes "engine_ok C E" "valid_str text" "length (as_bytes text) < 2 ^ 32"
    and "collect_raw prof F E text config = Some raws"
  shows "detect_secrets prof F E text config = Some (map (to_secret text) (merge_non_overlapping raws))"
proof -
  let ?kept = "merge_non_overlapping raws"
  have ok: "\<forall>m \<in> set raws. raw_ok text m"
    using collect_raw_exact [OF assms(1-3), of prof F config] assms(4) by (metis option.inject)
  note laws = merge_laws [of raws]
  have le: "\<forall>m \<in> set raws. rm_start m \<le> rm_end m" using ok by (auto simp: raw_ok_def less_imp_le)
  have off: "byte_to_char_offsets text (span_bytes ?kept) =
      map (\<lambda>b. u32_or_max (char_index text b)) (span_bytes ?kept)"
    using laws(1,2) le ok by (intro span_offsets) auto
  have "map (\<lambda>(i, m). \<lparr>sm_kind = rm_kind m,
        sm_start = byte_to_char_offsets text (span_bytes ?kept) ! (i * 2),
        sm_end = byte_to_char_offsets text (span_bytes ?kept) ! (i * 2 + 1),
        sm_confidence = rm_confidence m\<rparr>) (enumerate 0 ?kept) = map (to_secret text) ?kept"
    by (rule nth_equalityI)
      (auto simp: nth_enumerate_eq off span_bytes_nth length_span_bytes to_secret_def)
  then show ?thesis by (simp add: detect_secrets_def assms(4) Let_def)
qed

lemma is_secret_detect:
  assumes "detect_secrets prof F E text config = Some ms"
  shows "is_secret prof F E text config = Some (ms \<noteq> [])"
proof -
  obtain raws where raws: "collect_raw prof F E text config = Some raws"
    using assms by (cases "collect_raw prof F E text config") (simp_all add: detect_secrets_def)
  have "ms \<noteq> [] \<longleftrightarrow> merge_non_overlapping raws \<noteq> []"
    using assms raws by (auto simp: detect_secrets_def Let_def enumerate_eq_zip split: if_splits)
  then show ?thesis by (simp add: is_secret_def raws merge_Nil_iff)
qed

text \<open>Every result: the whole pipeline against its specification.\<close>

lemma detect_secrets_total:
  assumes "engine_ok C E" "valid_str text" "length (as_bytes text) < 2 ^ 32"
  obtains raws where "collect_raw prof F E text config = Some raws"
    "detect_secrets prof F E text config = Some (map (to_secret text) (merge_non_overlapping raws))"
    "\<forall>m \<in> set raws. raw_ok text m"
    "set (literal_matches E text config) \<subseteq> set raws"
  using collect_raw_exact [OF assms, of prof F config] detect_secrets_eq [OF assms] by metis

lemma unat_char_index:
  assumes "boundary text b" "length (as_bytes text) < 2 ^ 32"
  shows "unat (u32_or_max (char_index text b)) = char_index text b"
proof -
  have "char_index text b \<le> length text" by (rule boundary_char_index(2) [OF assms(1)])
  with assms(2) length_le_bytes [of "text"] show ?thesis by (simp add: unat_u32_or_max)
qed

lemma char_index_less: "boundary s a \<Longrightarrow> boundary s b \<Longrightarrow> a < b \<Longrightarrow> char_index s a < char_index s b"
  using char_index_mono [of s b a] by (simp flip: not_le)

lemma detected_span:
  assumes "raw_ok text m" "length (as_bytes text) < 2 ^ 32"
  shows "unat (sm_start (to_secret text m)) < unat (sm_end (to_secret text m))"
    "unat (sm_end (to_secret text m)) \<le> length text"
  using assms boundary_char_index(2) [of "text" "rm_end m"] char_index_less
  by (simp_all add: to_secret_def raw_ok_def unat_char_index)

lemma detected_disjoint:
  assumes "raw_ok text m" "raw_ok text n" "rm_end m \<le> rm_start n" "length (as_bytes text) < 2 ^ 32"
  shows "unat (sm_end (to_secret text m)) \<le> unat (sm_start (to_secret text n))"
  using assms by (simp add: to_secret_def raw_ok_def unat_char_index char_index_mono)

lemma as_bytes_slice:
  assumes "i \<le> j"
  shows "as_bytes (slice s i j) = slice (as_bytes s) (byte_at s i) (byte_at s j)"
proof -
  have "take j s = take i s @ slice s i j" using assms by (simp add: slice_def flip: take_add)
  then have head: "as_bytes (take j s) = as_bytes (take i s) @ as_bytes (slice s i j)" by simp
  have "as_bytes s = as_bytes (take j s) @ as_bytes (drop j s)"
    by (simp flip: as_bytes_simps(3))
  then show ?thesis by (simp add: slice_def byte_at_def head)
qed

lemma detected_bytes:
  assumes "raw_ok text m" "length (as_bytes text) < 2 ^ 32"
  shows "as_bytes (slice text (unat (sm_start (to_secret text m))) (unat (sm_end (to_secret text m)))) =
    slice (as_bytes text) (rm_start m) (rm_end m)"
proof -
  have b: "boundary text (rm_start m)" "boundary text (rm_end m)" "rm_start m \<le> rm_end m"
    using assms(1) by (auto simp: raw_ok_def)
  then have "char_index text (rm_start m) \<le> char_index text (rm_end m)" by (simp add: char_index_mono)
  with b assms(2) show ?thesis
    by (simp add: to_secret_def unat_char_index as_bytes_slice boundary_char_index(1))
qed

lemma detect_secrets_spans:
  assumes "engine_ok C E" "valid_str text" "length (as_bytes text) < 2 ^ 32"
  shows "\<exists>ms. detect_secrets prof F E text config = Some ms \<and>
    (\<forall>m \<in> set ms. unat (sm_start m) < unat (sm_end m) \<and> unat (sm_end m) \<le> length text) \<and>
    sorted_wrt (\<lambda>m n. unat (sm_end m) \<le> unat (sm_start n)) ms"
proof -
  obtain raws where raws: "detect_secrets prof F E text config =
      Some (map (to_secret text) (merge_non_overlapping raws))" "\<forall>m \<in> set raws. raw_ok text m"
    using detect_secrets_total [OF assms] by metis
  have le: "\<forall>m \<in> set raws. rm_start m \<le> rm_end m" using raws(2) by (auto simp: raw_ok_def less_imp_le)
  have sub: "\<forall>m \<in> set (merge_non_overlapping raws). raw_ok text m"
    using merge_laws(2) [OF le] raws(2) by blast
  have "sorted_wrt (\<lambda>m n. unat (sm_end m) \<le> unat (sm_start n))
      (map (to_secret text) (merge_non_overlapping raws))"
    unfolding sorted_wrt_map
    by (rule sorted_wrt_mono_rel [OF _ merge_laws(1) [OF le, unfolded disjoint_spans_def]])
      (use sub detected_disjoint assms(3) in blast)
  with raws(1) sub show ?thesis using detected_span [OF _ assms(3)] by auto
qed

text \<open>The first character of every raw match lies in a reported span.\<close>

lemma raw_match_covered:
  assumes "engine_ok C E" "valid_str text" "length (as_bytes text) < 2 ^ 32"
    and "collect_raw prof F E text config = Some raws" "m \<in> set raws" "rm_start m = byte_at text n" "n \<le> length text"
  shows "\<exists>ms. detect_secrets prof F E text config = Some ms \<and>
    (\<exists>s \<in> set ms. unat (sm_start s) \<le> n \<and> n < unat (sm_end s))"
proof -
  have raws: "detect_secrets prof F E text config = Some (map (to_secret text) (merge_non_overlapping raws))"
    "\<forall>m \<in> set raws. raw_ok text m"
    using detect_secrets_total [OF assms(1-3), of prof F config] assms(4) by auto
  have le: "\<forall>m \<in> set raws. rm_start m \<le> rm_end m" using raws(2) by (auto simp: raw_ok_def)
  obtain k where k: "k \<in> set (merge_non_overlapping raws)" "beaten_by k m" using merge_laws(3) [OF le assms(5)] by blast
  then have ok: "raw_ok text k" using merge_laws(2) [OF le] raws(2) by blast
  have "rm_start m < rm_end m" using raws(2) assms(5) by (simp add: raw_ok_def)
  then have "rm_start k \<le> byte_at text n" "byte_at text n < rm_end k"
    using k(2) by (auto simp: beaten_by_def not_after_preferred preferred_def assms(6))
  moreover have "boundary text (rm_start k)" "boundary text (rm_end k)" using ok by (simp_all add: raw_ok_def)
  ultimately have "unat (sm_start (to_secret text k)) \<le> n" "n < unat (sm_end (to_secret text k))"
    using char_index_mono [of "text" "rm_start k" "byte_at text n"] char_index_less [of "text" "byte_at text n" "rm_end k"]
      char_index_byte_at [OF assms(7)] assms(3) by (simp_all add: to_secret_def unat_char_index)
  with k(1) raws(1) show ?thesis by auto
qed

text \<open>A provider token is always detected.\<close>

lemma provider_matches_literal: "set (provider_matches E text []) \<subseteq> set (literal_matches E text config)"
  unfolding literal_matches_def gated_literal_matches_def push_gated_def
  using user_matches_subset by fastforce

lemma provider_token_detected:
  assumes "engine_ok C E" "valid_str text" "length (as_bytes text) < 2 ^ 32"
    and "(r, k) \<in> set provider_patterns" "i \<le> length text" "rx_match C r text i q"
  shows "is_secret prof F E text config = Some True"
proof -
  obtain raws where raws: "collect_raw prof F E text config = Some raws"
    "set (literal_matches E text config) \<subseteq> set raws"
    using collect_raw_exact [OF assms(1-3)] by metis
  obtain m where m: "m \<in> set (provider_matches E text [])"
    using provider_found [OF assms(1,4-6), of "[]"] by blast
  then have "m \<in> set (literal_matches E text config)" using provider_matches_literal by blast
  with raws have "raws \<noteq> []" by auto
  then show ?thesis by (simp add: is_secret_def raws(1))
qed

end
