(* ===== verification/Redact_Mask.thy ===== *)
theory Redact_Mask
  imports Redact_Detector
begin

text \<open>
  \<open>redaction/mask.rs\<close>: the verdict and the display string of one text, and how much of a secret
  each style reveals. \<open>None\<close> is a panic of the detector.
\<close>

definition BULLET :: nat where "BULLET = 8226"

record mask_evaluation =
  me_is_secret :: bool
  me_display :: str

fun bullets :: "nat \<Rightarrow> str" where
  "bullets 0 = []"
| "bullets (Suc n) = bullets n @ [BULLET]"

definition keep_prefix :: "str \<Rightarrow> nat \<Rightarrow> nat \<Rightarrow> str" where
  "keep_prefix text keep len =
     (if len \<le> keep then bullets len else take keep text @ bullets (len - keep))"

definition keep_suffix :: "str \<Rightarrow> nat \<Rightarrow> nat \<Rightarrow> str" where
  "keep_suffix text keep len =
     (if len \<le> keep then bullets len else bullets (len - keep) @ drop (len - keep) text)"

definition evaluate ::
  "build_profile \<Rightarrow> 'f f64_ops \<Rightarrow> regex_engine \<Rightarrow> str \<Rightarrow> 'f mask_config \<Rightarrow> mask_evaluation option" where
  "evaluate prof F E text config =
     (case is_secret prof F E text config of
        None \<Rightarrow> None
      | Some secret \<Rightarrow>
          let display =
            if \<not> enabled config \<or> \<not> secret then text
            else let len = length text in
              case style config of
                Full \<Rightarrow> bullets len
              | Prefix2 \<Rightarrow> keep_prefix text 2 len
              | Suffix4 \<Rightarrow> keep_suffix text 4 len
          in Some \<lparr>me_is_secret = secret, me_display = display\<rparr>)"

definition mask ::
  "build_profile \<Rightarrow> 'f f64_ops \<Rightarrow> regex_engine \<Rightarrow> str \<Rightarrow> 'f mask_config \<Rightarrow> str option" where
  "mask prof F E text config =
     (if \<not> enabled config then Some text
      else map_option me_display (evaluate prof F E text config))"

section \<open>Rendering\<close>

lemma bullets_eq: "bullets n = replicate n BULLET"
  by (induction n) (simp_all add: replicate_append_same)

text \<open>The characters a style may show of a text of length \<open>len\<close>.\<close>

fun shown :: "mask_style \<Rightarrow> nat \<Rightarrow> nat \<Rightarrow> bool" where
  "shown Full len i = False"
| "shown Prefix2 len i = (2 < len \<and> i < 2)"
| "shown Suffix4 len i = (4 < len \<and> len - 4 \<le> i)"

definition render :: "mask_style \<Rightarrow> str \<Rightarrow> str" where
  "render st text = map (\<lambda>i. if shown st (length text) i then text ! i else BULLET) [0..<length text]"

lemma render_prefix: "keep_prefix text 2 (length text) = render Prefix2 text"
  by (rule nth_equalityI) (auto simp: keep_prefix_def render_def bullets_eq nth_append)

lemma render_suffix: "keep_suffix text 4 (length text) = render Suffix4 text"
  by (rule nth_equalityI) (auto simp: keep_suffix_def render_def bullets_eq nth_append)

lemma render_full: "bullets (length text) = render Full text"
  by (rule nth_equalityI) (auto simp: render_def bullets_eq)

lemma evaluate_eq:
  "evaluate prof F E text config =
     map_option (\<lambda>secret. \<lparr>me_is_secret = secret,
       me_display = (if enabled config \<and> secret then render (style config) text else text)\<rparr>)
     (is_secret prof F E text config)"
  by (cases "style config")
    (auto simp: evaluate_def render_prefix render_suffix render_full Let_def split: option.splits)

lemma length_render [simp]: "length (render st text) = length text"
  by (simp add: render_def)

lemma render_cong:
  assumes "length s = length t" "\<forall>i < length s. shown st (length s) i \<longrightarrow> s ! i = t ! i"
  shows "render st s = render st t"
  unfolding render_def using assms by auto

lemma shown_count: "length (filter (shown st len) [0..<len]) \<le> 4"
proof (cases st)
  case Prefix2
  have "length (filter (shown st len) [0..<len]) \<le> card {i. i < (2 :: nat)}"
    unfolding distinct_card [OF distinct_filter [OF distinct_upt], symmetric]
    by (rule card_mono) (auto simp: Prefix2)
  then show ?thesis by simp
next
  case Suffix4
  have "length (filter (shown st len) [0..<len]) \<le> card {len - 4..<len}"
    unfolding distinct_card [OF distinct_filter [OF distinct_upt], symmetric]
    by (rule card_mono) (auto simp: Suffix4)
  then show ?thesis by simp
qed simp

lemma is_secret_total:
  assumes "engine_ok C E" "valid_str text" "length (as_bytes text) < 2 ^ 32"
  obtains b where "is_secret prof F E text config = Some b"
  using detect_secrets_total [OF assms, of prof F config] is_secret_detect by metis

end
