(* ===== verification/Core_Error.thy ===== *)
theory Core_Error
  imports Prelude
begin

text \<open>
  \<open>error.rs\<close>: the value-free error categories of the core and their \<open>Display\<close> texts.
\<close>

datatype core_error = InvalidInput | DecryptFailed | UnsupportedFormat | KdfFailed

type_synonym 'a core_result = "(core_error, 'a) result"

fun core_error_display :: "core_error \<Rightarrow> string" where
  "core_error_display InvalidInput = ''invalid input''"
| "core_error_display DecryptFailed = ''decryption failed''"
| "core_error_display UnsupportedFormat = ''unsupported format''"
| "core_error_display KdfFailed = ''key derivation failed''"

lemma core_error_display_inj: "core_error_display a = core_error_display b \<longleftrightarrow> a = b"
  by (cases a; cases b) simp_all

end
