(* ===== verification/Crypto.thy ===== *)
theory Crypto
  imports Core_Error Hex
begin

text \<open>
  \<open>crypto/mod.rs\<close>. The primitives (AES-256-GCM, HMAC-SHA256, HKDF-SHA256, PBKDF2, Unicode NFC)
  live in other crates: they are the fields of a \<open>primitives\<close> record that every operation takes
  as its first argument. What the crates document about them is stated as the predicates
  \<open>aead_ok\<close>, \<open>aead_exact\<close>, \<open>hkdf_ok\<close>, \<open>hmac_ok\<close>, \<open>pbkdf2_ok\<close> and \<open>nfc_ok\<close>; a fallible crate call is an \<open>option\<close>, and
  where the code calls \<open>expect\<close> on it the model panics.
\<close>

record primitives =
  aes_gcm_encrypt :: "bytes \<Rightarrow> bytes \<Rightarrow> bytes \<Rightarrow> bytes option"
  aes_gcm_decrypt :: "bytes \<Rightarrow> bytes \<Rightarrow> bytes \<Rightarrow> bytes option"
  hmac_sha256 :: "bytes \<Rightarrow> bytes \<Rightarrow> bytes option"
  hkdf_sha256_expand :: "bytes \<Rightarrow> bytes \<Rightarrow> nat \<Rightarrow> bytes option"
  pbkdf2_hmac_sha256 :: "bytes \<Rightarrow> bytes \<Rightarrow> u32 \<Rightarrow> nat \<Rightarrow> bytes"
  nfc_normalize :: "str \<Rightarrow> str"

definition NONCE_LEN :: nat where "NONCE_LEN = 12"
definition TAG_LEN :: nat where "TAG_LEN = 16"
definition KEY_LEN :: nat where "KEY_LEN = 32"

lemmas len_defs = NONCE_LEN_def TAG_LEN_def KEY_LEN_def

section \<open>What the crates document\<close>

text \<open>
  AES-GCM: encryption accepts up to \<open>2 ^ 36\<close> bytes and appends a 16-byte tag; decryption under the
  same key and nonce gives the plaintext back.
\<close>

definition AEAD_MAX :: nat where "AEAD_MAX = 2 ^ 36"

definition aead_ok :: "primitives \<Rightarrow> bool" where
  "aead_ok P \<longleftrightarrow>
     (\<forall>k n p. length k = KEY_LEN \<longrightarrow> length n = NONCE_LEN \<longrightarrow>
        (length p \<le> AEAD_MAX \<longrightarrow> aes_gcm_encrypt P k n p \<noteq> None) \<and>
        (\<forall>c. aes_gcm_encrypt P k n p = Some c \<longrightarrow>
           length c = length p + TAG_LEN \<and> aes_gcm_decrypt P k n c = Some p))"

text \<open>
  Decryption checks the tag against the one encryption computes, so what it accepts is the
  ciphertext of what it returns; and in counter mode the ciphertext before the tag determines the
  plaintext.
\<close>

definition aead_exact :: "primitives \<Rightarrow> bool" where
  "aead_exact P \<longleftrightarrow>
     (\<forall>k n. length k = KEY_LEN \<longrightarrow> length n = NONCE_LEN \<longrightarrow>
        (\<forall>c p. length c \<le> AEAD_MAX + TAG_LEN \<longrightarrow> aes_gcm_decrypt P k n c = Some p \<longrightarrow>
           aes_gcm_encrypt P k n p = Some c) \<and>
        (\<forall>p q c d. aes_gcm_encrypt P k n p = Some c \<longrightarrow> aes_gcm_encrypt P k n q = Some d \<longrightarrow>
           take (length c - TAG_LEN) c = take (length d - TAG_LEN) d \<longrightarrow> p = q))"

text \<open>HKDF: a PRK of at least the hash length and an output of at most 255 hash blocks.\<close>

definition hkdf_ok :: "primitives \<Rightarrow> bool" where
  "hkdf_ok P \<longleftrightarrow>
     (\<forall>prk info n. 32 \<le> length prk \<longrightarrow> n \<le> 8160 \<longrightarrow>
        (\<exists>okm. hkdf_sha256_expand P prk info n = Some okm \<and> length okm = n))"

text \<open>HMAC accepts a key of any length; the tag of HMAC-SHA256 has 32 bytes.\<close>

definition hmac_ok :: "primitives \<Rightarrow> bool" where
  "hmac_ok P \<longleftrightarrow> (\<forall>k m. \<exists>t. hmac_sha256 P k m = Some t \<and> length t = 32)"

definition pbkdf2_ok :: "primitives \<Rightarrow> bool" where
  "pbkdf2_ok P \<longleftrightarrow> (\<forall>pw salt rounds n. length (pbkdf2_hmac_sha256 P pw salt rounds n) = n)"

text \<open>
  NFC is the same for canonically equivalent strings. The one equivalence the tests use: a small e
  followed by a combining acute accent is the letter U+00E9.
\<close>

definition nfc_ok :: "primitives \<Rightarrow> bool" where
  "nfc_ok P \<longleftrightarrow> (\<forall>s t. nfc_normalize P (s @ [0x65, 0x301] @ t) = nfc_normalize P (s @ [0xE9] @ t))"

definition primitives_ok :: "primitives \<Rightarrow> bool" where
  "primitives_ok P \<longleftrightarrow> aead_ok P \<and> hkdf_ok P \<and> hmac_ok P \<and> pbkdf2_ok P"

section \<open>Operations\<close>

definition cipher :: "bytes \<Rightarrow> bytes core_result" where
  "cipher key = (if length key \<noteq> KEY_LEN then Err InvalidInput else Ok key)"

definition local_seal :: "primitives \<Rightarrow> bytes \<Rightarrow> bytes \<Rightarrow> bytes \<Rightarrow> bytes core_result" where
  "local_seal P key nonce plaintext =
     rbind (cipher key) (\<lambda>c.
       if length nonce \<noteq> NONCE_LEN then Err InvalidInput
       else rbind (ok_or InvalidInput (aes_gcm_encrypt P c nonce plaintext)) (\<lambda>ct_and_tag.
         Ok (nonce @ ct_and_tag)))"

definition local_open :: "primitives \<Rightarrow> bytes \<Rightarrow> bytes \<Rightarrow> bytes core_result" where
  "local_open P key combined =
     rbind (cipher key) (\<lambda>c.
       if length combined < NONCE_LEN + TAG_LEN then Err DecryptFailed
       else let nonce = take NONCE_LEN combined; ct_and_tag = drop NONCE_LEN combined in
         ok_or DecryptFailed (aes_gcm_decrypt P c nonce ct_and_tag))"

definition hex_lower :: "bytes \<Rightarrow> str" where
  "hex_lower bs = concat (map fmt_02x bs)"

definition content_hash :: "primitives \<Rightarrow> bytes \<Rightarrow> bytes \<Rightarrow> str core_result" where
  "content_hash P key payload =
     (case hmac_sha256 P key payload of
        None \<Rightarrow> Panicked
      | Some tag \<Rightarrow> Ok (hex_lower tag))"

definition hkdf_subkey :: "primitives \<Rightarrow> bytes \<Rightarrow> bytes \<Rightarrow> bytes core_result" where
  "hkdf_subkey P master info =
     (case hkdf_sha256_expand P master info KEY_LEN of
        None \<Rightarrow> Panicked
      | Some okm \<Rightarrow> Ok okm)"

section \<open>The sealed-box contract\<close>

text \<open>
  What the record and vault formats rely on. \<open>good\<close> is the assumption about the primitives.
\<close>

locale sealed_box =
  fixes seal :: "'p \<Rightarrow> bytes \<Rightarrow> bytes \<Rightarrow> bytes \<Rightarrow> bytes core_result"
    and unseal :: "'p \<Rightarrow> bytes \<Rightarrow> bytes \<Rightarrow> bytes core_result"
    and good :: "'p \<Rightarrow> bool"
  assumes seal_total: "good P \<Longrightarrow> length k = 32 \<Longrightarrow> length n = 12 \<Longrightarrow> length p \<le> AEAD_MAX \<Longrightarrow>
      \<exists>b. seal P k n p = Inr b"
    and seal_args: "seal P k n p = Inr b \<Longrightarrow> length k = 32 \<and> length n = 12"
    and seal_layout: "good P \<Longrightarrow> seal P k n p = Inr b \<Longrightarrow> take 12 b = n \<and> length b = length p + 28"
    and unseal_seal: "good P \<Longrightarrow> seal P k n p = Inr b \<Longrightarrow> unseal P k b = Inr p"
    and seal_no_panic: "seal P k n p \<noteq> Inl Panic"
    and unseal_no_panic: "unseal P k b \<noteq> Inl Panic"
begin

lemma seal_inj:
  assumes "good P" "seal P k n p = Inr b" "seal P k m q = Inr b"
  shows "p = q \<and> n = m"
  using unseal_seal [OF assms(1,2)] unseal_seal [OF assms(1,3)]
    seal_layout [OF assms(1,2)] seal_layout [OF assms(1,3)] by simp

lemma seal_error_iff:
  assumes "good P" "length p \<le> AEAD_MAX"
  shows "(\<exists>e. seal P k n p = Inl (Fail e)) \<longleftrightarrow> length k \<noteq> 32 \<or> length n \<noteq> 12"
proof (cases "seal P k n p")
  case (Inl f)
  then obtain e where "f = Fail e" using seal_no_panic [of P k n p] by (cases f) auto
  with Inl seal_total [OF assms(1) _ _ assms(2), of k n] show ?thesis by auto
next
  case (Inr b)
  with seal_args [OF Inr] show ?thesis by simp
qed

end

text \<open>
  The same contract when authentication is exact: the boxes that open are the sealed ones, and
  with everything before the tag given, one tag opens.
\<close>

locale exact_box = sealed_box seal unseal good
  for seal :: "'p \<Rightarrow> bytes \<Rightarrow> bytes \<Rightarrow> bytes \<Rightarrow> bytes core_result"
    and unseal :: "'p \<Rightarrow> bytes \<Rightarrow> bytes \<Rightarrow> bytes core_result"
    and good :: "'p \<Rightarrow> bool" +
  fixes exact :: "'p \<Rightarrow> bool"
  assumes seal_unseal: "exact P \<Longrightarrow> length b \<le> AEAD_MAX + 28 \<Longrightarrow> unseal P k b = Inr p \<Longrightarrow>
      seal P k (take 12 b) p = Inr b"
    and body_fixes_content: "exact P \<Longrightarrow> seal P k n p = Inr b \<Longrightarrow> seal P k n q = Inr c \<Longrightarrow>
      take (length b - 16) b = take (length c - 16) c \<Longrightarrow> p = q"
begin

lemma unseal_iff_sealed:
  assumes "good P" "exact P" "length b \<le> AEAD_MAX + 28"
  shows "unseal P k b = Inr p \<longleftrightarrow> seal P k (take 12 b) p = Inr b"
  using seal_unseal [OF assms(2,3)] unseal_seal [OF assms(1)] by blast

lemma only_one_tag:
  assumes "good P" "exact P" "length b \<le> AEAD_MAX + 28"
    and b: "unseal P k b = Inr p" and c: "unseal P k c = Inr q"
    and "length c = length b" "take (length b - 16) c = take (length b - 16) b"
  shows "c = b"
proof -
  have sb: "seal P k (take 12 b) p = Inr b" using seal_unseal [OF assms(2,3) b] .
  have sc: "seal P k (take 12 c) q = Inr c" using seal_unseal [OF assms(2) _ c] assms(3,6) by simp
  have "12 \<le> length b - 16" using seal_layout [OF assms(1) sb] by simp
  then have front: "take 12 x = take 12 (take (length b - 16) x)" for x :: bytes
    by (simp add: min_absorb1)
  have "take 12 c = take 12 b" by (subst (1 2) front) (simp only: assms(7))
  with sc have sc': "seal P k (take 12 b) q = Inr c" by simp
  then have "p = q" using body_fixes_content [OF assms(2) sb sc'] assms(6,7) by simp
  with sb sc' show ?thesis by simp
qed

end

lemma aead_okD:
  assumes "aead_ok P" "length k = KEY_LEN" "length n = NONCE_LEN" "aes_gcm_encrypt P k n p = Some c"
  shows "length c = length p + TAG_LEN" "aes_gcm_decrypt P k n c = Some p"
  using assms unfolding aead_ok_def by blast+

lemma aead_ok_total:
  assumes "aead_ok P" "length k = KEY_LEN" "length n = NONCE_LEN" "length p \<le> AEAD_MAX"
  shows "\<exists>c. aes_gcm_encrypt P k n p = Some c"
  using assms unfolding aead_ok_def by blast

lemma local_seal_eq_Ok:
  "local_seal P k n p = Inr b \<longleftrightarrow>
     length k = KEY_LEN \<and> length n = NONCE_LEN \<and> (\<exists>c. aes_gcm_encrypt P k n p = Some c \<and> b = n @ c)"
  by (auto simp: local_seal_def cipher_def result_simps)

lemma local_open_eq_Ok:
  "local_open P k b = Inr p \<longleftrightarrow>
     length k = KEY_LEN \<and> 28 \<le> length b \<and>
     aes_gcm_decrypt P k (take NONCE_LEN b) (drop NONCE_LEN b) = Some p"
  by (auto simp: local_open_def cipher_def result_simps Let_def len_defs)

lemma local_open_error: "local_open P k b = Inl e \<Longrightarrow> length k = 32 \<Longrightarrow> e = Fail DecryptFailed"
  by (auto simp: local_open_def cipher_def result_simps Let_def KEY_LEN_def split: if_splits)

lemma local_open_local_seal:
  assumes "aead_ok P" "local_seal P k n p = Inr b"
  shows "local_open P k b = Inr p"
proof -
  from assms(2) obtain c where k: "length k = KEY_LEN" "length n = NONCE_LEN"
    and c: "aes_gcm_encrypt P k n p = Some c" and b: "b = n @ c"
    by (auto simp: local_seal_eq_Ok)
  with aead_okD [OF assms(1) k c] show ?thesis
    by (simp add: local_open_eq_Ok len_defs)
qed

interpretation box: sealed_box local_seal local_open aead_ok
proof
  show "\<exists>b. local_seal P k n p = Inr b"
    if "aead_ok P" "length k = 32" "length n = 12" "length p \<le> AEAD_MAX" for P k n p
    using aead_ok_total [OF that(1), of k n p] that(2-) by (simp add: local_seal_eq_Ok len_defs)
  show "length k = 32 \<and> length n = 12" if "local_seal P k n p = Inr b" for P k n p b
    using that by (simp add: local_seal_eq_Ok len_defs)
  show "take 12 b = n \<and> length b = length p + 28"
    if "aead_ok P" "local_seal P k n p = Inr b" for P k n p b
    using that(2) aead_okD(1) [OF that(1), of k n p]
    by (auto simp: local_seal_eq_Ok len_defs)
  show "local_open P k b = Inr p" if "aead_ok P" "local_seal P k n p = Inr b" for P k n p b
    using that by (rule local_open_local_seal)
  show "local_seal P k n p \<noteq> Inl Panic" for P k n p
    by (simp add: local_seal_def cipher_def result_simps)
  show "local_open P k b \<noteq> Inl Panic" for P k b
    by (simp add: local_open_def cipher_def result_simps Let_def)
qed

lemma aead_exactD:
  assumes "aead_exact P" "length k = KEY_LEN" "length n = NONCE_LEN"
  shows "length c \<le> AEAD_MAX + TAG_LEN \<Longrightarrow> aes_gcm_decrypt P k n c = Some p \<Longrightarrow>
      aes_gcm_encrypt P k n p = Some c"
    and "aes_gcm_encrypt P k n p = Some c \<Longrightarrow> aes_gcm_encrypt P k n q = Some d \<Longrightarrow>
      take (length c - TAG_LEN) c = take (length d - TAG_LEN) d \<Longrightarrow> p = q"
  using assms unfolding aead_exact_def by blast+

interpretation gcm: exact_box local_seal local_open aead_ok aead_exact
proof
  show "local_seal P k (take 12 b) p = Inr b"
    if "aead_exact P" "length b \<le> AEAD_MAX + 28" "local_open P k b = Inr p" for P b k p
  proof -
    have b: "length k = KEY_LEN" "28 \<le> length b" "length (take NONCE_LEN b) = NONCE_LEN"
      and d: "aes_gcm_decrypt P k (take NONCE_LEN b) (drop NONCE_LEN b) = Some p"
      using that(3) by (auto simp: local_open_eq_Ok NONCE_LEN_def)
    have "length (drop NONCE_LEN b) \<le> AEAD_MAX + TAG_LEN" using that(2) by (simp add: len_defs)
    from aead_exactD(1) [OF that(1) b(1,3) this d] b show ?thesis
      by (simp add: local_seal_eq_Ok NONCE_LEN_def)
  qed
  show "p = q" if P: "aead_exact P" and b: "local_seal P k n p = Inr b" and c: "local_seal P k n q = Inr c"
    and same: "take (length b - 16) b = take (length c - 16) c" for P k n p q b c
  proof -
    from b obtain x where x: "length k = KEY_LEN" "length n = NONCE_LEN"
      "aes_gcm_encrypt P k n p = Some x" "b = n @ x" by (auto simp: local_seal_eq_Ok)
    from c obtain y where y: "aes_gcm_encrypt P k n q = Some y" "c = n @ y"
      by (auto simp: local_seal_eq_Ok)
    have "drop (length n) (take (length b - 16) b) = take (length x - TAG_LEN) x"
      unfolding x(4) drop_take by (simp add: TAG_LEN_def)
    moreover have "drop (length n) (take (length c - 16) c) = take (length y - TAG_LEN) y"
      unfolding y(2) drop_take by (simp add: TAG_LEN_def)
    ultimately have "take (length x - TAG_LEN) x = take (length y - TAG_LEN) y" using same by simp
    with aead_exactD(2) [OF P x(1,2,3) y(1)] show ?thesis .
  qed
qed

lemma hkdf_subkey_ok:
  assumes "hkdf_ok P" "length master = KEY_LEN"
  shows "\<exists>sk. hkdf_subkey P master info = Inr sk \<and> length sk = KEY_LEN"
proof -
  have "32 \<le> length master" "KEY_LEN \<le> 8160" using assms(2) by (simp_all add: KEY_LEN_def)
  then obtain okm where "hkdf_sha256_expand P master info KEY_LEN = Some okm" "length okm = KEY_LEN"
    using assms(1) unfolding hkdf_ok_def by blast
  then show ?thesis by (simp add: hkdf_subkey_def)
qed

lemma hex_lower_hex_serialize: "hex_lower = hex_serialize"
  by (rule ext) (simp add: hex_lower_def hex_serialize_def)

lemma content_hash_ok:
  assumes "hmac_ok P"
  shows "\<exists>h. content_hash P key payload = Inr h \<and> length h = 64"
proof -
  from assms obtain t where "hmac_sha256 P key payload = Some t" "length t = 32"
    unfolding hmac_ok_def by blast
  then show ?thesis
    by (simp add: content_hash_def hex_lower_hex_serialize length_hex_serialize)
qed

end
