(* ===== verification/Kdf.thy ===== *)
theory Kdf
  imports Crypto
begin

text \<open>
  \<open>kdf/mod.rs\<close>: the KDF descriptor and the derivation of the vault master key. The passphrase is
  normalised before it is encoded; PBKDF2 and NFC are the primitives of theory Crypto.
\<close>

definition KDF_VERSION :: u32 where "KDF_VERSION = 1"

datatype kdf_kind = Pbkdf2HmacSha256 (kdf_iterations: u32)

record kdf_descriptor =
  kdf_kind :: kdf_kind
  kdf_salt :: bytes
  kdf_version :: u32

definition derive_vault_key :: "primitives \<Rightarrow> str \<Rightarrow> kdf_descriptor \<Rightarrow> bytes core_result" where
  "derive_vault_key P passphrase d =
     (if kdf_version d \<noteq> KDF_VERSION then Err UnsupportedFormat
      else if kdf_salt d = [] then Err KdfFailed
      else let normalized = nfc_normalize P passphrase in
        case kdf_kind d of
          Pbkdf2HmacSha256 iterations \<Rightarrow>
            if iterations > 0
            then Ok (pbkdf2_hmac_sha256 P (as_bytes normalized) (kdf_salt d) iterations KEY_LEN)
            else Err KdfFailed)"

definition kdf_usable :: "kdf_descriptor \<Rightarrow> bool" where
  "kdf_usable d \<longleftrightarrow>
     kdf_version d = KDF_VERSION \<and> kdf_salt d \<noteq> [] \<and> kdf_iterations (kdf_kind d) > 0"

lemma derive_vault_key_cases:
  "derive_vault_key P pw d =
     (if kdf_version d \<noteq> KDF_VERSION then Err UnsupportedFormat
      else if kdf_usable d
        then Ok (pbkdf2_hmac_sha256 P (as_bytes (nfc_normalize P pw)) (kdf_salt d)
                   (kdf_iterations (kdf_kind d)) KEY_LEN)
        else Err KdfFailed)"
  by (auto simp: derive_vault_key_def kdf_usable_def Let_def split: kdf_kind.splits)

lemma derive_vault_key_eq_Ok:
  "derive_vault_key P pw d = Inr k \<longleftrightarrow>
     kdf_usable d \<and>
     k = pbkdf2_hmac_sha256 P (as_bytes (nfc_normalize P pw)) (kdf_salt d)
           (kdf_iterations (kdf_kind d)) KEY_LEN"
  by (auto simp: derive_vault_key_cases kdf_usable_def)

lemma derive_vault_key_length:
  "pbkdf2_ok P \<Longrightarrow> derive_vault_key P pw d = Inr k \<Longrightarrow> length k = KEY_LEN"
  by (simp add: derive_vault_key_eq_Ok pbkdf2_ok_def)

end
