(* ===== verification/Reader.thy ===== *)
theory Reader
  imports Core_Error Rust_Str
begin

text \<open>
  The cursor of \<open>record/canonical.rs\<close> (\<open>struct Reader\<close>) with its read methods, and the contract
  they share: a \<open>field_codec\<close> reads back exactly the bytes its writer produced and nothing else.
  The contract is stated over what is left of the buffer, so that readers compose; it is
  interpreted for the byte, the integer, the length-prefixed bytes and the string.
\<close>

record reader =
  rd_buf :: bytes
  rd_pos :: nat

type_synonym 'a read = "reader \<Rightarrow> ('a \<times> reader) core_result"

definition reader_new :: "bytes \<Rightarrow> reader" where
  "reader_new bs = \<lparr>rd_buf = bs, rd_pos = 0\<rparr>"

definition read_u8 :: "u8 read" where
  "read_u8 r =
     rbind (ok_or UnsupportedFormat (get_at (rd_buf r) (rd_pos r))) (\<lambda>b.
       Ok (b, r\<lparr>rd_pos := rd_pos r + 1\<rparr>))"

definition read_u32 :: "u32 read" where
  "read_u32 r =
     rbind (ok_or UnsupportedFormat (checked_add_usize (rd_pos r) 4)) (\<lambda>end.
       rbind (ok_or UnsupportedFormat (get_range (rd_buf r) (rd_pos r) end)) (\<lambda>sl.
         case u32_from_le_bytes sl of
           None \<Rightarrow> Panicked
         | Some w \<Rightarrow> Ok (w, r\<lparr>rd_pos := end\<rparr>)))"

definition read_bytes :: "bytes read" where
  "read_bytes r =
     rbind (read_u32 r) (\<lambda>(w, r).
       let len = unat w in
       rbind (ok_or UnsupportedFormat (checked_add_usize (rd_pos r) len)) (\<lambda>end.
         rbind (ok_or UnsupportedFormat (get_range (rd_buf r) (rd_pos r) end)) (\<lambda>sl.
           Ok (sl, r\<lparr>rd_pos := end\<rparr>))))"

definition read_string :: "str read" where
  "read_string r =
     rbind (read_bytes r) (\<lambda>(bs, r). rbind (ok_or UnsupportedFormat (from_utf8 bs)) (\<lambda>s. Ok (s, r)))"

text \<open>A counted loop: \<open>for _ in 0..count\<close> around one read, pushing each value.\<close>

fun read_many :: "'a read \<Rightarrow> nat \<Rightarrow> 'a list read" where
  "read_many rd 0 r = Ok ([], r)"
| "read_many rd (Suc n) r =
     rbind (rd r) (\<lambda>(x, r). rbind (read_many rd n r) (\<lambda>(xs, r). Ok (x # xs, r)))"

lemma read_many_Suc_Ok:
  "read_many rd (Suc n) r = Inr (xs, r') \<longleftrightarrow>
     (\<exists>x r1 ys. rd r = Inr (x, r1) \<and> read_many rd n r1 = Inr (ys, r') \<and> xs = x # ys)"
  by (cases "rd r"; simp add: split_beta result_simps) fastforce

lemma read_many_Suc_Inl:
  "read_many rd (Suc n) r = Inl e \<longleftrightarrow>
     rd r = Inl e \<or> (\<exists>x r1. rd r = Inr (x, r1) \<and> read_many rd n r1 = Inl e)"
  by (cases "rd r"; simp add: split_beta result_simps) fastforce

section \<open>The contract\<close>

definition rd_rest :: "reader \<Rightarrow> bytes" where
  "rd_rest r = drop (rd_pos r) (rd_buf r)"

definition rd_valid :: "reader \<Rightarrow> bool" where
  "rd_valid r \<longleftrightarrow> rd_pos r \<le> length (rd_buf r)"

definition rd_advance :: "nat \<Rightarrow> reader \<Rightarrow> reader" where
  "rd_advance n r = r\<lparr>rd_pos := rd_pos r + n\<rparr>"

lemma rd_advance_simps [simp]:
  "rd_buf (rd_advance n r) = rd_buf r"
  "rd_pos (rd_advance n r) = rd_pos r + n"
  "rd_rest (rd_advance n r) = drop n (rd_rest r)"
  "rd_advance m (rd_advance n r) = rd_advance (n + m) r"
  "rd_advance 0 r = r"
  by (simp_all add: rd_advance_def rd_rest_def add.commute)

lemma rd_valid_advance: "rd_valid r \<Longrightarrow> n \<le> length (rd_rest r) \<Longrightarrow> rd_valid (rd_advance n r)"
  by (auto simp: rd_valid_def rd_rest_def)

lemma rd_new_simps [simp]:
  "rd_valid (reader_new bs)" "rd_rest (reader_new bs) = bs" "rd_buf (reader_new bs) = bs"
  "rd_pos (reader_new bs) = 0"
  by (simp_all add: reader_new_def rd_valid_def rd_rest_def)

locale field_codec =
  fixes put :: "'a \<Rightarrow> bytes" and read :: "'a read" and ok :: "'a \<Rightarrow> bool"
  assumes read_put: "rd_valid r \<Longrightarrow> length (rd_buf r) \<le> usize_max \<Longrightarrow> ok x \<Longrightarrow>
      rd_rest r = put x @ t \<Longrightarrow> read r = Inr (x, rd_advance (length (put x)) r)"
    and read_exact: "rd_valid r \<Longrightarrow> read r = Inr (x, r') \<Longrightarrow>
      ok x \<and> r' = rd_advance (length (put x)) r \<and> (\<exists>t. rd_rest r = put x @ t)"
    and read_error: "read r = Inl e \<Longrightarrow> e = Fail UnsupportedFormat"
begin

lemma read_valid: "rd_valid r \<Longrightarrow> read r = Inr (x, r') \<Longrightarrow> rd_valid r'"
  using read_exact [of r x r'] by (auto intro: rd_valid_advance)

lemma read_buf: "rd_valid r \<Longrightarrow> read r = Inr (x, r') \<Longrightarrow> rd_buf r' = rd_buf r"
  using read_exact [of r x r'] by auto

lemma read_no_panic: "read r \<noteq> Inl Panic"
  using read_error by blast

lemma read_rest: "rd_valid r \<Longrightarrow> read r = Inr (x, r') \<Longrightarrow> rd_rest r = put x @ rd_rest r'"
  using read_exact [of r x r'] by auto

text \<open>The counted loop of a field is a field.\<close>

lemma many_put:
  "rd_valid r \<Longrightarrow> length (rd_buf r) \<le> usize_max \<Longrightarrow> list_all ok xs \<Longrightarrow>
   rd_rest r = concat (map put xs) @ t \<Longrightarrow>
   read_many read (length xs) r = Inr (xs, rd_advance (length (concat (map put xs))) r)"
proof (induction xs arbitrary: r)
  case Nil
  show ?case by simp
next
  case (Cons x xs)
  let ?r = "rd_advance (length (put x)) r"
  have rest: "rd_rest r = put x @ concat (map put xs) @ t" using Cons.prems(4) by simp
  have "read r = Inr (x, ?r)"
    using Cons.prems by (intro read_put [OF _ _ _ rest]) simp_all
  moreover have "read_many read (length xs) ?r =
      Inr (xs, rd_advance (length (concat (map put xs))) ?r)"
  proof (rule Cons.IH)
    show "rd_valid ?r" using Cons.prems(1) rest by (intro rd_valid_advance) simp_all
    show "rd_rest ?r = concat (map put xs) @ t" using rest by simp
  qed (use Cons.prems in simp_all)
  ultimately show ?case by simp
qed

lemma many_exact:
  "rd_valid r \<Longrightarrow> read_many read n r = Inr (xs, r') \<Longrightarrow>
   length xs = n \<and> list_all ok xs \<and> r' = rd_advance (length (concat (map put xs))) r \<and>
   (\<exists>t. rd_rest r = concat (map put xs) @ t)"
proof (induction n arbitrary: r xs)
  case 0
  then show ?case by simp
next
  case (Suc n)
  then obtain x r1 ys where x: "read r = Inr (x, r1)" and ys: "read_many read n r1 = Inr (ys, r')"
    and xs: "xs = x # ys" unfolding read_many_Suc_Ok by blast
  from read_exact [OF Suc.prems(1) x] have r1: "ok x" "r1 = rd_advance (length (put x)) r" by simp_all
  from Suc.IH [OF read_valid [OF Suc.prems(1) x] ys] obtain t where
    len: "length ys = n" "list_all ok ys" and r': "r' = rd_advance (length (concat (map put ys))) r1"
    and t: "rd_rest r1 = concat (map put ys) @ t" by blast
  have "r' = rd_advance (length (concat (map put xs))) r" unfolding r' r1(2) xs by simp
  moreover have "rd_rest r = concat (map put xs) @ t"
    unfolding read_rest [OF Suc.prems(1) x] t xs by simp
  ultimately show ?case using len r1(1) unfolding xs by simp
qed

lemma many_error: "read_many read n r = Inl e \<Longrightarrow> e = Fail UnsupportedFormat"
proof (induction n arbitrary: r)
  case 0
  then show ?case by simp
next
  case (Suc n)
  then show ?case unfolding read_many_Suc_Inl using read_error by blast
qed

lemma many_codec:
  "field_codec (\<lambda>xs. concat (map put xs)) (read_many read n)
     (\<lambda>xs. length xs = n \<and> list_all ok xs)"
  by unfold_locales (auto dest: many_put many_exact many_error)

end

section \<open>Interpretations\<close>

definition put_u8 :: "u8 \<Rightarrow> bytes" where "put_u8 b = [b]"

text \<open>\<open>put_bytes\<close>: the length as a truncating \<open>u32\<close>, little endian, then the bytes.\<close>

definition put_bytes :: "bytes \<Rightarrow> bytes \<Rightarrow> bytes" where
  "put_bytes out bs = out @ u32_to_le_bytes (as_u32 (length bs)) @ bs"

definition put_field :: "bytes \<Rightarrow> bytes" where
  "put_field bs = put_bytes [] bs"

definition field_len_ok :: "bytes \<Rightarrow> bool" where
  "field_len_ok bs \<longleftrightarrow> length bs < 2 ^ 32"

definition str_field_ok :: "str \<Rightarrow> bool" where
  "str_field_ok s \<longleftrightarrow> valid_str s \<and> field_len_ok (as_bytes s)"

lemma put_bytes_append: "put_bytes out bs = out @ put_field bs"
  by (simp add: put_field_def put_bytes_def)

lemma length_put_field: "length (put_field bs) = 4 + length bs"
  by (simp add: put_field_def put_bytes_def)

lemma get_range_rest:
  assumes "rd_valid r" "rd_rest r = xs @ t"
  shows "get_range (rd_buf r) (rd_pos r) (rd_pos r + length xs) = Some xs"
proof -
  have "rd_buf r = take (rd_pos r) (rd_buf r) @ xs @ t"
    using assms(2) by (metis append_take_drop_id rd_rest_def)
  moreover have "length (take (rd_pos r) (rd_buf r)) = rd_pos r"
    using assms(1) by (simp add: rd_valid_def)
  ultimately show ?thesis using get_range_append by metis
qed

lemma get_range_rest_Some:
  assumes "get_range (rd_buf r) (rd_pos r) (rd_pos r + n) = Some xs"
  shows "length xs = n \<and> (\<exists>t. rd_rest r = xs @ t)"
proof -
  from assms have xs: "xs = slice (rd_buf r) (rd_pos r) (rd_pos r + n)"
    and b: "rd_pos r + n \<le> length (rd_buf r)" by (auto simp: get_range_eq_Some)
  then have "xs = take n (rd_rest r)" by (simp add: slice_def rd_rest_def)
  moreover have "length xs = n" using b by (simp add: xs)
  ultimately show ?thesis by (metis append_take_drop_id)
qed

lemma checked_add_rest:
  assumes "rd_valid r" "length (rd_buf r) \<le> usize_max" "rd_rest r = xs @ t"
  shows "checked_add_usize (rd_pos r) (length xs) = Some (rd_pos r + length xs)"
proof -
  have "length (rd_rest r) = length (rd_buf r) - rd_pos r" by (simp add: rd_rest_def)
  then have "rd_pos r + length xs \<le> length (rd_buf r)"
    using assms by (simp add: rd_valid_def)
  with assms(2) show ?thesis by (simp add: checked_add_usize_def)
qed

lemma checked_add_usize_eq_Some:
  "checked_add_usize a b = Some c \<longleftrightarrow> a + b \<le> usize_max \<and> c = a + b"
  by (auto simp: checked_add_usize_def)

lemma rd_advance_pos: "r\<lparr>rd_pos := rd_pos r + n\<rparr> = rd_advance n r"
  by (simp add: rd_advance_def)

interpretation u8_field: field_codec put_u8 read_u8 "\<lambda>_. True"
proof
  show "read_u8 r = Inr (x, rd_advance (length (put_u8 x)) r)"
    if "rd_valid r" "rd_rest r = put_u8 x @ t" for r x t
  proof -
    have e: "drop (rd_pos r) (rd_buf r) = x # t" using that by (simp add: rd_rest_def put_u8_def)
    then have lt: "rd_pos r < length (rd_buf r)" by (metis drop_all list.distinct(1) not_le)
    moreover have "rd_buf r ! rd_pos r = x" using hd_drop_conv_nth [OF lt] e by simp
    ultimately show ?thesis by (simp add: read_u8_def get_at_def put_u8_def rd_advance_def)
  qed
  show "True \<and> r' = rd_advance (length (put_u8 x)) r \<and> (\<exists>t. rd_rest r = put_u8 x @ t)"
    if "rd_valid r" "read_u8 r = Inr (x, r')" for r x r'
    using that by (auto simp: read_u8_def result_simps get_at_eq_Some put_u8_def rd_advance_def
        rd_rest_def Cons_nth_drop_Suc [symmetric])
  show "e = Fail UnsupportedFormat" if "read_u8 r = Inl e" for r e
    using that by (auto simp: read_u8_def result_simps)
qed

interpretation u32_field: field_codec u32_to_le_bytes read_u32 "\<lambda>_. True"
proof
  show "read_u32 r = Inr (x, rd_advance (length (u32_to_le_bytes x)) r)"
    if "rd_valid r" "length (rd_buf r) \<le> usize_max" "rd_rest r = u32_to_le_bytes x @ t" for r x t
    using checked_add_rest [OF that] get_range_rest [OF that(1,3)]
    by (simp add: read_u32_def rd_advance_pos)
  show "True \<and> r' = rd_advance (length (u32_to_le_bytes x)) r \<and>
      (\<exists>t. rd_rest r = u32_to_le_bytes x @ t)"
    if "rd_valid r" "read_u32 r = Inr (x, r')" for r x r'
  proof -
    from that(2) obtain sl where g: "get_range (rd_buf r) (rd_pos r) (rd_pos r + 4) = Some sl"
      and w: "u32_from_le_bytes sl = Some x" and r': "r' = rd_advance 4 r"
      by (auto simp: read_u32_def result_simps checked_add_usize_eq_Some rd_advance_def
          split: option.splits)
    from get_range_rest_Some [OF g] u32_to_from_le_bytes [OF w] r' show ?thesis by auto
  qed
  show "e = Fail UnsupportedFormat" if "read_u32 r = Inl e" for r e
  proof -
    have "u32_from_le_bytes sl \<noteq> None" if "get_range (rd_buf r) (rd_pos r) (rd_pos r + 4) = Some sl" for sl
      using get_range_rest_Some [OF that] u32_from_le_bytes_total [of sl] by auto
    with that show ?thesis
      by (auto simp: read_u32_def result_simps checked_add_usize_eq_Some split: option.splits)
  qed
qed

interpretation bytes_field: field_codec put_field read_bytes field_len_ok
proof
  have len: "length (put_field x) = 4 + length x" for x by (rule length_put_field)
  show "read_bytes r = Inr (x, rd_advance (length (put_field x)) r)"
    if v: "rd_valid r" and m: "length (rd_buf r) \<le> usize_max" and ok: "field_len_ok x"
      and t: "rd_rest r = put_field x @ t" for r x t
  proof -
    let ?w = "as_u32 (length x)" and ?r = "rd_advance 4 r"
    have e: "rd_rest r = u32_to_le_bytes ?w @ x @ t" using t by (simp add: put_field_def put_bytes_def)
    have w: "read_u32 r = Inr (?w, ?r)" using u32_field.read_put [OF v m _ e] by simp
    have v': "rd_valid ?r" using v e by (intro rd_valid_advance) simp_all
    have e': "rd_rest ?r = x @ t" using e by simp
    have u: "unat ?w = length x" using ok by (simp add: field_len_ok_def unat_as_u32_id)
    have m': "length (rd_buf ?r) \<le> usize_max" using m by simp
    show ?thesis
      using checked_add_rest [OF v' m' e'] get_range_rest [OF v' e']
      by (simp add: read_bytes_def w u Let_def len rd_advance_def)
  qed
  show "field_len_ok x \<and> r' = rd_advance (length (put_field x)) r \<and>
      (\<exists>t. rd_rest r = put_field x @ t)"
    if v: "rd_valid r" and ok: "read_bytes r = Inr (x, r')" for r x r'
  proof -
    from ok obtain w r1 where w: "read_u32 r = Inr (w, r1)"
      and g: "get_range (rd_buf r1) (rd_pos r1) (rd_pos r1 + unat w) = Some x"
      and r': "r' = rd_advance (unat w) r1"
      by (auto simp: read_bytes_def Let_def result_simps checked_add_usize_eq_Some rd_advance_def)
    from get_range_rest_Some [OF g] obtain t where l: "length x = unat w" and t: "rd_rest r1 = x @ t"
      by blast
    have p: "put_field x = u32_to_le_bytes w @ x" by (simp add: put_field_def put_bytes_def l)
    have r1: "r1 = rd_advance 4 r" using u32_field.read_exact [OF v w] by simp
    have "rd_rest r = put_field x @ t" using u32_field.read_rest [OF v w] t p by simp
    moreover have "field_len_ok x" using l unat_u32_less [of w] by (simp add: field_len_ok_def)
    ultimately show ?thesis using r' r1 l len by simp
  qed
  show "e = Fail UnsupportedFormat" if "read_bytes r = Inl e" for r e
    using that u32_field.read_error
    by (auto simp: read_bytes_def Let_def result_simps)
qed

definition put_string :: "str \<Rightarrow> bytes" where
  "put_string s = put_field (as_bytes s)"

interpretation string_field: field_codec put_string read_string str_field_ok
proof
  show "read_string r = Inr (x, rd_advance (length (put_string x)) r)"
    if "rd_valid r" "length (rd_buf r) \<le> usize_max" "str_field_ok x" "rd_rest r = put_string x @ t"
    for r x t
    using that bytes_field.read_put [of r "as_bytes x" t]
    by (simp add: read_string_def put_string_def str_field_ok_def from_utf8_as_bytes)
  show "str_field_ok x \<and> r' = rd_advance (length (put_string x)) r \<and>
      (\<exists>t. rd_rest r = put_string x @ t)"
    if v: "rd_valid r" and ok: "read_string r = Inr (x, r')" for r x r'
  proof -
    from ok obtain bs where b: "read_bytes r = Inr (bs, r')" and u: "from_utf8 bs = Some x"
      by (auto simp: read_string_def result_simps)
    show ?thesis using bytes_field.read_exact [OF v b] from_utf8_Some [OF u]
      by (auto simp: put_string_def str_field_ok_def)
  qed
  show "e = Fail UnsupportedFormat" if "read_string r = Inl e" for r e
    using that bytes_field.read_error by (auto simp: read_string_def result_simps)
qed

end
