(* ===== verification/Canonical.thy ===== *)
theory Canonical
  imports Reader
begin

text \<open>
  \<open>record/canonical.rs\<close>: the binary layout of a record's plaintext. \<open>encode_plaintext\<close> appends
  field by field, \<open>decode_plaintext\<close> walks a cursor; \<open>encodable\<close> says which plaintexts survive
  the trip.
\<close>

record record_representation =
  uttype :: str
  rep_data :: bytes

record record_plaintext =
  title :: str
  primary_type :: str
  source_bundle :: "str option"
  is_color_code :: bool
  representations :: "record_representation list"

definition MAX_REPRESENTATIONS :: u32 where "MAX_REPRESENTATIONS = 4096"

section \<open>Operations\<close>

definition put_rep :: "bytes \<Rightarrow> record_representation \<Rightarrow> bytes" where
  "put_rep out rep = put_bytes (put_bytes out (as_bytes (uttype rep))) (rep_data rep)"

definition encode_plaintext :: "record_plaintext \<Rightarrow> bytes" where
  "encode_plaintext p =
     (let out = put_bytes [] (as_bytes (title p));
          out = put_bytes out (as_bytes (primary_type p));
          out = (case source_bundle p of
                   Some s \<Rightarrow> put_bytes (out @ [1]) (as_bytes s)
                 | None \<Rightarrow> out @ [0]);
          out = out @ [if is_color_code p then 1 else 0];
          out = out @ u32_to_le_bytes (as_u32 (length (representations p)))
      in foldl put_rep out (representations p))"

definition read_flag_string :: "str option read" where
  "read_flag_string r =
     rbind (read_u8 r) (\<lambda>(flag, r).
       if flag = 0 then Ok (None, r)
       else if flag = 1 then rbind (read_string r) (\<lambda>(s, r). Ok (Some s, r))
       else Err UnsupportedFormat)"

definition read_flag :: "bool read" where
  "read_flag r =
     rbind (read_u8 r) (\<lambda>(flag, r).
       if flag = 0 then Ok (False, r)
       else if flag = 1 then Ok (True, r)
       else Err UnsupportedFormat)"

definition read_rep :: "record_representation read" where
  "read_rep r =
     rbind (read_string r) (\<lambda>(u, r).
       rbind (read_bytes r) (\<lambda>(d, r). Ok (\<lparr>uttype = u, rep_data = d\<rparr>, r)))"

definition decode_plaintext :: "bytes \<Rightarrow> record_plaintext core_result" where
  "decode_plaintext bs =
     (let r = reader_new bs in
      rbind (read_string r) (\<lambda>(t, r).
      rbind (read_string r) (\<lambda>(pt, r).
      rbind (read_flag_string r) (\<lambda>(sb, r).
      rbind (read_flag r) (\<lambda>(cc, r).
      rbind (read_u32 r) (\<lambda>(count, r).
        if count > MAX_REPRESENTATIONS then Err UnsupportedFormat
        else rbind (read_many read_rep (unat count) r) (\<lambda>(reps, r).
          if rd_pos r \<noteq> length bs then Err UnsupportedFormat
          else Ok \<lparr>title = t, primary_type = pt, source_bundle = sb, is_color_code = cc,
                   representations = reps\<rparr>)))))))"

section \<open>The fields of the layout\<close>

definition rep_bytes :: "record_representation \<Rightarrow> bytes" where
  "rep_bytes rep = put_string (uttype rep) @ put_field (rep_data rep)"

definition bundle_bytes :: "str option \<Rightarrow> bytes" where
  "bundle_bytes sb = (case sb of None \<Rightarrow> [0] | Some s \<Rightarrow> 1 # put_string s)"

definition flag_bytes :: "bool \<Rightarrow> bytes" where
  "flag_bytes b = [if b then 1 else 0]"

definition rep_ok :: "record_representation \<Rightarrow> bool" where
  "rep_ok rep \<longleftrightarrow> str_field_ok (uttype rep) \<and> field_len_ok (rep_data rep)"

definition encodable :: "record_plaintext \<Rightarrow> bool" where
  "encodable p \<longleftrightarrow>
     str_field_ok (title p) \<and> str_field_ok (primary_type p) \<and>
     pred_option str_field_ok (source_bundle p) \<and>
     length (representations p) \<le> 4096 \<and> list_all rep_ok (representations p)"

lemma foldl_put_rep: "foldl put_rep out reps = out @ concat (map rep_bytes reps)"
  by (induction reps arbitrary: out)
     (simp_all add: put_rep_def rep_bytes_def put_bytes_append put_string_def)

lemma encode_plaintext_layout:
  "encode_plaintext p =
     put_string (title p) @ put_string (primary_type p) @ bundle_bytes (source_bundle p) @
     flag_bytes (is_color_code p) @ u32_to_le_bytes (as_u32 (length (representations p))) @
     concat (map rep_bytes (representations p))"
  by (simp add: encode_plaintext_def Let_def foldl_put_rep put_bytes_append put_string_def
      bundle_bytes_def flag_bytes_def split: option.splits)

interpretation flag_field: field_codec flag_bytes read_flag "\<lambda>_. True"
proof
  show "read_flag r = Inr (x, rd_advance (length (flag_bytes x)) r)"
    if "rd_valid r" "length (rd_buf r) \<le> usize_max" "rd_rest r = flag_bytes x @ t" for r x t
    using u8_field.read_put [OF that(1,2), of "if x then 1 else 0" t] that(3)
    by (simp add: read_flag_def flag_bytes_def put_u8_def)
  show "True \<and> r' = rd_advance (length (flag_bytes x)) r \<and> (\<exists>t. rd_rest r = flag_bytes x @ t)"
    if v: "rd_valid r" and ok: "read_flag r = Inr (x, r')" for r x r'
  proof -
    from ok obtain b where b: "read_u8 r = Inr (b, r')" and x: "b = (if x then 1 else 0)"
      by (auto simp: read_flag_def result_simps split: if_splits)
    from u8_field.read_exact [OF v b] show ?thesis by (simp add: flag_bytes_def put_u8_def x)
  qed
  show "e = Fail UnsupportedFormat" if "read_flag r = Inl e" for r e
    using that u8_field.read_error by (auto simp: read_flag_def result_simps split: if_splits)
qed

interpretation bundle_field: field_codec bundle_bytes read_flag_string "pred_option str_field_ok"
proof
  show "read_flag_string r = Inr (x, rd_advance (length (bundle_bytes x)) r)"
    if v: "rd_valid r" and m: "length (rd_buf r) \<le> usize_max" and ok: "pred_option str_field_ok x"
      and t: "rd_rest r = bundle_bytes x @ t" for r x t
  proof (cases x)
    case None
    then show ?thesis using u8_field.read_put [OF v m, of 0 t] t
      by (simp add: read_flag_string_def bundle_bytes_def put_u8_def)
  next
    case (Some s)
    let ?r = "rd_advance 1 r"
    have e: "rd_rest r = put_u8 1 @ put_string s @ t" using t by (simp add: Some bundle_bytes_def put_u8_def)
    have f: "read_u8 r = Inr (1, ?r)" using u8_field.read_put [OF v m _ e] by (simp add: put_u8_def)
    have "rd_valid ?r" by (rule u8_field.read_valid [OF v f])
    then have "read_string ?r = Inr (s, rd_advance (length (put_string s)) ?r)"
      using m ok e by (intro string_field.read_put) (simp_all add: Some put_u8_def)
    with f show ?thesis by (simp add: read_flag_string_def bundle_bytes_def Some)
  qed
  show "pred_option str_field_ok x \<and> r' = rd_advance (length (bundle_bytes x)) r \<and>
      (\<exists>t. rd_rest r = bundle_bytes x @ t)"
    if v: "rd_valid r" and ok: "read_flag_string r = Inr (x, r')" for r x r'
  proof -
    from ok consider "read_u8 r = Inr (0, r')" "x = None"
      | r1 s where "read_u8 r = Inr (1, r1)" "read_string r1 = Inr (s, r')" "x = Some s"
      by (auto simp: read_flag_string_def result_simps split: if_splits)
    then show ?thesis
    proof cases
      case 1
      from u8_field.read_exact [OF v 1(1)] 1(2) show ?thesis
        by (simp add: bundle_bytes_def put_u8_def)
    next
      case 2
      from string_field.read_exact [OF u8_field.read_valid [OF v 2(1)] 2(2)]
        u8_field.read_exact [OF v 2(1)] u8_field.read_rest [OF v 2(1)] 2(3)
      show ?thesis by (auto simp: bundle_bytes_def put_u8_def simp del: rd_advance_simps(3))
    qed
  qed
  show "e = Fail UnsupportedFormat" if "read_flag_string r = Inl e" for r e
    using that u8_field.read_error string_field.read_error
    by (auto simp: read_flag_string_def result_simps split: if_splits)
qed

interpretation rep_field: field_codec rep_bytes read_rep rep_ok
proof
  show "read_rep r = Inr (x, rd_advance (length (rep_bytes x)) r)"
    if v: "rd_valid r" and m: "length (rd_buf r) \<le> usize_max" and ok: "rep_ok x"
      and t: "rd_rest r = rep_bytes x @ t" for r x t
  proof -
    let ?r = "rd_advance (length (put_string (uttype x))) r"
    have e: "rd_rest r = put_string (uttype x) @ put_field (rep_data x) @ t"
      using t by (simp add: rep_bytes_def)
    have s: "read_string r = Inr (uttype x, ?r)"
      using ok by (intro string_field.read_put [OF v m _ e]) (simp add: rep_ok_def)
    have "rd_valid ?r" by (rule string_field.read_valid [OF v s])
    then have "read_bytes ?r = Inr (rep_data x, rd_advance (length (put_field (rep_data x))) ?r)"
      using m ok e by (intro bytes_field.read_put) (simp_all add: rep_ok_def)
    with s show ?thesis by (simp add: read_rep_def rep_bytes_def)
  qed
  show "rep_ok x \<and> r' = rd_advance (length (rep_bytes x)) r \<and> (\<exists>t. rd_rest r = rep_bytes x @ t)"
    if v: "rd_valid r" and ok: "read_rep r = Inr (x, r')" for r x r'
  proof -
    from ok obtain u d r1 where u: "read_string r = Inr (u, r1)" and d: "read_bytes r1 = Inr (d, r')"
      and x: "x = \<lparr>uttype = u, rep_data = d\<rparr>"
      by (auto simp: read_rep_def result_simps)
    note e1 = string_field.read_exact [OF v u] and v1 = string_field.read_valid [OF v u]
    note e2 = bytes_field.read_exact [OF v1 d] and rest = string_field.read_rest [OF v u]
    have "rep_ok x" using e1 e2 by (simp add: rep_ok_def x)
    moreover have "\<exists>t. rd_rest r = rep_bytes x @ t"
      unfolding rest rep_bytes_def x using e2 by auto
    moreover have "r' = rd_advance (length (rep_bytes x)) r"
      using e1 e2 by (simp add: rep_bytes_def x)
    ultimately show ?thesis by blast
  qed
  show "e = Fail UnsupportedFormat" if "read_rep r = Inl e" for r e
    using that string_field.read_error bytes_field.read_error
    by (auto simp: read_rep_def result_simps)
qed

section \<open>Round trip and canonicity\<close>

lemma length_rep_bytes: "rep_ok rep \<Longrightarrow> length (rep_bytes rep) \<le> 8589934598"
  by (auto simp: rep_ok_def str_field_ok_def field_len_ok_def rep_bytes_def put_string_def
      length_put_field)

lemma length_concat_reps:
  "list_all rep_ok reps \<Longrightarrow> length (concat (map rep_bytes reps)) \<le> length reps * 8589934598"
  by (induction reps) (auto dest!: length_rep_bytes)

lemma encode_plaintext_length:
  assumes "encodable p"
  shows "length (encode_plaintext p) \<le> usize_max"
proof -
  let ?n = "length (representations p)"
  have str: "length (put_string s) \<le> 4294967299" if "str_field_ok s" for s
    using that by (simp add: str_field_ok_def field_len_ok_def put_string_def length_put_field)
  have "length (bundle_bytes (source_bundle p)) \<le> 4294967300"
    using assms str by (cases "source_bundle p") (auto simp: encodable_def bundle_bytes_def)
  moreover have "length (concat (map rep_bytes (representations p))) \<le> ?n * 8589934598"
    by (rule length_concat_reps) (use assms in \<open>simp add: encodable_def\<close>)
  moreover have "?n * 8589934598 \<le> 4096 * 8589934598"
    using assms by (intro mult_right_mono) (simp_all add: encodable_def)
  moreover have "length (put_string (title p)) \<le> 4294967299"
    "length (put_string (primary_type p)) \<le> 4294967299"
    using assms str by (simp_all add: encodable_def)
  ultimately show ?thesis
    by (simp add: encode_plaintext_layout flag_bytes_def usize_max_def)
qed

lemma unat_MAX_REPRESENTATIONS [simp]: "unat MAX_REPRESENTATIONS = 4096"
  by (simp add: MAX_REPRESENTATIONS_def)

lemma count_within_cap:
  "n < 2 ^ 32 \<Longrightarrow> as_u32 n > MAX_REPRESENTATIONS \<longleftrightarrow> n > 4096"
  by (simp add: word_less_nat_alt unat_as_u32_id)

lemma with_reps:
  "\<lparr>title = title p, primary_type = primary_type p, source_bundle = source_bundle p,
    is_color_code = is_color_code p, representations = reps\<rparr> = p\<lparr>representations := reps\<rparr>"
  by simp

text \<open>Decoding an encoding reaches the representation count with the cursor in front of them.\<close>

lemma decode_to_count:
  assumes ok: "str_field_ok (title p)" "str_field_ok (primary_type p)"
      "pred_option str_field_ok (source_bundle p)"
    and len: "length (encode_plaintext p) \<le> usize_max"
  obtains r where "rd_valid r" "rd_buf r = encode_plaintext p"
    "rd_rest r = concat (map rep_bytes (representations p))"
    "decode_plaintext (encode_plaintext p) =
       (if as_u32 (length (representations p)) > MAX_REPRESENTATIONS then Err UnsupportedFormat
        else rbind (read_many read_rep (unat (as_u32 (length (representations p)))) r) (\<lambda>(reps, r).
          if rd_pos r \<noteq> length (encode_plaintext p) then Err UnsupportedFormat
          else Ok (p\<lparr>representations := reps\<rparr>)))"
proof -
  let ?bs = "encode_plaintext p" and ?n = "length (representations p)"
  let ?tail = "concat (map rep_bytes (representations p))"
  define r0 where "r0 = reader_new ?bs"
  define r1 where "r1 = rd_advance (length (put_string (title p))) r0"
  define r2 where "r2 = rd_advance (length (put_string (primary_type p))) r1"
  define r3 where "r3 = rd_advance (length (bundle_bytes (source_bundle p))) r2"
  define r4 where "r4 = rd_advance (length (flag_bytes (is_color_code p))) r3"
  define r5 where "r5 = rd_advance (length (u32_to_le_bytes (as_u32 ?n))) r4"
  note rdefs = r0_def r1_def r2_def r3_def r4_def r5_def
  have m: "length (rd_buf r0) \<le> usize_max" "length (rd_buf r1) \<le> usize_max"
    "length (rd_buf r2) \<le> usize_max" "length (rd_buf r3) \<le> usize_max"
    "length (rd_buf r4) \<le> usize_max"
    using len by (simp_all add: rdefs)
  have e0: "rd_rest r0 = put_string (title p) @ put_string (primary_type p) @
      bundle_bytes (source_bundle p) @ flag_bytes (is_color_code p) @
      u32_to_le_bytes (as_u32 ?n) @ ?tail"
    by (simp add: r0_def encode_plaintext_layout)
  have v0: "rd_valid r0" by (simp add: r0_def)
  have s0: "read_string r0 = Inr (title p, r1)"
    unfolding r1_def by (rule string_field.read_put [OF v0 m(1) ok(1) e0])
  note v1 = string_field.read_valid [OF v0 s0]
  have e1: "rd_rest r1 = put_string (primary_type p) @ bundle_bytes (source_bundle p) @
      flag_bytes (is_color_code p) @ u32_to_le_bytes (as_u32 ?n) @ ?tail"
    using string_field.read_rest [OF v0 s0] e0 by simp
  have s1: "read_string r1 = Inr (primary_type p, r2)"
    unfolding r2_def by (rule string_field.read_put [OF v1 m(2) ok(2) e1])
  note v2 = string_field.read_valid [OF v1 s1]
  have e2: "rd_rest r2 = bundle_bytes (source_bundle p) @
      flag_bytes (is_color_code p) @ u32_to_le_bytes (as_u32 ?n) @ ?tail"
    using string_field.read_rest [OF v1 s1] e1 by simp
  have s2: "read_flag_string r2 = Inr (source_bundle p, r3)"
    unfolding r3_def by (rule bundle_field.read_put [OF v2 m(3) ok(3) e2])
  note v3 = bundle_field.read_valid [OF v2 s2]
  have e3: "rd_rest r3 = flag_bytes (is_color_code p) @ u32_to_le_bytes (as_u32 ?n) @ ?tail"
    using bundle_field.read_rest [OF v2 s2] e2 by simp
  have s3: "read_flag r3 = Inr (is_color_code p, r4)"
    unfolding r4_def by (rule flag_field.read_put [OF v3 m(4) TrueI e3])
  note v4 = flag_field.read_valid [OF v3 s3]
  have e4: "rd_rest r4 = u32_to_le_bytes (as_u32 ?n) @ ?tail"
    using flag_field.read_rest [OF v3 s3] e3 by simp
  have s4: "read_u32 r4 = Inr (as_u32 ?n, r5)"
    unfolding r5_def by (rule u32_field.read_put [OF v4 m(5) TrueI e4])
  show thesis
  proof (rule that [OF u32_field.read_valid [OF v4 s4]])
    show "rd_buf r5 = ?bs" by (simp add: rdefs)
    show "rd_rest r5 = ?tail" using u32_field.read_rest [OF v4 s4] e4 by simp
  qed (unfold decode_plaintext_def Let_def r0_def [symmetric], simp add: s0 s1 s2 s3 s4 with_reps cong: if_cong)
qed

lemma decode_encode_plaintext:
  assumes p: "encodable p"
  shows "decode_plaintext (encode_plaintext p) = Inr p"
proof -
  let ?n = "length (representations p)" and ?tail = "concat (map rep_bytes (representations p))"
  have ok: "str_field_ok (title p)" "str_field_ok (primary_type p)"
    "pred_option str_field_ok (source_bundle p)" "?n \<le> 4096" "list_all rep_ok (representations p)"
    using p by (simp_all add: encodable_def)
  from decode_to_count [OF ok(1-3) encode_plaintext_length [OF p]] obtain r
    where v: "rd_valid r" and buf: "rd_buf r = encode_plaintext p" and rest: "rd_rest r = ?tail"
      and eq: "decode_plaintext (encode_plaintext p) =
       (if as_u32 ?n > MAX_REPRESENTATIONS then Err UnsupportedFormat
        else rbind (read_many read_rep (unat (as_u32 ?n)) r) (\<lambda>(reps, r).
          if rd_pos r \<noteq> length (encode_plaintext p) then Err UnsupportedFormat
          else Ok (p\<lparr>representations := reps\<rparr>)))" .
  have "rd_rest r = ?tail @ []" using rest by simp
  then have "read_many read_rep ?n r = Inr (representations p, rd_advance (length ?tail) r)"
    using encode_plaintext_length [OF p] ok(5) buf by (intro rep_field.many_put [OF v]) simp_all
  moreover have "rd_pos r + length ?tail = length (encode_plaintext p)"
    using v unfolding rest [symmetric] buf [symmetric] by (simp add: rd_rest_def rd_valid_def)
  moreover have "\<not> as_u32 ?n > MAX_REPRESENTATIONS" "unat (as_u32 ?n) = ?n"
    using ok(4) count_within_cap [of ?n] unat_as_u32_id [of ?n] by auto
  ultimately show ?thesis unfolding eq by simp
qed

text \<open>The decoder's cap is not enforced by the encoder.\<close>

lemma decode_over_cap:
  assumes "str_field_ok (title p)" "str_field_ok (primary_type p)"
      "pred_option str_field_ok (source_bundle p)"
    and "length (encode_plaintext p) \<le> usize_max"
    and "4096 < length (representations p)" "length (representations p) < 2 ^ 32"
  shows "decode_plaintext (encode_plaintext p) = Err UnsupportedFormat"
  using decode_to_count [OF assms(1-4)] assms(5,6) by (auto simp: count_within_cap)

lemma decode_plaintext_exact:
  assumes "decode_plaintext bs = Inr p"
  shows "encode_plaintext p = bs \<and> encodable p"
proof -
  define r0 where "r0 = reader_new bs"
  have v0: "rd_valid r0" by (simp add: r0_def)
  from assms obtain t r1 pt r2 sb r3 cc r4 count r5 reps r6
    where s0: "read_string r0 = Inr (t, r1)" and s1: "read_string r1 = Inr (pt, r2)"
    and s2: "read_flag_string r2 = Inr (sb, r3)" and s3: "read_flag r3 = Inr (cc, r4)"
    and s4: "read_u32 r4 = Inr (count, r5)" and cap: "\<not> count > MAX_REPRESENTATIONS"
    and s5: "read_many read_rep (unat count) r5 = Inr (reps, r6)" and pos: "rd_pos r6 = length bs"
    and p: "p = \<lparr>title = t, primary_type = pt, source_bundle = sb, is_color_code = cc,
                 representations = reps\<rparr>"
    unfolding decode_plaintext_def Let_def r0_def [symmetric]
    by (auto simp: result_simps split: if_splits)
  note v1 = string_field.read_valid [OF v0 s0]
  note v2 = string_field.read_valid [OF v1 s1]
  note v3 = bundle_field.read_valid [OF v2 s2]
  note v4 = flag_field.read_valid [OF v3 s3]
  note v5 = u32_field.read_valid [OF v4 s4]
  note many = rep_field.many_exact [OF v5 s5]
  note rests = string_field.read_rest [OF v0 s0] string_field.read_rest [OF v1 s1]
    bundle_field.read_rest [OF v2 s2] flag_field.read_rest [OF v3 s3] u32_field.read_rest [OF v4 s4]
  have n: "length reps = unat count" and oks: "list_all rep_ok reps" using many by simp_all
  from many obtain tl where r5: "rd_rest r5 = concat (map rep_bytes reps) @ tl"
    and r6: "r6 = rd_advance (length (concat (map rep_bytes reps))) r5" by blast
  have bufs: "rd_buf r5 = bs"
    using string_field.read_buf [OF v0 s0] string_field.read_buf [OF v1 s1]
      bundle_field.read_buf [OF v2 s2] flag_field.read_buf [OF v3 s3] u32_field.read_buf [OF v4 s4]
    by (simp add: r0_def)
  have "length (rd_rest r5) = length bs - rd_pos r5" by (simp add: rd_rest_def bufs)
  moreover have "rd_pos r5 + length (concat (map rep_bytes reps)) = length bs"
    using pos unfolding r6 by simp
  moreover have "length (rd_rest r5) = length (concat (map rep_bytes reps)) + length tl"
    unfolding r5 by (rule length_append)
  ultimately have tl: "tl = []" by (metis add_diff_cancel_left' add_cancel_right_right length_0_conv)
  have "bs = rd_rest r0" by (simp add: r0_def)
  also have "\<dots> = encode_plaintext p"
    unfolding rests r5 tl encode_plaintext_layout p by (simp add: n)
  finally have "encode_plaintext p = bs" by simp
  moreover have "length reps \<le> 4096" using cap n by (simp add: word_less_nat_alt)
  then have "encodable p"
    using string_field.read_exact [OF v0 s0] string_field.read_exact [OF v1 s1]
      bundle_field.read_exact [OF v2 s2] oks by (simp add: encodable_def p)
  ultimately show ?thesis by blast
qed

lemma decode_plaintext_error:
  assumes "decode_plaintext bs = Inl e"
  shows "e = Fail UnsupportedFormat"
proof -
  have "read_many read_rep n r = Inl e \<Longrightarrow> e = Fail UnsupportedFormat" for n r
    by (rule rep_field.many_error)
  with assms show ?thesis
    by (auto simp: decode_plaintext_def result_simps split: if_splits
        dest: string_field.read_error bundle_field.read_error flag_field.read_error
          u32_field.read_error)
qed

interpretation plaintext: exact_codec encode_plaintext decode_plaintext encodable
  by unfold_locales (rule decode_encode_plaintext decode_plaintext_exact; assumption)+

end
