(* ===== verification/Uuid.thy ===== *)
theory Uuid
  imports Rust_Sort Rust_Int
begin

text \<open>
  \<open>uuid::Uuid\<close> as the program uses it: a 128-bit value whose \<open>as_bytes\<close> are its sixteen bytes,
  most significant first. Comparing the bytes lexicographically is a total order.
\<close>

type_synonym uuid = "128 word"

definition uuid_as_bytes :: "uuid \<Rightarrow> bytes" where
  "uuid_as_bytes u = map (\<lambda>i. ucast (drop_bit (120 - 8 * i) u)) [0..<16]"

definition uuid_bytes_cmp :: "uuid \<Rightarrow> uuid \<Rightarrow> ordering" where
  "uuid_bytes_cmp a b = list_cmp cmp (uuid_as_bytes a) (uuid_as_bytes b)"

lemma length_uuid_as_bytes [simp]: "length (uuid_as_bytes u) = 16"
  by (simp add: uuid_as_bytes_def)

lemma uuid_as_bytes_bit:
  assumes "n < 128"
  shows "bit u n \<longleftrightarrow> bit (uuid_as_bytes u ! (15 - n div 8)) (n mod 8)"
proof -
  have i: "15 - n div 8 < 16" by simp
  have d: "120 - 8 * (15 - n div 8) = 8 * (n div 8)"
    using assms by (auto simp: div_less_iff_less_mult)
  have "8 * (n div 8) + n mod 8 = n" by simp
  then show ?thesis
    using i d by (simp add: uuid_as_bytes_def bit_ucast_iff bit_drop_bit_eq)
qed

lemma inj_uuid_as_bytes: "inj uuid_as_bytes"
proof (rule injI)
  fix a b assume e: "uuid_as_bytes a = uuid_as_bytes b"
  show "a = b"
    by (rule bit_word_eqI) (simp add: uuid_as_bytes_bit [where u = a] uuid_as_bytes_bit [where u = b] e)
qed

interpretation uuid_cmp: total_comparator uuid_bytes_cmp
  unfolding uuid_bytes_cmp_def
  by (rule total_comparator_key [OF ord.list_cmp_total inj_uuid_as_bytes])

end
