(* ===== verification/Record_Format.thy ===== *)
theory Record_Format
  imports Kdf Canonical Uuid
begin

text \<open>
  \<open>record/mod.rs\<close> and \<open>record/version.rs\<close>: the frozen wire types, sealing and opening of record
  bodies under a vault subkey, the vault manifest with its verifier, and the \<open>.cclip\<close> envelope.

  JSON is the work of \<open>serde_json\<close> and of the code \<open>serde_derive\<close> generates; it is the
  \<open>json_text\<close> record of functions. The manifest functions take the encoder and the decoder of
  the \<open>serde(with = "crate::hexutil")\<close> fields as arguments, because the generated code calls
  them; \<open>json_ok\<close> states the documented round trip of the two.
\<close>

definition RECORD_FORMAT_VERSION :: u32 where "RECORD_FORMAT_VERSION = 1"
definition VAULT_FORMAT_VERSION :: u32 where "VAULT_FORMAT_VERSION = 1"
definition DEVICE_FORMAT_VERSION :: u32 where "DEVICE_FORMAT_VERSION = 1"

definition INFO_CCLIP :: bytes where "INFO_CCLIP = blit ''clipysi/v1/cclip''"
definition INFO_DEDUPE :: bytes where "INFO_DEDUPE = blit ''clipysi/v1/dedupe''"
definition VERIFIER_PLAINTEXT :: bytes where
  "VERIFIER_PLAINTEXT = blit ''clipysi-vault-verifier-v1''"

section \<open>Wire types\<close>

record hlc =
  wall_millis :: i64
  counter :: u32
  node :: uuid

record record_header =
  format_version :: u32
  record_id :: uuid
  origin_device_id :: uuid
  hdr_hlc :: hlc
  created_at :: i64
  updated_at :: i64
  deleted :: bool
  sync_hash :: str

record record_envelope =
  header :: record_header
  body :: "bytes option"

record vault_manifest =
  vm_format_version :: u32
  vault_id :: uuid
  vm_created_at :: i64
  vm_kdf :: kdf_descriptor
  verifier :: bytes

record device_descriptor =
  dd_format_version :: u32
  device_id :: uuid
  display_name :: str
  platform :: str
  last_seen :: i64

section \<open>JSON text\<close>

record json_text =
  header_to_vec :: "record_header \<Rightarrow> bytes option"
  header_from_slice :: "bytes \<Rightarrow> record_header option"
  manifest_to_vec :: "(bytes \<Rightarrow> str) \<Rightarrow> vault_manifest \<Rightarrow> bytes option"
  manifest_from_slice ::
    "(str \<Rightarrow> (hex_error, bytes) result) \<Rightarrow> bytes \<Rightarrow> (unit, vault_manifest) result"

definition header_json_ok :: "json_text \<Rightarrow> bool" where
  "header_json_ok J \<longleftrightarrow>
     (\<forall>h. valid_str (sync_hash h) \<longrightarrow>
        (\<exists>bs. header_to_vec J h = Some bs \<and> header_from_slice J bs = Some h))"

text \<open>
  Decoding what was encoded runs the field decoder on the two hex strings, the salt first, and
  stores what it returns; a failure or a panic of the field decoder is the result.
\<close>

definition manifest_json_ok :: "json_text \<Rightarrow> bool" where
  "manifest_json_ok J \<longleftrightarrow>
     (\<forall>ser m. (\<forall>b. valid_str (ser b)) \<longrightarrow>
        (\<exists>bs. manifest_to_vec J ser m = Some bs \<and>
           (\<forall>de. manifest_from_slice J de bs =
              rbind (map_err (\<lambda>_. ()) (de (ser (kdf_salt (vm_kdf m))))) (\<lambda>salt.
              rbind (map_err (\<lambda>_. ()) (de (ser (verifier m)))) (\<lambda>ver.
                Ok (m\<lparr>vm_kdf := (vm_kdf m)\<lparr>kdf_salt := salt\<rparr>, verifier := ver\<rparr>))))))"

definition json_ok :: "json_text \<Rightarrow> bool" where
  "json_ok J \<longleftrightarrow> header_json_ok J \<and> manifest_json_ok J"

section \<open>Sealing records\<close>

definition as_key32 :: "bytes \<Rightarrow> bytes core_result" where
  "as_key32 key = (if length key = KEY_LEN then Ok key else Err InvalidInput)"

definition record_format_version :: u32 where
  "record_format_version = RECORD_FORMAT_VERSION"

definition seal_record :: "primitives \<Rightarrow> bytes \<Rightarrow> bytes \<Rightarrow> record_plaintext \<Rightarrow> bytes core_result" where
  "seal_record P vault_key nonce plaintext =
     rbind (as_key32 vault_key) (\<lambda>master.
     rbind (hkdf_subkey P master INFO_CCLIP) (\<lambda>cclip.
       local_seal P cclip nonce (encode_plaintext plaintext)))"

definition open_record :: "primitives \<Rightarrow> bytes \<Rightarrow> bytes \<Rightarrow> record_plaintext core_result" where
  "open_record P vault_key sealed =
     rbind (as_key32 vault_key) (\<lambda>master.
     rbind (hkdf_subkey P master INFO_CCLIP) (\<lambda>cclip.
     rbind (local_open P cclip sealed) decode_plaintext))"

definition compute_sync_hash :: "primitives \<Rightarrow> bytes \<Rightarrow> bytes \<Rightarrow> str core_result" where
  "compute_sync_hash P vault_key canonical_payload =
     rbind (as_key32 vault_key) (\<lambda>master.
     rbind (hkdf_subkey P master INFO_DEDUPE) (\<lambda>dedupe.
       content_hash P dedupe canonical_payload))"

section \<open>The vault manifest\<close>

definition make_vault_manifest ::
  "primitives \<Rightarrow> bytes \<Rightarrow> uuid \<Rightarrow> i64 \<Rightarrow> kdf_descriptor \<Rightarrow> bytes \<Rightarrow> vault_manifest core_result" where
  "make_vault_manifest P vault_key vid created kd verifier_nonce =
     rbind (as_key32 vault_key) (\<lambda>master.
     rbind (hkdf_subkey P master INFO_CCLIP) (\<lambda>cclip.
     rbind (local_seal P cclip verifier_nonce VERIFIER_PLAINTEXT) (\<lambda>v.
       Ok \<lparr>vm_format_version = VAULT_FORMAT_VERSION, vault_id = vid, vm_created_at = created,
           vm_kdf = kd, verifier = v\<rparr>)))"

definition verify_passphrase :: "primitives \<Rightarrow> bytes \<Rightarrow> vault_manifest \<Rightarrow> bool core_result" where
  "verify_passphrase P vault_key manifest =
     (case as_key32 vault_key of
        Inl _ \<Rightarrow> Ok False
      | Inr master \<Rightarrow>
          rbind (hkdf_subkey P master INFO_CCLIP) (\<lambda>cclip.
            case local_open P cclip (verifier manifest) of
              Inl Panic \<Rightarrow> Panicked
            | Inl (Fail _) \<Rightarrow> Ok False
            | Inr pt \<Rightarrow> Ok (pt = VERIFIER_PLAINTEXT)))"

definition encode_vault_manifest :: "json_text \<Rightarrow> vault_manifest \<Rightarrow> bytes core_result" where
  "encode_vault_manifest J manifest =
     (case manifest_to_vec J hex_serialize manifest of
        None \<Rightarrow> Panicked
      | Some bs \<Rightarrow> Ok bs)"

definition decode_vault_manifest :: "json_text \<Rightarrow> bytes \<Rightarrow> vault_manifest core_result" where
  "decode_vault_manifest J bs =
     rbind (map_err (\<lambda>_. UnsupportedFormat) (manifest_from_slice J hex_deserialize bs)) (\<lambda>manifest.
       if vm_format_version manifest \<noteq> VAULT_FORMAT_VERSION then Err UnsupportedFormat
       else Ok manifest)"

section \<open>The envelope\<close>

definition encode_envelope :: "json_text \<Rightarrow> record_envelope \<Rightarrow> bytes core_result" where
  "encode_envelope J env =
     (case header_to_vec J (header env) of
        None \<Rightarrow> Panicked
      | Some header_json \<Rightarrow>
          let out = u32_to_le_bytes (as_u32 (length header_json));
              out = out @ header_json
          in Ok (case body env of
                   Some b \<Rightarrow> out @ [1] @ b
                 | None \<Rightarrow> out @ [0]))"

definition decode_body :: "bytes \<Rightarrow> nat \<Rightarrow> u8 \<Rightarrow> bytes option core_result" where
  "decode_body bs header_end has_body =
     (if has_body = 0 then Ok None
      else if has_body = 1 then
        rmap Some (ok_or UnsupportedFormat (get_range bs (header_end + 1) (length bs)))
      else Err UnsupportedFormat)"

definition decode_envelope :: "json_text \<Rightarrow> bytes \<Rightarrow> record_envelope core_result" where
  "decode_envelope J bs =
     (if length bs < 5 then Err UnsupportedFormat
      else case u32_from_le_bytes (slice bs 0 4) of
        None \<Rightarrow> Panicked
      | Some w \<Rightarrow>
          let header_len = unat w in
          rbind (ok_or UnsupportedFormat (checked_add_usize 4 header_len)) (\<lambda>header_end.
          rbind (ok_or UnsupportedFormat (get_range bs 4 header_end)) (\<lambda>header_bytes.
          rbind (ok_or UnsupportedFormat (header_from_slice J header_bytes)) (\<lambda>h.
            if format_version h \<noteq> RECORD_FORMAT_VERSION then Err UnsupportedFormat
            else rbind (ok_or UnsupportedFormat (get_at bs header_end)) (\<lambda>has_body.
              rbind (decode_body bs header_end has_body) (\<lambda>b.
                if (b \<noteq> None) = deleted h then Err UnsupportedFormat
                else Ok \<lparr>header = h, body = b\<rparr>))))))"

section \<open>Envelope facts\<close>

definition env_wf :: "record_envelope \<Rightarrow> bool" where
  "env_wf env \<longleftrightarrow>
     format_version (header env) = RECORD_FORMAT_VERSION \<and>
     (body env = None \<longleftrightarrow> deleted (header env))"

definition flagged_body :: "u8 \<Rightarrow> bytes \<Rightarrow> bytes option core_result" where
  "flagged_body flag rest =
     (if flag = 0 then Ok None else if flag = 1 then Ok (Some rest) else Err UnsupportedFormat)"

definition check_envelope :: "record_header \<Rightarrow> bytes option \<Rightarrow> record_envelope core_result" where
  "check_envelope h b =
     (if format_version h \<noteq> RECORD_FORMAT_VERSION \<or> (b \<noteq> None) = deleted h
      then Err UnsupportedFormat else Ok \<lparr>header = h, body = b\<rparr>)"

lemma check_envelope_eq_Ok:
  "check_envelope h b = Inr env \<longleftrightarrow> env = \<lparr>header = h, body = b\<rparr> \<and> env_wf env"
  by (auto simp: check_envelope_def env_wf_def)

lemma get_range_prefix: "get_range (xs @ ys @ zs) (length xs) (length xs + length ys) = Some ys"
  by (rule get_range_append)

text \<open>Decoding bytes that are laid out as an envelope.\<close>

lemma decode_envelope_layout:
  assumes bs: "bs = u32_to_le_bytes w @ hj @ flag # rest" and w: "unat w = length hj"
    and len: "length bs \<le> usize_max"
  shows "decode_envelope J bs =
     rbind (ok_or UnsupportedFormat (header_from_slice J hj)) (\<lambda>h.
       rbind (flagged_body flag rest) (check_envelope h))"
proof -
  have l4: "length (u32_to_le_bytes w) = 4" by simp
  have s: "slice bs 0 4 = u32_to_le_bytes w" by (simp add: bs slice_def)
  have c: "checked_add_usize 4 (unat w) = Some (4 + length hj)"
    using len by (simp add: w bs checked_add_usize_def)
  have g: "get_range bs 4 (4 + length hj) = Some hj"
    unfolding bs using get_range_prefix [of "u32_to_le_bytes w" hj "flag # rest"] by (simp only: l4)
  have a: "get_at bs (4 + length hj) = Some flag" by (simp add: bs get_at_def nth_append)
  have b: "decode_body bs (4 + length hj) flag = flagged_body flag rest"
    by (simp add: bs decode_body_def flagged_body_def get_range_def slice_def)
  have n: "\<not> length bs < 5" by (simp add: bs)
  show ?thesis
    by (cases "header_from_slice J hj")
       (auto simp: decode_envelope_def n s c g a b flagged_body_def check_envelope_def Let_def)
qed

lemma decode_envelope_parts:
  assumes "decode_envelope J bs = Inr env"
  shows "\<exists>w hj h flag b. u32_from_le_bytes (slice bs 0 4) = Some w \<and>
    get_range bs 4 (4 + unat w) = Some hj \<and> header_from_slice J hj = Some h \<and>
    format_version h = RECORD_FORMAT_VERSION \<and> get_at bs (4 + unat w) = Some flag \<and>
    decode_body bs (4 + unat w) flag = Inr b \<and> (b \<noteq> None) \<noteq> deleted h \<and>
    env = \<lparr>header = h, body = b\<rparr> \<and> 4 \<le> length bs"
proof -
  have len: "\<not> length bs < 5" using assms by (auto simp: decode_envelope_def)
  obtain w where w: "u32_from_le_bytes (slice bs 0 4) = Some w"
    using assms len by (auto simp: decode_envelope_def split: option.splits)
  from assms obtain hj h where hj: "get_range bs 4 (4 + unat w) = Some hj"
    "header_from_slice J hj = Some h" and v: "format_version h = RECORD_FORMAT_VERSION"
    and rest: "rbind (ok_or UnsupportedFormat (get_at bs (4 + unat w))) (\<lambda>has_body.
              rbind (decode_body bs (4 + unat w) has_body) (\<lambda>b.
                if (b \<noteq> None) = deleted h then Err UnsupportedFormat
                else Ok \<lparr>header = h, body = b\<rparr>)) = Inr env"
    by (auto simp: decode_envelope_def len w Let_def rbind_eq_Ok [of "ok_or _ _"] ok_or_eq_Ok
        checked_add_usize_eq_Some split: if_splits)
  from rest obtain flag b where f: "get_at bs (4 + unat w) = Some flag"
    "decode_body bs (4 + unat w) flag = Inr b"
    and c: "(if (b \<noteq> None) = deleted h then Err UnsupportedFormat
                else Ok \<lparr>header = h, body = b\<rparr>) = Inr env"
    unfolding rbind_eq_Ok ok_or_eq_Ok by blast
  have "(b \<noteq> None) \<noteq> deleted h" "env = \<lparr>header = h, body = b\<rparr>" using c by (auto split: if_splits)
  moreover have "4 \<le> length bs" using len by simp
  ultimately show ?thesis using w hj v f by blast
qed

lemma decode_envelope_eq_Ok:
  assumes "decode_envelope J bs = Inr env"
  obtains w hj flag rest where
    "bs = u32_to_le_bytes w @ hj @ flag # rest" "unat w = length hj"
    "header_from_slice J hj = Some (header env)"
    "flagged_body flag rest = Inr (body env)" "env_wf env"
proof -
  from assms obtain w hj h flag b where w: "u32_from_le_bytes (slice bs 0 4) = Some w"
    and g: "get_range bs 4 (4 + unat w) = Some hj" and h: "header_from_slice J hj = Some h"
    and v: "format_version h = RECORD_FORMAT_VERSION" and f: "get_at bs (4 + unat w) = Some flag"
    and b: "decode_body bs (4 + unat w) flag = Inr b" and d: "(b \<noteq> None) \<noteq> deleted h"
    and env: "env = \<lparr>header = h, body = b\<rparr>" and len: "4 \<le> length bs"
    using decode_envelope_parts [OF assms] by blast
  let ?rest = "drop (5 + unat w) bs"
  from g have hj: "hj = slice bs 4 (4 + unat w)" and l: "4 + unat w \<le> length bs"
    by (auto simp: get_range_eq_Some)
  from f have fl: "4 + unat w < length bs" "flag = bs ! (4 + unat w)" by (auto simp: get_at_eq_Some)
  have "bs = slice bs 0 4 @ slice bs 4 (4 + unat w) @ slice bs (4 + unat w) (5 + unat w) @ ?rest"
    by (simp add: slice_slice_append append_assoc [symmetric] del: append_assoc)
       (simp add: slice_def)
  moreover have "slice bs (4 + unat w) (5 + unat w) = [flag]"
    using slice_Suc [OF fl(1)] fl(2) by simp
  moreover have "slice bs 0 4 = u32_to_le_bytes w" using u32_to_from_le_bytes [OF w] by simp
  ultimately have lay: "bs = u32_to_le_bytes w @ hj @ flag # ?rest" by (simp add: hj)
  have lw: "unat w = length hj" using l by (simp add: hj)
  have "flagged_body flag ?rest = Inr b"
    using b by (auto simp: decode_body_def flagged_body_def result_simps get_range_eq_Some
        slice_def split: if_splits)
  moreover have "env_wf env" using v d by (auto simp: env_wf_def env)
  ultimately show thesis using that [OF lay lw] h by (simp add: env)
qed

lemma decode_envelope_error:
  assumes "decode_envelope J bs = Inl e"
  shows "e = Fail UnsupportedFormat"
proof -
  have "5 \<le> length bs \<Longrightarrow> u32_from_le_bytes (slice bs 0 4) \<noteq> None"
    using u32_from_le_bytes_total [of "slice bs 0 4"] by auto
  with assms show ?thesis
    by (auto simp: decode_envelope_def decode_body_def Let_def result_simps
        split: if_splits option.splits)
qed

text \<open>An encoder output decodes to the envelope exactly when the envelope is well formed.\<close>

lemma decode_encode_envelope:
  assumes J: "header_json_ok J" and s: "valid_str (sync_hash (header env))"
    and enc: "encode_envelope J env = Inr bs"
    and small: "length bs < 2 ^ 32"
  shows "decode_envelope J bs = (if env_wf env then Ok env else Err UnsupportedFormat)"
proof -
  from J s obtain hj where hj: "header_to_vec J (header env) = Some hj"
    "header_from_slice J hj = Some (header env)"
    unfolding header_json_ok_def by blast
  define flag :: u8 where "flag = (if body env = None then 0 else 1)"
  define rest where "rest = (case body env of None \<Rightarrow> [] | Some b \<Rightarrow> b)"
  have bs: "bs = u32_to_le_bytes (as_u32 (length hj)) @ hj @ flag # rest"
    using enc hj by (auto simp: encode_envelope_def Let_def flag_def rest_def split: option.splits)
  have w: "unat (as_u32 (length hj)) = length hj" using small bs by (simp add: unat_as_u32_id)
  have "length bs \<le> usize_max" using small by (simp add: usize_max_def)
  note dec = decode_envelope_layout [OF bs w this, of J]
  have "flagged_body flag rest = Ok (body env)"
    by (auto simp: flagged_body_def flag_def rest_def split: option.splits)
  then show ?thesis
    by (cases env) (auto simp: dec hj check_envelope_def env_wf_def)
qed

lemma tombstone_trailing:
  assumes J: "header_json_ok J" and s: "valid_str (sync_hash (header env))"
    and enc: "encode_envelope J env = Inr bs" and t: "body env = None" and wf: "env_wf env"
    and small: "length bs + length junk < 2 ^ 32"
  shows "decode_envelope J (bs @ junk) = Ok env"
proof -
  from J s obtain hj where hj: "header_to_vec J (header env) = Some hj"
    "header_from_slice J hj = Some (header env)"
    unfolding header_json_ok_def by blast
  have bs: "bs @ junk = u32_to_le_bytes (as_u32 (length hj)) @ hj @ 0 # junk"
    using enc hj t by (auto simp: encode_envelope_def Let_def)
  have "length bs = 5 + length hj" using enc hj t by (auto simp: encode_envelope_def Let_def)
  then have w: "unat (as_u32 (length hj)) = length hj"
    using small by (simp add: unat_as_u32_id)
  have "length (bs @ junk) \<le> usize_max" using small by (simp add: usize_max_def)
  note dec = decode_envelope_layout [OF bs w this, of J]
  show ?thesis using wf t by (cases env) (auto simp: dec hj flagged_body_def check_envelope_def env_wf_def)
qed

section \<open>Sealed values\<close>

text \<open>A sealed box around a codec: the record component's view of the crypto component.\<close>

locale sealed_codec = sealed_box seal unseal good + exact_codec enc dec ok
  for seal :: "'p \<Rightarrow> bytes \<Rightarrow> bytes \<Rightarrow> bytes \<Rightarrow> bytes core_result"
    and unseal :: "'p \<Rightarrow> bytes \<Rightarrow> bytes \<Rightarrow> bytes core_result" and good :: "'p \<Rightarrow> bool"
    and enc :: "'a \<Rightarrow> bytes" and dec :: "bytes \<Rightarrow> 'a core_result" and ok :: "'a \<Rightarrow> bool"
begin

lemma open_sealed:
  "good P \<Longrightarrow> seal P k n (enc x) = Inr b \<Longrightarrow> rbind (unseal P k b) dec = dec (enc x)"
  by (simp add: unseal_seal)

lemma open_sealed_ok:
  "good P \<Longrightarrow> ok x \<Longrightarrow> seal P k n (enc x) = Inr b \<Longrightarrow> rbind (unseal P k b) dec = Inr x"
  by (simp add: open_sealed dec_enc)

lemma open_canonical:
  "rbind (unseal P k b) dec = Inr x \<Longrightarrow> unseal P k b = Inr (enc x) \<and> ok x"
  by (auto simp: result_simps dest: enc_dec)

end

interpretation sealed_record:
  sealed_codec local_seal local_open aead_ok encode_plaintext decode_plaintext encodable
  by unfold_locales

lemma as_key32_eq_Ok [result_simps]: "as_key32 key = Inr k \<longleftrightarrow> length key = 32 \<and> k = key"
  by (auto simp: as_key32_def KEY_LEN_def)

lemma as_key32_eq_Inl [result_simps]:
  "as_key32 key = Inl e \<longleftrightarrow> length key \<noteq> 32 \<and> e = Fail InvalidInput"
  by (auto simp: as_key32_def KEY_LEN_def)

text \<open>With a 32-byte vault key the subkey exists and both directions use the same one.\<close>

lemma vault_subkey:
  assumes "hkdf_ok P" "length vk = 32"
  obtains sk where "length sk = 32" "hkdf_subkey P vk info = Inr sk"
  using hkdf_subkey_ok [OF assms(1), of vk info] assms(2) by (auto simp: KEY_LEN_def)

lemma seal_record_unfold:
  "length vk = 32 \<Longrightarrow> hkdf_subkey P vk INFO_CCLIP = Inr sk \<Longrightarrow>
   seal_record P vk nonce p = local_seal P sk nonce (encode_plaintext p)"
  by (simp add: seal_record_def as_key32_def KEY_LEN_def)

lemma open_record_unfold:
  "length vk = 32 \<Longrightarrow> hkdf_subkey P vk INFO_CCLIP = Inr sk \<Longrightarrow>
   open_record P vk b = rbind (local_open P sk b) decode_plaintext"
  by (simp add: open_record_def as_key32_def KEY_LEN_def)

lemma seal_record_Ok:
  assumes "seal_record P vk nonce p = Inr b"
  obtains sk where "length vk = 32" "hkdf_subkey P vk INFO_CCLIP = Inr sk"
    "local_seal P sk nonce (encode_plaintext p) = Inr b"
  using assms by (auto simp: seal_record_def result_simps)

lemma open_record_seal_record:
  assumes P: "aead_ok P" and b: "seal_record P vk nonce p = Inr b"
  shows "open_record P vk b = decode_plaintext (encode_plaintext p)"
proof -
  from b obtain sk where sk: "length vk = 32" "hkdf_subkey P vk INFO_CCLIP = Inr sk"
    and l: "local_seal P sk nonce (encode_plaintext p) = Inr b" by (rule seal_record_Ok)
  show ?thesis
    unfolding open_record_unfold [OF sk] by (rule sealed_record.open_sealed [OF P l])
qed

text \<open>Under exact authentication the bodies that open are the sealed ones, with one tag each.\<close>

lemma open_record_iff_sealed:
  assumes "aead_ok P" "aead_exact P" "hkdf_ok P" "length b \<le> AEAD_MAX + 28"
  shows "open_record P vk b = Inr p \<longleftrightarrow> encodable p \<and> seal_record P vk (take 12 b) p = Inr b"
proof (cases "length vk = 32")
  case True
  obtain sk where sk: "hkdf_subkey P vk INFO_CCLIP = Inr sk" by (rule vault_subkey [OF assms(3) True])
  have dec: "decode_plaintext pt = Inr p \<longleftrightarrow> encodable p \<and> pt = encode_plaintext p" for pt
    using decode_plaintext_exact decode_encode_plaintext by blast
  have "open_record P vk b = Inr p \<longleftrightarrow> encodable p \<and> local_open P sk b = Inr (encode_plaintext p)"
    unfolding open_record_unfold [OF True sk] by (cases "local_open P sk b") (auto simp: dec)
  then show ?thesis
    unfolding seal_record_unfold [OF True sk] gcm.unseal_iff_sealed [OF assms(1,2,4)] .
qed (simp add: open_record_def seal_record_def as_key32_def KEY_LEN_def)

lemma open_record_changed_tag:
  assumes "aead_ok P" "aead_exact P" "hkdf_ok P" "length b \<le> AEAD_MAX + 28"
    and "open_record P vk b = Inr p" "length c = length b"
    and "take (length b - 16) c = take (length b - 16) b" "c \<noteq> b"
  shows "open_record P vk c = Err DecryptFailed"
proof -
  have k: "length vk = 32" using assms(5) by (auto simp: open_record_def result_simps)
  obtain sk where sk: "length sk = 32" "hkdf_subkey P vk INFO_CCLIP = Inr sk"
    by (rule vault_subkey [OF assms(3) k])
  note unf = open_record_unfold [OF k sk(2)]
  obtain pt where pt: "local_open P sk b = Inr pt" using assms(5) by (auto simp: unf result_simps)
  show ?thesis
  proof (cases "local_open P sk c")
    case (Inl e)
    with local_open_error [OF Inl sk(1)] show ?thesis by (simp add: unf)
  next
    case (Inr q)
    from gcm.only_one_tag [OF assms(1,2,4) pt Inr assms(6,7)] assms(8) show ?thesis by simp
  qed
qed

lemma seal_record_total:
  assumes P: "aead_ok P" "hkdf_ok P" and k: "length vk = 32" and n: "length nonce = 12"
    and len: "length (encode_plaintext p) \<le> AEAD_MAX"
  shows "\<exists>b. seal_record P vk nonce p = Inr b"
proof -
  from vault_subkey [OF P(2) k] obtain sk where sk: "length sk = 32" "hkdf_subkey P vk INFO_CCLIP = Inr sk"
    by blast
  show ?thesis
    unfolding seal_record_unfold [OF k sk(2)] by (rule box.seal_total [OF P(1) sk(1) n len])
qed

lemma seal_record_error:
  assumes P: "aead_ok P" "hkdf_ok P" and len: "length (encode_plaintext p) \<le> AEAD_MAX"
  shows "seal_record P vk nonce p = Err InvalidInput \<longleftrightarrow> length vk \<noteq> 32 \<or> length nonce \<noteq> 12"
proof (cases "length vk = 32")
  case False
  then show ?thesis by (simp add: seal_record_def as_key32_def KEY_LEN_def)
next
  case True
  from vault_subkey [OF P(2) True] obtain sk
    where sk: "length sk = 32" "hkdf_subkey P vk INFO_CCLIP = Inr sk" by blast
  have "local_seal P sk nonce x = Err InvalidInput" if "length nonce \<noteq> 12" for x
    using that sk by (simp add: local_seal_def cipher_def len_defs)
  with True seal_record_total [OF P True _ len, of nonce] show ?thesis
    unfolding seal_record_unfold [OF True sk(2)] by auto
qed

section \<open>The manifest\<close>

lemma length_VERIFIER_PLAINTEXT: "length VERIFIER_PLAINTEXT \<le> AEAD_MAX"
  by (simp add: VERIFIER_PLAINTEXT_def blit_def AEAD_MAX_def)

lemma make_vault_manifest_Ok:
  assumes "make_vault_manifest P vk vid created kd nonce = Inr m"
  obtains sk where "length vk = 32" "hkdf_subkey P vk INFO_CCLIP = Inr sk"
    "local_seal P sk nonce VERIFIER_PLAINTEXT = Inr (verifier m)"
    "m = \<lparr>vm_format_version = VAULT_FORMAT_VERSION, vault_id = vid, vm_created_at = created,
         vm_kdf = kd, verifier = verifier m\<rparr>"
  using assms by (auto simp: make_vault_manifest_def result_simps)

lemma verify_passphrase_unfold:
  "length vk = 32 \<Longrightarrow> hkdf_subkey P vk INFO_CCLIP = Inr sk \<Longrightarrow>
   verify_passphrase P vk m = Ok (local_open P sk (verifier m) = Inr VERIFIER_PLAINTEXT)"
  using box.unseal_no_panic [of P sk "verifier m"]
  by (auto simp: verify_passphrase_def as_key32_def KEY_LEN_def split: sum.splits failure.splits)

lemma verify_passphrase_make:
  assumes P: "aead_ok P" and m: "make_vault_manifest P vk vid created kd nonce = Inr m"
  shows "verify_passphrase P vk m = Ok True"
proof -
  from m obtain sk where sk: "length vk = 32" "hkdf_subkey P vk INFO_CCLIP = Inr sk"
    and l: "local_seal P sk nonce VERIFIER_PLAINTEXT = Inr (verifier m)"
    by (rule make_vault_manifest_Ok)
  show ?thesis
    unfolding verify_passphrase_unfold [OF sk] using box.unseal_seal [OF P l] by simp
qed

lemma verify_passphrase_exact:
  assumes P: "aead_ok P" "aead_exact P" "hkdf_ok P" and len: "length (verifier m) \<le> AEAD_MAX + 28"
    and v: "vm_format_version m = VAULT_FORMAT_VERSION"
  shows "verify_passphrase P vk m =
    Ok (make_vault_manifest P vk (vault_id m) (vm_created_at m) (vm_kdf m) (take 12 (verifier m)) = Inr m)"
proof (cases "length vk = 32")
  case True
  obtain sk where sk: "hkdf_subkey P vk INFO_CCLIP = Inr sk" by (rule vault_subkey [OF P(3) True])
  have "make_vault_manifest P vk (vault_id m) (vm_created_at m) (vm_kdf m) (take 12 (verifier m)) = Inr m \<longleftrightarrow>
      local_seal P sk (take 12 (verifier m)) VERIFIER_PLAINTEXT = Inr (verifier m)"
    using True sk v by (cases m) (simp add: make_vault_manifest_def as_key32_def KEY_LEN_def rbind_eq_Ok)
  then show ?thesis
    unfolding verify_passphrase_unfold [OF True sk] by (simp add: gcm.unseal_iff_sealed [OF P(1,2) len])
qed (simp add: verify_passphrase_def make_vault_manifest_def as_key32_def KEY_LEN_def)

lemma manifest_json_okD:
  assumes "manifest_json_ok J" "\<forall>b. valid_str (ser b)"
  shows "\<exists>bs. manifest_to_vec J ser m = Some bs \<and>
     (\<forall>de. manifest_from_slice J de bs =
        rbind (map_err (\<lambda>_. ()) (de (ser (kdf_salt (vm_kdf m))))) (\<lambda>salt.
        rbind (map_err (\<lambda>_. ()) (de (ser (verifier m)))) (\<lambda>ver.
          Ok (m\<lparr>vm_kdf := (vm_kdf m)\<lparr>kdf_salt := salt\<rparr>, verifier := ver\<rparr>))))"
  using assms unfolding manifest_json_ok_def by simp

lemma decode_encode_manifest:
  assumes J: "manifest_json_ok J"
  obtains bs where "encode_vault_manifest J m = Inr bs"
    "decode_vault_manifest J bs =
       (if vm_format_version m = VAULT_FORMAT_VERSION then Ok m else Err UnsupportedFormat)"
proof -
  have v: "\<forall>b. valid_str (hex_serialize b)" using valid_str_ascii hex_serialize_ascii by blast
  from manifest_json_okD [OF J v, of m] obtain bs
    where bs: "manifest_to_vec J hex_serialize m = Some bs"
      and "manifest_from_slice J hex_deserialize bs = Ok m"
    by (auto simp: hex_deserialize_serialize)
  then have "decode_vault_manifest J bs =
       (if vm_format_version m = VAULT_FORMAT_VERSION then Ok m else Err UnsupportedFormat)"
    by (simp add: decode_vault_manifest_def)
  moreover have "encode_vault_manifest J m = Inr bs" by (simp add: encode_vault_manifest_def bs)
  ultimately show thesis by (rule that [rotated])
qed

text \<open>A document whose salt is the string \<open>s\<close> (the verifier is the encoder's own output).\<close>

lemma decode_manifest_bad_salt:
  assumes J: "manifest_json_ok J" and s: "valid_str s" and p: "hex_deserialize s = Panicked"
    and doc: "manifest_to_vec J (\<lambda>_. s) m = Some bs"
  shows "decode_vault_manifest J bs = Panicked"
proof -
  from manifest_json_okD [OF J, of "\<lambda>_. s" m] s obtain bs' where
    "manifest_to_vec J (\<lambda>_. s) m = Some bs'" "manifest_from_slice J hex_deserialize bs' = Panicked"
    by (auto simp: p)
  with doc show ?thesis by (simp add: decode_vault_manifest_def)
qed

end
