(* ===== verification/Sync_Rules.thy ===== *)
theory Sync_Rules
  imports Record_Format
begin

text \<open>
  \<open>sync/mod.rs\<close>: the hybrid logical clock, the merge decision for one incoming envelope, and the
  garbage-collection and rejoin rules. Stamps carry \<open>i64\<close> milliseconds and a \<open>u32\<close> counter;
  additions saturate where the code says so, and the two unguarded multiplications of
  \<open>gc_eligible\<close> take the build profile (\<open>None\<close> is the overflow panic of a debug build).
\<close>

definition TOMBSTONE_RETENTION_SECS :: int where "TOMBSTONE_RETENTION_SECS = 35 * 86400"
definition STALE_DEVICE_SECS :: int where "STALE_DEVICE_SECS = 30 * 86400"
definition MAX_DRIFT_MILLIS :: i64 where "MAX_DRIFT_MILLIS = 24 * 3600000"

section \<open>Hybrid logical clock\<close>

definition hlc_compare :: "hlc \<Rightarrow> hlc \<Rightarrow> ordering" where
  "hlc_compare a b =
     then_cmp (then_cmp (cmp (sint (wall_millis a)) (sint (wall_millis b)))
                        (cmp (counter a) (counter b)))
              (uuid_bytes_cmp (node a) (node b))"

definition hlc_next :: "hlc option \<Rightarrow> i64 \<Rightarrow> uuid \<Rightarrow> hlc" where
  "hlc_next prev now_millis nd =
     (case prev of
        None \<Rightarrow> \<lparr>wall_millis = now_millis, counter = 0, node = nd\<rparr>
      | Some prev \<Rightarrow>
          let wall = i64_larger (wall_millis prev) now_millis in
          if wall = wall_millis prev then
            (case checked_add_u32 (counter prev) 1 of
               Some c \<Rightarrow> \<lparr>wall_millis = wall, counter = c, node = nd\<rparr>
             | None \<Rightarrow> \<lparr>wall_millis = i64_saturating_add wall 1, counter = 0, node = nd\<rparr>)
          else \<lparr>wall_millis = wall, counter = 0, node = nd\<rparr>)"

definition larger_u32 :: "u32 \<Rightarrow> u32 \<Rightarrow> u32" where
  "larger_u32 a b = (if a \<le> b then b else a)"

definition hlc_receive :: "hlc option \<Rightarrow> hlc \<Rightarrow> i64 \<Rightarrow> uuid \<Rightarrow> hlc" where
  "hlc_receive local remote now_millis nd =
     (let remote_wall =
            i64_smaller (wall_millis remote) (i64_saturating_add now_millis MAX_DRIFT_MILLIS);
          local_wall = map_option wall_millis local;
          wall = i64_larger
                   (i64_larger (case local_wall of None \<Rightarrow> i64_of i64_min | Some w \<Rightarrow> w) remote_wall)
                   now_millis;
          local_part = (case local of
              Some l \<Rightarrow> if wall_millis l = wall then Some (counter l) else None
            | None \<Rightarrow> None);
          remote_part = (if remote_wall = wall then Some (counter remote) else None);
          c = (case (local_part, remote_part) of
              (Some a, Some b) \<Rightarrow> saturating_add_u32 (larger_u32 a b) 1
            | (Some a, None) \<Rightarrow> saturating_add_u32 a 1
            | (None, Some b) \<Rightarrow> saturating_add_u32 b 1
            | (None, None) \<Rightarrow> 0)
      in \<lparr>wall_millis = wall, counter = c, node = nd\<rparr>)"

section \<open>Merge decision\<close>

record local_state =
  applied :: bool
  applied_deleted :: bool
  live_duplicate_sync_hash :: bool
  tombstoned_duplicate_hlc :: "hlc option"

datatype merge_action =
  ApplyRemote | ApplyTombstone | RecordTombstoneOnly | Skip | SkipDuplicateContent

definition merge_decide :: "local_state \<Rightarrow> bool \<Rightarrow> hlc \<Rightarrow> merge_action" where
  "merge_decide l remote_deleted remote_hlc =
     (if applied l then
        (if remote_deleted \<and> \<not> applied_deleted l then ApplyTombstone else Skip)
      else if remote_deleted then RecordTombstoneOnly
      else if (case tombstoned_duplicate_hlc l of
                 Some tomb_hlc \<Rightarrow> hlc_compare remote_hlc tomb_hlc \<noteq> Greater
               | None \<Rightarrow> False)
        then SkipDuplicateContent
      else if live_duplicate_sync_hash l then SkipDuplicateContent
      else ApplyRemote)"

section \<open>Garbage collection and rejoin\<close>

record device_presence =
  last_seen_secs :: i64

definition device_is_stale :: "i64 \<Rightarrow> i64 \<Rightarrow> bool" where
  "device_is_stale seen now_secs \<longleftrightarrow> sint (i64_saturating_sub now_secs seen) > STALE_DEVICE_SECS"

fun devices_acked :: "build_profile \<Rightarrow> hlc \<Rightarrow> device_presence list \<Rightarrow> i64 \<Rightarrow> bool option" where
  "devices_acked prof tomb [] now_secs = Some True"
| "devices_acked prof tomb (d # ds) now_secs =
     (if device_is_stale (last_seen_secs d) now_secs then devices_acked prof tomb ds now_secs
      else case i64_mul prof (last_seen_secs d) 1000 of
        None \<Rightarrow> None
      | Some ms \<Rightarrow>
          if sint ms \<ge> sint (wall_millis tomb) then devices_acked prof tomb ds now_secs
          else Some False)"

definition gc_eligible :: "build_profile \<Rightarrow> hlc \<Rightarrow> device_presence list \<Rightarrow> i64 \<Rightarrow> bool option" where
  "gc_eligible prof tomb devices now_secs =
     (case i64_mul prof now_secs 1000 of
        None \<Rightarrow> None
      | Some now_ms \<Rightarrow>
          let age_millis = i64_saturating_sub now_ms (wall_millis tomb) in
          if sint age_millis \<le> TOMBSTONE_RETENTION_SECS * 1000 then Some False
          else devices_acked prof tomb devices now_secs)"

datatype rejoin_action = DeleteLocally | Repush

definition rejoin_action :: "i64 \<Rightarrow> i64 \<Rightarrow> rejoin_action" where
  "rejoin_action self_last_seen_secs now_secs =
     (if device_is_stale self_last_seen_secs now_secs then DeleteLocally else Repush)"

section \<open>The order on stamps\<close>

interpretation hlc_order: total_comparator hlc_compare
proof -
  have "comparator hlc_compare"
    unfolding hlc_compare_def
    by (intro comparator_then comparator_key [where c = cmp and f = "\<lambda>h. sint (wall_millis h)"]
        comparator_key [where c = cmp and f = counter]
        comparator_key [where c = uuid_bytes_cmp and f = node]
        ord.comparator_axioms uuid_cmp.comparator_axioms)
  moreover have "a = b" if "hlc_compare a b = Equal" for a b :: hlc
  proof -
    from that have "sint (wall_millis a) = sint (wall_millis b)" "counter a = counter b"
      "uuid_bytes_cmp (node a) (node b) = Equal"
      by (simp_all add: hlc_compare_def)
    then show ?thesis using uuid_cmp.antisym by (simp add: i64_eq_iff)
  qed
  ultimately show "total_comparator hlc_compare"
    by (intro total_comparator.intro total_comparator_axioms.intro)
qed

text \<open>The part of a stamp that decides before the node does.\<close>

definition stamp_less :: "hlc \<Rightarrow> hlc \<Rightarrow> bool" where
  "stamp_less a b \<longleftrightarrow>
     sint (wall_millis a) < sint (wall_millis b) \<or>
     wall_millis a = wall_millis b \<and> counter a < counter b"

lemma stamp_less_compare: "stamp_less a b \<Longrightarrow> hlc_compare a b = Less"
  by (auto simp: stamp_less_def hlc_compare_def)

lemma stamp_less_compare': "stamp_less a b \<Longrightarrow> hlc_compare b a = Greater"
  by (auto simp: stamp_less_def hlc_compare_def)

lemma stamp_less_trans: "stamp_less a b \<Longrightarrow> stamp_less b c \<Longrightarrow> stamp_less a c"
  by (auto simp: stamp_less_def)

lemma sint_succ:
  "sint (w :: i64) < i64_max \<Longrightarrow> sint (i64_saturating_add w 1) = sint w + 1"
  using sint_i64_bounds [of w]
  by (simp add: sint_i64_saturating_add clamp_i64_def i64_max_def i64_min_def)

lemma u32_eq_max_iff: "c = u32_max \<longleftrightarrow> unat c = 4294967295"
  by (metis unat_u32_max unsigned_word_eqI)

lemma checked_succ_u32:
  "checked_add_u32 c 1 = (if c = u32_max then None else Some (c + 1))"
proof -
  have "unat c < 4294967296" by (rule unat_u32_less)
  then have "unat c + 1 < 4294967296 \<longleftrightarrow> unat c \<noteq> 4294967295" by linarith
  then have "unat c + unat (1 :: u32) < 2 ^ 32 \<longleftrightarrow> unat c \<noteq> 4294967295" by (simp only: unat_1) simp
  then show ?thesis unfolding checked_add_u32_def u32_eq_max_iff by (simp only: if_not_P if_P) simp
qed

lemma u32_less_succ: "c \<noteq> u32_max \<Longrightarrow> c < c + 1"
  using checked_succ_u32 [of c] by (auto simp: checked_add_u32_def word_less_nat_alt unat_plus_u32
      split: if_splits)

lemma saturating_succ_u32:
  "saturating_add_u32 c 1 = (if c = u32_max then u32_max else c + 1)"
  using checked_succ_u32 [of c] by (auto simp: checked_add_u32_def saturating_add_u32_def split: if_splits)

text \<open>A stamp from which the clock can still advance.\<close>

definition has_room :: "hlc \<Rightarrow> bool" where
  "has_room h \<longleftrightarrow> sint (wall_millis h) < i64_max \<or> counter h \<noteq> u32_max"

lemma hlc_next_greater:
  assumes "has_room prev"
  shows "stamp_less prev (hlc_next (Some prev) now nd)"
proof (cases "i64_larger (wall_millis prev) now = wall_millis prev")
  case True
  show ?thesis
  proof (cases "counter prev = u32_max")
    case True
    with assms have "sint (wall_millis prev) < i64_max" by (simp add: has_room_def)
    with True \<open>i64_larger _ _ = _\<close> show ?thesis
      by (simp add: hlc_next_def checked_succ_u32 stamp_less_def sint_succ)
  next
    case False
    with True show ?thesis by (simp add: hlc_next_def checked_succ_u32 stamp_less_def u32_less_succ)
  qed
next
  case False
  then have "\<not> (sint now \<le> sint (wall_millis prev))"
    by (auto simp: i64_larger_def i64_eq_iff split: if_splits)
  with False show ?thesis by (simp add: hlc_next_def stamp_less_def i64_larger_def)
qed

lemma i64_saturating_succ_ge: "sint w \<le> sint (i64_saturating_add w 1)"
  using sint_i64_bounds [of w]
  by (simp add: sint_i64_saturating_add clamp_i64_def i64_max_def i64_min_def)

lemma wall_hlc_next_Some:
  "wall_millis (hlc_next (Some p) now nd) = i64_larger (wall_millis p) now \<or>
   wall_millis (hlc_next (Some p) now nd) = i64_saturating_add (i64_larger (wall_millis p) now) 1"
  unfolding hlc_next_def Let_def by (simp split: option.split)

lemma hlc_next_wall: "sint now \<le> sint (wall_millis (hlc_next prev now nd))"
proof (cases prev)
  case (Some p)
  have "sint now \<le> sint (i64_larger (wall_millis p) now)" by simp
  then have "sint now \<le> sint (wall_millis (hlc_next (Some p) now nd))"
    using wall_hlc_next_Some [of p now nd] i64_saturating_succ_ge order_trans by metis
  then show ?thesis by (simp only: Some)
qed (simp add: hlc_next_def)

lemma hlc_node [simp]: "node (hlc_next p now nd) = nd" "node (hlc_receive l r now nd) = nd"
  by (auto simp: hlc_next_def hlc_receive_def Let_def split: option.splits)

text \<open>At the last representable stamp the clock falls back.\<close>

lemma hlc_next_stuck:
  "\<not> has_room prev \<Longrightarrow> hlc_next (Some prev) now nd = prev\<lparr>counter := 0, node := nd\<rparr>"
proof -
  assume "\<not> has_room prev"
  then have c: "counter prev = u32_max" and "sint (wall_millis prev) = i64_max"
    using sint_i64_bounds(2) [of "wall_millis prev"] by (auto simp: has_room_def)
  then have "i64_saturating_add (wall_millis prev) 1 = wall_millis prev"
    "i64_larger (wall_millis prev) now = wall_millis prev"
    using sint_i64_bounds(2) [of now]
    by (simp_all add: i64_eq_iff sint_i64_saturating_add clamp_i64_def i64_max_def i64_min_def)
  with c show ?thesis by (simp add: hlc_next_def checked_succ_u32)
qed

section \<open>Receiving a stamp\<close>

definition clamped_wall :: "hlc \<Rightarrow> i64 \<Rightarrow> int" where
  "clamped_wall remote now = min (sint (wall_millis remote)) (clamp_i64 (sint now + 86400000))"

lemma sint_MAX_DRIFT [simp]: "sint MAX_DRIFT_MILLIS = 86400000"
  by (simp add: MAX_DRIFT_MILLIS_def)

lemma hlc_receive_wall_None:
  "sint (wall_millis (hlc_receive None remote now nd)) = max (clamped_wall remote now) (sint now)"
proof -
  have "sint (i64_of i64_min) = i64_min" by (simp add: sint_i64_of i64_min_def i64_max_def)
  then show ?thesis using sint_i64_bounds(1) [of "wall_millis remote"] clamp_i64_range(1)
    by (simp add: hlc_receive_def Let_def clamped_wall_def sint_i64_saturating_add max_def min_def)
qed

lemma hlc_receive_wall_Some:
  "sint (wall_millis (hlc_receive (Some l) remote now nd)) =
     max (max (sint (wall_millis l)) (clamped_wall remote now)) (sint now)"
  by (simp add: hlc_receive_def Let_def clamped_wall_def sint_i64_saturating_add)

lemma larger_u32_ge: "a \<le> larger_u32 a b" "b \<le> larger_u32 a b"
  by (auto simp: larger_u32_def)

lemma le_u32_max: "c \<le> u32_max"
proof -
  have "unat c < 4294967296" by (rule unat_u32_less)
  then have "unat c \<le> 4294967295" by linarith
  then show ?thesis by (simp only: word_le_nat_alt unat_u32_max)
qed

lemma saturating_succ_less: "c \<le> d \<Longrightarrow> c \<noteq> u32_max \<Longrightarrow> c < saturating_add_u32 d 1"
  using le_u32_max [of c] u32_less_succ [of d]
  by (cases "d = u32_max") (auto simp: saturating_succ_u32 order_le_less_trans)

lemma receive_counter_local:
  assumes "wall_millis (hlc_receive (Some l) remote now nd) = wall_millis l"
  shows "\<exists>d \<ge> counter l. counter (hlc_receive (Some l) remote now nd) = saturating_add_u32 d 1"
  using assms larger_u32_ge [of "counter l" "counter remote"]
  by (auto simp: hlc_receive_def Let_def intro: exI [of _ "counter l"])

lemma receive_counter_remote:
  assumes "sint (wall_millis remote) \<le> clamp_i64 (sint now + 86400000)"
    "wall_millis (hlc_receive local remote now nd) = wall_millis remote"
  shows "\<exists>d \<ge> counter remote. counter (hlc_receive local remote now nd) = saturating_add_u32 d 1"
proof -
  have "i64_smaller (wall_millis remote) (i64_saturating_add now MAX_DRIFT_MILLIS) = wall_millis remote"
    using assms(1) by (simp add: i64_smaller_def sint_i64_saturating_add)
  with assms(2) show ?thesis
    by (cases local) (auto simp: hlc_receive_def Let_def intro: exI [of _ "counter remote"]
        exI [of _ "larger_u32 _ (counter remote)"] larger_u32_ge)
qed

text \<open>Not below: strictly later, or stuck at a saturated counter.\<close>

definition stamp_le :: "hlc \<Rightarrow> hlc \<Rightarrow> bool" where
  "stamp_le a b \<longleftrightarrow> stamp_less a b \<or> wall_millis a = wall_millis b \<and> counter a = counter b"

lemma stamp_le_less_trans: "stamp_le a b \<Longrightarrow> stamp_less b c \<Longrightarrow> stamp_less a c"
  by (auto simp: stamp_le_def stamp_less_def)

lemma stamp_less_le_trans: "stamp_less a b \<Longrightarrow> stamp_le b c \<Longrightarrow> stamp_less a c"
  by (auto simp: stamp_le_def stamp_less_def)

lemma stamp_le_trans: "stamp_le a b \<Longrightarrow> stamp_le b c \<Longrightarrow> stamp_le a c"
  by (auto simp: stamp_le_def stamp_less_def)

lemma stamp_le_intro:
  assumes "sint (wall_millis a) \<le> sint (wall_millis b)"
    and "wall_millis b = wall_millis a \<Longrightarrow> \<exists>d \<ge> counter a. counter b = saturating_add_u32 d 1"
  shows "stamp_le a b" "counter a \<noteq> u32_max \<Longrightarrow> stamp_less a b"
proof -
  have "wall_millis a = wall_millis b \<Longrightarrow> counter a \<le> counter b"
    using assms(2) by (metis le_u32_max less_imp_le saturating_succ_less saturating_succ_u32 nle_le)
  with assms(1) show "stamp_le a b"
    by (auto simp: stamp_le_def stamp_less_def i64_eq_iff)
  show "stamp_less a b" if "counter a \<noteq> u32_max"
    using assms saturating_succ_less that by (fastforce simp: stamp_less_def i64_eq_iff)
qed

lemma hlc_receive_after_local:
  "stamp_le l (hlc_receive (Some l) remote now nd)"
  "counter l \<noteq> u32_max \<Longrightarrow> stamp_less l (hlc_receive (Some l) remote now nd)"
  by (rule stamp_le_intro; simp add: hlc_receive_wall_Some receive_counter_local)+

lemma hlc_receive_wall_ge:
  "clamped_wall remote now \<le> sint (wall_millis (hlc_receive local remote now nd))"
  "sint now \<le> sint (wall_millis (hlc_receive local remote now nd))"
  by (cases local; simp add: hlc_receive_wall_None hlc_receive_wall_Some)+

lemma hlc_receive_after_remote:
  assumes "sint (wall_millis remote) \<le> clamp_i64 (sint now + 86400000)"
  shows "stamp_le remote (hlc_receive local remote now nd)"
    "counter remote \<noteq> u32_max \<Longrightarrow> stamp_less remote (hlc_receive local remote now nd)"
proof -
  have "sint (wall_millis remote) \<le> sint (wall_millis (hlc_receive local remote now nd))"
    using hlc_receive_wall_ge(1) [of remote now local nd] assms by (simp add: clamped_wall_def)
  note intro = stamp_le_intro [OF this receive_counter_remote [OF assms]]
  show "stamp_le remote (hlc_receive local remote now nd)"
    "counter remote \<noteq> u32_max \<Longrightarrow> stamp_less remote (hlc_receive local remote now nd)"
    by (rule intro; assumption)+
qed

end
