(* ===== verification/Ffi.thy ===== *)
theory Ffi
  imports Redact_Mask Sync_Rules
begin

text \<open>
  \<open>clipy-si-core-ffi/src/lib.rs\<close>: the mirror types, their conversions and the exported functions.
  UUIDs cross as strings; \<open>Uuid::parse_str\<close> and \<open>to_string\<close> belong to the \<open>uuid\<close> crate and are the
  \<open>uuid_text\<close> record, with the documented round trip as \<open>uuid_text_ok\<close>. The wildcard arms over
  \<open>#[non_exhaustive]\<close> enums have no case here: the core has no further constructor.
\<close>

section \<open>Mirror types of the redaction surface\<close>

datatype mask_style_ffi = FfiFull | FfiPrefix2 | FfiSuffix4

fun mask_style_from_ffi :: "mask_style_ffi \<Rightarrow> mask_style" where
  "mask_style_from_ffi FfiFull = Full"
| "mask_style_from_ffi FfiPrefix2 = Prefix2"
| "mask_style_from_ffi FfiSuffix4 = Suffix4"

fun mask_style_to_ffi :: "mask_style \<Rightarrow> mask_style_ffi" where
  "mask_style_to_ffi Full = FfiFull"
| "mask_style_to_ffi Prefix2 = FfiPrefix2"
| "mask_style_to_ffi Suffix4 = FfiSuffix4"

datatype confidence_ffi = FfiHigh | FfiMedium

fun confidence_to_ffi :: "confidence \<Rightarrow> confidence_ffi" where
  "confidence_to_ffi High = FfiHigh"
| "confidence_to_ffi Medium = FfiMedium"

record secret_match_ffi =
  smf_kind :: str
  smf_start :: u32
  smf_end :: u32
  smf_confidence :: confidence_ffi

definition secret_match_to_ffi :: "secret_match \<Rightarrow> secret_match_ffi" where
  "secret_match_to_ffi m =
     \<lparr>smf_kind = secret_kind_as_str (sm_kind m), smf_start = sm_start m, smf_end = sm_end m,
      smf_confidence = confidence_to_ffi (sm_confidence m)\<rparr>"

record user_rule_ffi =
  urf_name :: str
  urf_regex :: str
  urf_kind_label :: str

definition user_rule_from_ffi :: "user_rule_ffi \<Rightarrow> user_rule" where
  "user_rule_from_ffi r =
     \<lparr>ur_name = urf_name r, ur_regex = urf_regex r, ur_kind_label = urf_kind_label r\<rparr>"

definition user_rule_to_ffi :: "user_rule \<Rightarrow> user_rule_ffi" where
  "user_rule_to_ffi r =
     \<lparr>urf_name = ur_name r, urf_regex = ur_regex r, urf_kind_label = ur_kind_label r\<rparr>"

record 'f mask_config_ffi =
  mcf_enabled :: bool
  mcf_style :: mask_style_ffi
  mcf_min_entropy_len :: u32
  mcf_entropy_bits :: "'f"
  mcf_user_rules :: "user_rule_ffi list"

definition mask_config_from_ffi :: "'f mask_config_ffi \<Rightarrow> 'f mask_config" where
  "mask_config_from_ffi c =
     \<lparr>enabled = mcf_enabled c, style = mask_style_from_ffi (mcf_style c),
      min_entropy_len = mcf_min_entropy_len c, entropy_bits = mcf_entropy_bits c,
      user_rules = map user_rule_from_ffi (mcf_user_rules c)\<rparr>"

definition mask_config_to_ffi :: "'f mask_config \<Rightarrow> 'f mask_config_ffi" where
  "mask_config_to_ffi c =
     \<lparr>mcf_enabled = enabled c, mcf_style = mask_style_to_ffi (style c),
      mcf_min_entropy_len = min_entropy_len c, mcf_entropy_bits = entropy_bits c,
      mcf_user_rules = map user_rule_to_ffi (user_rules c)\<rparr>"

record mask_evaluation_ffi =
  mef_is_secret :: bool
  mef_display :: str

definition mask_evaluation_to_ffi :: "mask_evaluation \<Rightarrow> mask_evaluation_ffi" where
  "mask_evaluation_to_ffi e = \<lparr>mef_is_secret = me_is_secret e, mef_display = me_display e\<rparr>"

section \<open>The redaction surface\<close>

definition default_config_ffi :: "'f f64_ops \<Rightarrow> 'f mask_config_ffi" where
  "default_config_ffi F = mask_config_to_ffi (default_config F)"

definition detect_secrets_ffi ::
  "build_profile \<Rightarrow> 'f f64_ops \<Rightarrow> regex_engine \<Rightarrow> str \<Rightarrow> 'f mask_config_ffi \<Rightarrow>
   secret_match_ffi list option" where
  "detect_secrets_ffi prof F E text config =
     map_option (map secret_match_to_ffi) (detect_secrets prof F E text (mask_config_from_ffi config))"

definition is_secret_ffi ::
  "build_profile \<Rightarrow> 'f f64_ops \<Rightarrow> regex_engine \<Rightarrow> str \<Rightarrow> 'f mask_config_ffi \<Rightarrow> bool option" where
  "is_secret_ffi prof F E text config = is_secret prof F E text (mask_config_from_ffi config)"

definition evaluate_ffi ::
  "build_profile \<Rightarrow> 'f f64_ops \<Rightarrow> regex_engine \<Rightarrow> str \<Rightarrow> 'f mask_config_ffi \<Rightarrow>
   mask_evaluation_ffi option" where
  "evaluate_ffi prof F E text config =
     map_option mask_evaluation_to_ffi (evaluate prof F E text (mask_config_from_ffi config))"

definition mask_ffi ::
  "build_profile \<Rightarrow> 'f f64_ops \<Rightarrow> regex_engine \<Rightarrow> str \<Rightarrow> 'f mask_config_ffi \<Rightarrow> str option" where
  "mask_ffi prof F E text config = mask prof F E text (mask_config_from_ffi config)"

definition user_rule_errors_ffi :: "regex_engine \<Rightarrow> 'f mask_config_ffi \<Rightarrow> str list" where
  "user_rule_errors_ffi E config = user_rule_errors E (mask_config_from_ffi config)"

definition rules_version_ffi :: u32 where "rules_version_ffi = rules_version"

section \<open>Errors and identifiers\<close>

datatype core_error_ffi =
  FfiInvalidInput | FfiDecryptFailed | FfiUnsupportedFormat | FfiKdfFailed | FfiUnknown

type_synonym 'a ffi_result = "(core_error_ffi, 'a) result"

fun core_error_ffi_display :: "core_error_ffi \<Rightarrow> string" where
  "core_error_ffi_display FfiInvalidInput = ''InvalidInput''"
| "core_error_ffi_display FfiDecryptFailed = ''DecryptFailed''"
| "core_error_ffi_display FfiUnsupportedFormat = ''UnsupportedFormat''"
| "core_error_ffi_display FfiKdfFailed = ''KdfFailed''"
| "core_error_ffi_display FfiUnknown = ''Unknown''"

fun core_error_to_ffi :: "core_error \<Rightarrow> core_error_ffi" where
  "core_error_to_ffi InvalidInput = FfiInvalidInput"
| "core_error_to_ffi DecryptFailed = FfiDecryptFailed"
| "core_error_to_ffi UnsupportedFormat = FfiUnsupportedFormat"
| "core_error_to_ffi KdfFailed = FfiKdfFailed"

definition into_ffi :: "'a core_result \<Rightarrow> 'a ffi_result" where
  "into_ffi m = map_err core_error_to_ffi m"

record uuid_text =
  uuid_parse :: "str \<Rightarrow> uuid option"
  uuid_format :: "uuid \<Rightarrow> str"

definition uuid_text_ok :: "uuid_text \<Rightarrow> bool" where
  "uuid_text_ok U \<longleftrightarrow> (\<forall>u. uuid_parse U (uuid_format U u) = Some u)"

definition parse_uuid :: "uuid_text \<Rightarrow> str \<Rightarrow> uuid ffi_result" where
  "parse_uuid U s = ok_or FfiInvalidInput (uuid_parse U s)"

section \<open>Mirror types of the record surface\<close>

datatype kdf_kind_ffi = FfiPbkdf2HmacSha256 u32

fun kdf_kind_from_ffi :: "kdf_kind_ffi \<Rightarrow> kdf_kind" where
  "kdf_kind_from_ffi (FfiPbkdf2HmacSha256 iterations) = Pbkdf2HmacSha256 iterations"

record kdf_descriptor_ffi =
  kdf_ffi_kind :: kdf_kind_ffi
  kdf_ffi_salt :: bytes
  kdf_ffi_version :: u32

definition kdf_descriptor_from_ffi :: "kdf_descriptor_ffi \<Rightarrow> kdf_descriptor" where
  "kdf_descriptor_from_ffi d =
     \<lparr>kdf_kind = kdf_kind_from_ffi (kdf_ffi_kind d), kdf_salt = kdf_ffi_salt d,
      kdf_version = kdf_ffi_version d\<rparr>"

record record_representation_ffi =
  repf_uttype :: str
  repf_data :: bytes

definition representation_to_ffi :: "record_representation \<Rightarrow> record_representation_ffi" where
  "representation_to_ffi r = \<lparr>repf_uttype = uttype r, repf_data = rep_data r\<rparr>"

definition representation_from_ffi :: "record_representation_ffi \<Rightarrow> record_representation" where
  "representation_from_ffi r = \<lparr>uttype = repf_uttype r, rep_data = repf_data r\<rparr>"

record record_plaintext_ffi =
  ptf_title :: str
  ptf_primary_type :: str
  ptf_source_bundle :: "str option"
  ptf_is_color_code :: bool
  ptf_representations :: "record_representation_ffi list"

definition plaintext_to_ffi :: "record_plaintext \<Rightarrow> record_plaintext_ffi" where
  "plaintext_to_ffi p =
     \<lparr>ptf_title = title p, ptf_primary_type = primary_type p, ptf_source_bundle = source_bundle p,
      ptf_is_color_code = is_color_code p,
      ptf_representations = map representation_to_ffi (representations p)\<rparr>"

definition plaintext_from_ffi :: "record_plaintext_ffi \<Rightarrow> record_plaintext" where
  "plaintext_from_ffi p =
     \<lparr>title = ptf_title p, primary_type = ptf_primary_type p, source_bundle = ptf_source_bundle p,
      is_color_code = ptf_is_color_code p,
      representations = map representation_from_ffi (ptf_representations p)\<rparr>"

record hlc_ffi =
  hf_wall_millis :: i64
  hf_counter :: u32
  hf_node :: str

definition hlc_to_ffi :: "uuid_text \<Rightarrow> hlc \<Rightarrow> hlc_ffi" where
  "hlc_to_ffi U h =
     \<lparr>hf_wall_millis = wall_millis h, hf_counter = counter h, hf_node = uuid_format U (node h)\<rparr>"

definition hlc_from_ffi :: "uuid_text \<Rightarrow> hlc_ffi \<Rightarrow> hlc ffi_result" where
  "hlc_from_ffi U h =
     rbind (parse_uuid U (hf_node h)) (\<lambda>n.
       Ok \<lparr>wall_millis = hf_wall_millis h, counter = hf_counter h, node = n\<rparr>)"

record record_header_ffi =
  rhf_format_version :: u32
  rhf_record_id :: str
  rhf_origin_device_id :: str
  rhf_hlc :: hlc_ffi
  rhf_created_at :: i64
  rhf_updated_at :: i64
  rhf_deleted :: bool
  rhf_sync_hash :: str

definition header_to_ffi :: "uuid_text \<Rightarrow> record_header \<Rightarrow> record_header_ffi" where
  "header_to_ffi U h =
     \<lparr>rhf_format_version = format_version h, rhf_record_id = uuid_format U (record_id h),
      rhf_origin_device_id = uuid_format U (origin_device_id h), rhf_hlc = hlc_to_ffi U (hdr_hlc h),
      rhf_created_at = created_at h, rhf_updated_at = updated_at h, rhf_deleted = deleted h,
      rhf_sync_hash = sync_hash h\<rparr>"

definition header_from_ffi :: "uuid_text \<Rightarrow> record_header_ffi \<Rightarrow> record_header ffi_result" where
  "header_from_ffi U h =
     rbind (parse_uuid U (rhf_record_id h)) (\<lambda>rid.
     rbind (parse_uuid U (rhf_origin_device_id h)) (\<lambda>dev.
     rbind (hlc_from_ffi U (rhf_hlc h)) (\<lambda>stamp.
       Ok \<lparr>format_version = rhf_format_version h, record_id = rid, origin_device_id = dev,
           hdr_hlc = stamp, created_at = rhf_created_at h, updated_at = rhf_updated_at h,
           deleted = rhf_deleted h, sync_hash = rhf_sync_hash h\<rparr>)))"

record record_envelope_ffi =
  ref_header :: record_header_ffi
  ref_body :: "bytes option"

definition envelope_to_ffi :: "uuid_text \<Rightarrow> record_envelope \<Rightarrow> record_envelope_ffi" where
  "envelope_to_ffi U e = \<lparr>ref_header = header_to_ffi U (header e), ref_body = body e\<rparr>"

definition envelope_from_ffi :: "uuid_text \<Rightarrow> record_envelope_ffi \<Rightarrow> record_envelope ffi_result" where
  "envelope_from_ffi U e =
     rbind (header_from_ffi U (ref_header e)) (\<lambda>h. Ok \<lparr>header = h, body = ref_body e\<rparr>)"

section \<open>The record surface\<close>

definition local_seal_ffi :: "primitives \<Rightarrow> bytes \<Rightarrow> bytes \<Rightarrow> bytes \<Rightarrow> bytes ffi_result" where
  "local_seal_ffi P key nonce plaintext = into_ffi (local_seal P key nonce plaintext)"

definition local_open_ffi :: "primitives \<Rightarrow> bytes \<Rightarrow> bytes \<Rightarrow> bytes ffi_result" where
  "local_open_ffi P key combined = into_ffi (local_open P key combined)"

definition content_hash_ffi :: "primitives \<Rightarrow> bytes \<Rightarrow> bytes \<Rightarrow> str core_result" where
  "content_hash_ffi P key payload = content_hash P key payload"

definition derive_vault_key_ffi ::
  "primitives \<Rightarrow> str \<Rightarrow> kdf_descriptor_ffi \<Rightarrow> bytes ffi_result" where
  "derive_vault_key_ffi P passphrase kdf =
     into_ffi (derive_vault_key P passphrase (kdf_descriptor_from_ffi kdf))"

definition compute_sync_hash_ffi :: "primitives \<Rightarrow> bytes \<Rightarrow> bytes \<Rightarrow> str ffi_result" where
  "compute_sync_hash_ffi P vault_key payload = into_ffi (compute_sync_hash P vault_key payload)"

definition seal_record_ffi ::
  "primitives \<Rightarrow> bytes \<Rightarrow> bytes \<Rightarrow> record_plaintext_ffi \<Rightarrow> bytes ffi_result" where
  "seal_record_ffi P vault_key nonce plaintext =
     into_ffi (seal_record P vault_key nonce (plaintext_from_ffi plaintext))"

definition open_record_ffi :: "primitives \<Rightarrow> bytes \<Rightarrow> bytes \<Rightarrow> record_plaintext_ffi ffi_result" where
  "open_record_ffi P vault_key sealed =
     into_ffi (rmap plaintext_to_ffi (open_record P vault_key sealed))"

definition make_vault_manifest_ffi ::
  "uuid_text \<Rightarrow> json_text \<Rightarrow> primitives \<Rightarrow> bytes \<Rightarrow> str \<Rightarrow> i64 \<Rightarrow> kdf_descriptor_ffi \<Rightarrow> bytes \<Rightarrow>
   bytes ffi_result" where
  "make_vault_manifest_ffi U J P vault_key vid created kdf verifier_nonce =
     rbind (parse_uuid U vid) (\<lambda>i.
     rbind (into_ffi (make_vault_manifest P vault_key i created (kdf_descriptor_from_ffi kdf)
              verifier_nonce)) (\<lambda>manifest.
       into_ffi (encode_vault_manifest J manifest)))"

definition verify_passphrase_ffi ::
  "json_text \<Rightarrow> primitives \<Rightarrow> bytes \<Rightarrow> bytes \<Rightarrow> bool ffi_result" where
  "verify_passphrase_ffi J P vault_key manifest_json =
     rbind (into_ffi (decode_vault_manifest J manifest_json)) (\<lambda>manifest.
       into_ffi (verify_passphrase P vault_key manifest))"

definition encode_envelope_ffi ::
  "uuid_text \<Rightarrow> json_text \<Rightarrow> record_envelope_ffi \<Rightarrow> bytes ffi_result" where
  "encode_envelope_ffi U J envelope =
     rbind (envelope_from_ffi U envelope) (\<lambda>env.
     rbind (into_ffi (encode_envelope J env)) (\<lambda>bs.
     rbind (into_ffi (decode_envelope J bs)) (\<lambda>_. Ok bs)))"

definition decode_envelope_ffi ::
  "uuid_text \<Rightarrow> json_text \<Rightarrow> bytes \<Rightarrow> record_envelope_ffi ffi_result" where
  "decode_envelope_ffi U J bs = into_ffi (rmap (envelope_to_ffi U) (decode_envelope J bs))"

definition record_format_version_ffi :: u32 where
  "record_format_version_ffi = record_format_version"

definition manifest_kdf_ffi :: "json_text \<Rightarrow> bytes \<Rightarrow> kdf_descriptor_ffi ffi_result" where
  "manifest_kdf_ffi J manifest_json =
     rbind (into_ffi (decode_vault_manifest J manifest_json)) (\<lambda>manifest.
       case kdf_kind (vm_kdf manifest) of
         Pbkdf2HmacSha256 iterations \<Rightarrow>
           Ok \<lparr>kdf_ffi_kind = FfiPbkdf2HmacSha256 iterations, kdf_ffi_salt = kdf_salt (vm_kdf manifest),
               kdf_ffi_version = kdf_version (vm_kdf manifest)\<rparr>)"

section \<open>The sync surface\<close>

definition transpose_ffi :: "('a \<Rightarrow> 'b ffi_result) \<Rightarrow> 'a option \<Rightarrow> 'b option ffi_result" where
  "transpose_ffi f m = (case m of None \<Rightarrow> Ok None | Some x \<Rightarrow> rmap Some (f x))"

record local_state_ffi =
  lsf_applied :: bool
  lsf_applied_deleted :: bool
  lsf_live_duplicate_sync_hash :: bool
  lsf_tombstoned_duplicate_hlc :: "hlc_ffi option"

definition local_state_from_ffi :: "uuid_text \<Rightarrow> local_state_ffi \<Rightarrow> local_state ffi_result" where
  "local_state_from_ffi U s =
     rbind (transpose_ffi (hlc_from_ffi U) (lsf_tombstoned_duplicate_hlc s)) (\<lambda>t.
       Ok \<lparr>applied = lsf_applied s, applied_deleted = lsf_applied_deleted s,
           live_duplicate_sync_hash = lsf_live_duplicate_sync_hash s,
           tombstoned_duplicate_hlc = t\<rparr>)"

datatype merge_action_ffi =
  FfiApplyRemote | FfiApplyTombstone | FfiRecordTombstoneOnly | FfiSkip | FfiSkipDuplicateContent

fun merge_action_to_ffi :: "merge_action \<Rightarrow> merge_action_ffi" where
  "merge_action_to_ffi ApplyRemote = FfiApplyRemote"
| "merge_action_to_ffi ApplyTombstone = FfiApplyTombstone"
| "merge_action_to_ffi RecordTombstoneOnly = FfiRecordTombstoneOnly"
| "merge_action_to_ffi Skip = FfiSkip"
| "merge_action_to_ffi SkipDuplicateContent = FfiSkipDuplicateContent"

datatype rejoin_action_ffi = FfiDeleteLocally | FfiRepush

fun rejoin_action_to_ffi :: "rejoin_action \<Rightarrow> rejoin_action_ffi" where
  "rejoin_action_to_ffi DeleteLocally = FfiDeleteLocally"
| "rejoin_action_to_ffi Repush = FfiRepush"

definition hlc_next_ffi :: "uuid_text \<Rightarrow> hlc_ffi option \<Rightarrow> i64 \<Rightarrow> str \<Rightarrow> hlc_ffi ffi_result" where
  "hlc_next_ffi U prev now_millis nd =
     rbind (parse_uuid U nd) (\<lambda>n.
     rbind (transpose_ffi (hlc_from_ffi U) prev) (\<lambda>p.
       Ok (hlc_to_ffi U (hlc_next p now_millis n))))"

definition hlc_receive_ffi ::
  "uuid_text \<Rightarrow> hlc_ffi option \<Rightarrow> hlc_ffi \<Rightarrow> i64 \<Rightarrow> str \<Rightarrow> hlc_ffi ffi_result" where
  "hlc_receive_ffi U local remote now_millis nd =
     rbind (parse_uuid U nd) (\<lambda>n.
     rbind (transpose_ffi (hlc_from_ffi U) local) (\<lambda>l.
     rbind (hlc_from_ffi U remote) (\<lambda>r.
       Ok (hlc_to_ffi U (hlc_receive l r now_millis n)))))"

definition hlc_compare_ffi :: "uuid_text \<Rightarrow> hlc_ffi \<Rightarrow> hlc_ffi \<Rightarrow> 8 word ffi_result" where
  "hlc_compare_ffi U a b =
     rbind (hlc_from_ffi U a) (\<lambda>a.
     rbind (hlc_from_ffi U b) (\<lambda>b.
       Ok (case hlc_compare a b of Less \<Rightarrow> - 1 | Equal \<Rightarrow> 0 | Greater \<Rightarrow> 1)))"

definition merge_decide_ffi ::
  "uuid_text \<Rightarrow> local_state_ffi \<Rightarrow> bool \<Rightarrow> hlc_ffi \<Rightarrow> merge_action_ffi ffi_result" where
  "merge_decide_ffi U local remote_deleted remote_hlc =
     rbind (local_state_from_ffi U local) (\<lambda>l.
     rbind (hlc_from_ffi U remote_hlc) (\<lambda>r.
       Ok (merge_action_to_ffi (merge_decide l remote_deleted r))))"

definition gc_eligible_ffi ::
  "build_profile \<Rightarrow> uuid_text \<Rightarrow> hlc_ffi \<Rightarrow> i64 list \<Rightarrow> i64 \<Rightarrow> bool ffi_result" where
  "gc_eligible_ffi prof U tomb devices now_secs =
     rbind (hlc_from_ffi U tomb) (\<lambda>h.
       case gc_eligible prof h (map (\<lambda>s. \<lparr>last_seen_secs = s\<rparr>) devices) now_secs of
         None \<Rightarrow> Panicked
       | Some b \<Rightarrow> Ok b)"

definition device_is_stale_ffi :: "i64 \<Rightarrow> i64 \<Rightarrow> bool" where
  "device_is_stale_ffi seen now_secs = device_is_stale seen now_secs"

definition exported_rejoin_action :: "i64 \<Rightarrow> i64 \<Rightarrow> rejoin_action_ffi" where
  "exported_rejoin_action seen now_secs = rejoin_action_to_ffi (rejoin_action seen now_secs)"

section \<open>The mirrors lose nothing\<close>

lemma uuid_text_parse: "uuid_text_ok U \<Longrightarrow> parse_uuid U (uuid_format U u) = Inr u"
  by (simp add: parse_uuid_def uuid_text_ok_def)

interpretation hlc_mirror: codec "hlc_to_ffi U" "hlc_from_ffi U" "\<lambda>_. uuid_text_ok U" for U
  by unfold_locales (simp add: hlc_to_ffi_def hlc_from_ffi_def uuid_text_parse)

interpretation header_mirror: codec "header_to_ffi U" "header_from_ffi U" "\<lambda>_. uuid_text_ok U" for U
  by unfold_locales
    (simp add: header_to_ffi_def header_from_ffi_def uuid_text_parse hlc_mirror.dec_enc)

interpretation envelope_mirror:
  codec "envelope_to_ffi U" "envelope_from_ffi U" "\<lambda>_. uuid_text_ok U" for U
  by unfold_locales (simp add: envelope_to_ffi_def envelope_from_ffi_def header_mirror.dec_enc)

lemma representation_mirror [simp]:
  "representation_from_ffi (representation_to_ffi r) = r"
  "representation_to_ffi (representation_from_ffi f) = f"
  by (cases r; simp add: representation_from_ffi_def representation_to_ffi_def)
    (cases f; simp add: representation_from_ffi_def representation_to_ffi_def)

lemma plaintext_mirror_eqs:
  "plaintext_from_ffi (plaintext_to_ffi p) = p" "plaintext_to_ffi (plaintext_from_ffi f) = f"
  by (cases p; simp add: plaintext_to_ffi_def plaintext_from_ffi_def comp_def)
    (cases f; simp add: plaintext_to_ffi_def plaintext_from_ffi_def comp_def)

interpretation plaintext_mirror:
  exact_codec plaintext_to_ffi "\<lambda>p. Inr (plaintext_from_ffi p)" "\<lambda>_. True"
  by unfold_locales (auto simp: plaintext_mirror_eqs)

lemma mask_style_mirror [simp]:
  "mask_style_from_ffi (mask_style_to_ffi s) = s" "mask_style_to_ffi (mask_style_from_ffi f) = f"
  by (cases s; simp) (cases f; simp)

lemma user_rule_mirror [simp]:
  "user_rule_from_ffi (user_rule_to_ffi r) = r" "user_rule_to_ffi (user_rule_from_ffi f) = f"
  by (cases r; simp add: user_rule_from_ffi_def user_rule_to_ffi_def)
    (cases f; simp add: user_rule_from_ffi_def user_rule_to_ffi_def)

lemma mask_config_mirror_eqs:
  "mask_config_from_ffi (mask_config_to_ffi c) = c" "mask_config_to_ffi (mask_config_from_ffi f) = f"
  by (cases c; simp add: mask_config_to_ffi_def mask_config_from_ffi_def comp_def)
    (cases f; simp add: mask_config_to_ffi_def mask_config_from_ffi_def comp_def)

interpretation config_mirror:
  exact_codec mask_config_to_ffi "\<lambda>c. Inr (mask_config_from_ffi c)" "\<lambda>_. True"
  by unfold_locales (auto simp: mask_config_mirror_eqs)

lemma into_ffi_simps [simp]:
  "into_ffi (Inr x) = Ok x" "into_ffi (Err e) = Err (core_error_to_ffi e)" "into_ffi Panicked = Panicked"
  by (simp_all add: into_ffi_def)

lemma into_ffi_eq_Ok [result_simps]: "into_ffi m = Inr x \<longleftrightarrow> m = Inr x"
  by (simp add: into_ffi_def result_simps)

lemma into_ffi_known: "into_ffi m \<noteq> Err FfiUnknown"
proof (cases m)
  case (Inl f)
  then show ?thesis by (cases f; cases "case f of Fail e \<Rightarrow> e") (auto split: failure.splits)
qed simp

lemma core_error_to_ffi_inj: "core_error_to_ffi a = core_error_to_ffi b \<longleftrightarrow> a = b"
  by (cases a; cases b) simp_all

section \<open>Behaviour of the exported functions\<close>

lemma encode_envelope_ffi_exact:
  assumes J: "header_json_ok J" and env: "envelope_from_ffi U e = Inr env"
    and s: "valid_str (sync_hash (header env))"
    and small: "\<forall>bs. encode_envelope J env = Inr bs \<longrightarrow> length bs < 2 ^ 32"
  shows "encode_envelope_ffi U J e =
    (if env_wf env then into_ffi (encode_envelope J env) else Err FfiUnsupportedFormat)"
proof -
  obtain bs where bs: "encode_envelope J env = Inr bs"
    using J s unfolding header_json_ok_def encode_envelope_def
    by (auto simp: Let_def split: option.splits)
  then show ?thesis
    using decode_encode_envelope [OF J s bs] small
    by (simp add: encode_envelope_ffi_def env)
qed

lemma decode_encode_envelope_ffi:
  assumes J: "header_json_ok J" and env: "envelope_from_ffi U e = Inr env"
    and s: "valid_str (sync_hash (header env))"
    and small: "\<forall>bs. encode_envelope J env = Inr bs \<longrightarrow> length bs < 2 ^ 32"
    and bs: "encode_envelope_ffi U J e = Inr bs"
  shows "decode_envelope_ffi U J bs = Inr (envelope_to_ffi U env)"
proof -
  have wf: "env_wf env" "encode_envelope J env = Inr bs"
    using bs encode_envelope_ffi_exact [OF J env s small] by (auto simp: into_ffi_eq_Ok split: if_splits)
  then show ?thesis
    using decode_encode_envelope [OF J s wf(2)] small by (simp add: decode_envelope_ffi_def)
qed

lemma sealed_round_trip_ffi:
  assumes P: "aead_ok P" and p: "encodable (plaintext_from_ffi p)"
    and b: "seal_record_ffi P vk nonce p = Inr b"
  shows "open_record_ffi P vk b = Inr p"
proof -
  have "seal_record P vk nonce (plaintext_from_ffi p) = Inr b"
    using b by (simp add: seal_record_ffi_def into_ffi_eq_Ok)
  then have "open_record P vk b = Inr (plaintext_from_ffi p)"
    using open_record_seal_record [OF P] plaintext.dec_enc [OF p] by simp
  moreover have "plaintext_to_ffi (plaintext_from_ffi p) = p"
    using plaintext_mirror.enc_dec by blast
  ultimately show ?thesis by (simp add: open_record_ffi_def)
qed

lemma make_manifest_ffi_parts:
  assumes "make_vault_manifest_ffi U J P vk vid created kdf nonce = Inr bs"
  obtains i m where "uuid_parse U vid = Some i"
    "make_vault_manifest P vk i created (kdf_descriptor_from_ffi kdf) nonce = Inr m"
    "encode_vault_manifest J m = Inr bs"
  using assms by (auto simp: make_vault_manifest_ffi_def parse_uuid_def result_simps)

lemma new_vault_ffi:
  assumes P: "aead_ok P" and J: "manifest_json_ok J"
    and mk: "make_vault_manifest_ffi U J P vk vid created kdf nonce = Inr bs"
  shows "verify_passphrase_ffi J P vk bs = Inr True" "manifest_kdf_ffi J bs = Inr kdf"
proof -
  obtain i m where m: "make_vault_manifest P vk i created (kdf_descriptor_from_ffi kdf) nonce = Inr m"
    and e: "encode_vault_manifest J m = Inr bs" by (rule make_manifest_ffi_parts [OF mk])
  have v: "vm_format_version m = VAULT_FORMAT_VERSION" "vm_kdf m = kdf_descriptor_from_ffi kdf"
    using m by (auto simp: make_vault_manifest_def result_simps)
  obtain bs' where "encode_vault_manifest J m = Inr bs'" "decode_vault_manifest J bs' = Ok m"
    using decode_encode_manifest [OF J, of m] v by auto
  with e have d: "decode_vault_manifest J bs = Ok m" by simp
  show "verify_passphrase_ffi J P vk bs = Inr True"
    using verify_passphrase_make [OF P m] by (simp add: verify_passphrase_ffi_def d)
  show "manifest_kdf_ffi J bs = Inr kdf"
    by (cases kdf; cases "kdf_ffi_kind kdf")
      (simp add: manifest_kdf_ffi_def d v kdf_descriptor_from_ffi_def)
qed

lemma hlc_compare_ffi_sign:
  assumes "hlc_from_ffi U a = Inr x" "hlc_from_ffi U b = Inr y"
  shows "\<exists>w. hlc_compare_ffi U a b = Inr w \<and> sint w =
    (case hlc_compare x y of Less \<Rightarrow> -1 | Equal \<Rightarrow> 0 | Greater \<Rightarrow> 1)"
  using assms by (auto simp: hlc_compare_ffi_def split: ordering.splits)

end
