(* ===== verification/Instances.thy ===== *)
theory Instances
  imports Ffi Complex_Main
begin

text \<open>
  Concrete values for the parameters of the model, one for each piece of foreign code: a toy
  cipher suite, a self-delimiting text format in the place of JSON, identifiers as strings, the
  regex reference engine over ASCII tables, and exact real arithmetic in the place of \<open>f64\<close>.
  They satisfy the hypotheses of the properties, so that none of these is empty.
\<close>

section \<open>Primitives\<close>

text \<open>The tag is a copy of half the key, so that opening under another key fails.\<close>

definition toy_encrypt :: "bytes \<Rightarrow> bytes \<Rightarrow> bytes \<Rightarrow> bytes option" where
  "toy_encrypt k n p = Some (map (\<lambda>b. xor b (hd k)) p @ take 16 k)"

definition toy_decrypt :: "bytes \<Rightarrow> bytes \<Rightarrow> bytes \<Rightarrow> bytes option" where
  "toy_decrypt k n c =
     (if 16 \<le> length c \<and> drop (length c - 16) c = take 16 k
      then Some (map (\<lambda>b. xor b (hd k)) (take (length c - 16) c)) else None)"

definition byte_sum :: "bytes \<Rightarrow> u8" where "byte_sum bs = foldr (+) bs 0"

definition toy_primitives :: primitives where
  "toy_primitives =
     \<lparr>aes_gcm_encrypt = toy_encrypt, aes_gcm_decrypt = toy_decrypt,
      hmac_sha256 = (\<lambda>k m. Some (replicate 32 (byte_sum (k @ m)))),
      hkdf_sha256_expand = (\<lambda>k info n. Some (replicate n (byte_sum (k @ info)))),
      pbkdf2_hmac_sha256 = (\<lambda>pw salt r n. replicate n (byte_sum (pw @ salt))),
      nfc_normalize = (\<lambda>s. concat (map (\<lambda>c. if c = 0xE9 then [0x65, 0x301] else [c]) s))\<rparr>"

lemma toy_decrypt_encrypt:
  "length k = 32 \<Longrightarrow> toy_encrypt k n p = Some c \<Longrightarrow>
   length c = length p + 16 \<and> toy_decrypt k n c = Some p"
  by (auto simp: toy_encrypt_def toy_decrypt_def comp_def xor.assoc)

lemma toy_aead_ok: "aead_ok toy_primitives"
proof -
  have "length c = length p + 16 \<and> toy_decrypt k n c = Some p"
    if "length k = 32" "toy_encrypt k n p = Some c" for k n p c
    using that by (rule toy_decrypt_encrypt)
  moreover have "toy_encrypt k n p \<noteq> None" for k n p by (simp add: toy_encrypt_def)
  ultimately show ?thesis by (simp add: aead_ok_def toy_primitives_def len_defs)
qed

lemma xor_map_cancel: "map (\<lambda>b. xor (xor b m) m) bs = bs" for bs :: bytes
  by (induction bs) (simp_all add: xor.assoc)

lemma toy_aead_exact: "aead_exact toy_primitives"
proof -
  have "toy_encrypt k n p = Some c" if "toy_decrypt k n c = Some p" for k n c p
  proof -
    have "drop (length c - 16) c = take 16 k" "p = map (\<lambda>b. xor b (hd k)) (take (length c - 16) c)"
      using that by (auto simp: toy_decrypt_def split: if_splits)
    moreover have "take (length c - 16) c @ drop (length c - 16) c = c" by (rule append_take_drop_id)
    ultimately show ?thesis by (simp add: toy_encrypt_def comp_def xor_map_cancel)
  qed
  moreover have "p = q"
    if "length k = 32" "toy_encrypt k n p = Some c" "toy_encrypt k n q = Some d"
      "take (length c - 16) c = take (length d - 16) d" for k n p q c d
  proof -
    have "map (\<lambda>b. xor b (hd k)) p = map (\<lambda>b. xor b (hd k)) q" using that by (auto simp: toy_encrypt_def)
    from arg_cong [OF this, of "map (\<lambda>b. xor b (hd k))"] show ?thesis by (simp add: comp_def xor_map_cancel)
  qed
  ultimately show ?thesis by (simp add: aead_exact_def toy_primitives_def len_defs)
qed

lemma toy_nfc_ok: "nfc_ok toy_primitives"
  by (simp add: nfc_ok_def toy_primitives_def)

lemma toy_hkdf_ok: "hkdf_ok toy_primitives"
  by (simp add: hkdf_ok_def toy_primitives_def)

lemma toy_hmac_ok: "hmac_ok toy_primitives"
  by (simp add: hmac_ok_def toy_primitives_def)

lemma toy_pbkdf2_ok: "pbkdf2_ok toy_primitives"
  by (simp add: pbkdf2_ok_def toy_primitives_def)

section \<open>Text formats\<close>

text \<open>Numbers in unary with a terminator, strings with their length in front.\<close>

definition put_nat :: "nat \<Rightarrow> bytes" where "put_nat n = replicate n 1 @ [0]"

fun get_nat :: "bytes \<Rightarrow> (nat \<times> bytes) option" where
  "get_nat [] = None"
| "get_nat (b # bs) =
     (if b = 0 then Some (0, bs) else map_option (\<lambda>(n, r). (Suc n, r)) (get_nat bs))"

definition put_str :: "str \<Rightarrow> bytes" where
  "put_str s = put_nat (length s) @ concat (map put_nat s)"

fun get_nats :: "nat \<Rightarrow> bytes \<Rightarrow> (nat list \<times> bytes) option" where
  "get_nats 0 bs = Some ([], bs)"
| "get_nats (Suc k) bs =
     Option.bind (get_nat bs) (\<lambda>(n, r). map_option (\<lambda>(ns, r'). (n # ns, r')) (get_nats k r))"

definition get_str :: "bytes \<Rightarrow> (str \<times> bytes) option" where
  "get_str bs = Option.bind (get_nat bs) (\<lambda>(k, r). get_nats k r)"

lemma get_put_nat [simp]: "get_nat (put_nat n @ r) = Some (n, r)"
  by (induction n) (simp_all add: put_nat_def)

lemma get_put_nats [simp]: "get_nats (length ns) (concat (map put_nat ns) @ r) = Some (ns, r)"
  by (induction ns) simp_all

lemma get_put_str [simp]: "get_str (put_str s @ r) = Some (s, r)"
  by (simp add: get_str_def put_str_def)

definition toy_header_to_vec :: "record_header \<Rightarrow> bytes" where
  "toy_header_to_vec h =
     put_str [unat (format_version h), unat (record_id h), unat (origin_device_id h),
       unat (wall_millis (hdr_hlc h)), unat (counter (hdr_hlc h)), unat (node (hdr_hlc h)),
       unat (created_at h), unat (updated_at h), of_bool (deleted h)] @ put_str (sync_hash h)"

definition toy_header_from_slice :: "bytes \<Rightarrow> record_header option" where
  "toy_header_from_slice bs =
     Option.bind (get_str bs) (\<lambda>(ns, r). Option.bind (get_str r) (\<lambda>(s, r').
       case ns of
         [v, i, dev, w, c, nd, cr, up, del] \<Rightarrow>
           Some \<lparr>format_version = of_nat v, record_id = of_nat i, origin_device_id = of_nat dev,
                 hdr_hlc = \<lparr>wall_millis = of_nat w, counter = of_nat c, node = of_nat nd\<rparr>,
                 created_at = of_nat cr, updated_at = of_nat up, deleted = (del = 1), sync_hash = s\<rparr>
       | _ \<Rightarrow> None))"

definition toy_manifest_to_vec :: "(bytes \<Rightarrow> str) \<Rightarrow> vault_manifest \<Rightarrow> bytes" where
  "toy_manifest_to_vec ser m =
     put_str [unat (vm_format_version m), unat (vault_id m), unat (vm_created_at m),
       unat (kdf_iterations (kdf_kind (vm_kdf m))), unat (kdf_version (vm_kdf m))] @
     put_str (ser (kdf_salt (vm_kdf m))) @ put_str (ser (verifier m))"

definition toy_manifest_from_slice ::
  "(str \<Rightarrow> (hex_error, bytes) result) \<Rightarrow> bytes \<Rightarrow> (unit, vault_manifest) result" where
  "toy_manifest_from_slice de bs =
     rbind (ok_or () (get_str bs)) (\<lambda>(ns, r).
     rbind (ok_or () (get_str r)) (\<lambda>(salt_text, r').
     rbind (ok_or () (get_str r')) (\<lambda>(ver_text, r'').
       case ns of
         [v, i, cr, it, kv] \<Rightarrow>
           rbind (map_err (\<lambda>_. ()) (de salt_text)) (\<lambda>salt.
           rbind (map_err (\<lambda>_. ()) (de ver_text)) (\<lambda>ver.
             Ok \<lparr>vm_format_version = of_nat v, vault_id = of_nat i, vm_created_at = of_nat cr,
                 vm_kdf = \<lparr>kdf_kind = Pbkdf2HmacSha256 (of_nat it), kdf_salt = salt,
                   kdf_version = of_nat kv\<rparr>, verifier = ver\<rparr>))
       | _ \<Rightarrow> Err ())))"

definition toy_json :: json_text where
  "toy_json =
     \<lparr>header_to_vec = (\<lambda>h. Some (toy_header_to_vec h)), header_from_slice = toy_header_from_slice,
      manifest_to_vec = (\<lambda>ser m. Some (toy_manifest_to_vec ser m)),
      manifest_from_slice = toy_manifest_from_slice\<rparr>"

lemma get_put_str_end [simp]: "get_str (put_str s) = Some (s, [])"
  using get_put_str [of s "[]"] by simp

lemma toy_header_ok: "header_json_ok toy_json"
proof -
  have "toy_header_from_slice (toy_header_to_vec h) = Some h" for h
    by (cases h; cases "hdr_hlc h") (simp add: toy_header_from_slice_def toy_header_to_vec_def)
  then show ?thesis by (simp add: header_json_ok_def toy_json_def)
qed

lemma toy_manifest_ok: "manifest_json_ok toy_json"
proof -
  have "toy_manifest_from_slice de (toy_manifest_to_vec ser m) =
      rbind (map_err (\<lambda>_. ()) (de (ser (kdf_salt (vm_kdf m))))) (\<lambda>salt.
      rbind (map_err (\<lambda>_. ()) (de (ser (verifier m)))) (\<lambda>ver.
        Ok (m\<lparr>vm_kdf := (vm_kdf m)\<lparr>kdf_salt := salt\<rparr>, verifier := ver\<rparr>)))" for de ser m
    by (cases m; cases "vm_kdf m"; cases "kdf_kind (vm_kdf m)")
      (simp add: toy_manifest_from_slice_def toy_manifest_to_vec_def)
  then show ?thesis by (simp add: manifest_json_ok_def toy_json_def)
qed

section \<open>Identifiers, tables, engines, numbers\<close>

definition toy_uuid_text :: uuid_text where
  "toy_uuid_text =
     \<lparr>uuid_parse = (\<lambda>s. case s of [n] \<Rightarrow> Some (of_nat n) | _ \<Rightarrow> None),
      uuid_format = (\<lambda>u. [unat u])\<rparr>"

lemma toy_uuid_text_ok: "uuid_text_ok toy_uuid_text"
  by (simp add: uuid_text_ok_def toy_uuid_text_def)

definition ascii_classes :: rx_classes where
  "ascii_classes =
     \<lparr>word_char = (\<lambda>c. is_ascii_alphanumeric c \<or> c = 95),
      space_char = (\<lambda>c. c = 32 \<or> 9 \<le> c \<and> c \<le> 13),
      variants = (\<lambda>c. if is_ascii_uppercase c then [c + 32]
                       else if is_ascii_lowercase c then [c - 32] else [])\<rparr>"

lemma ascii_classes_ok: "classes_ok ascii_classes"
  by (simp add: classes_ok_def ascii_classes_def)

definition ascii_engine :: regex_engine where
  "ascii_engine = reference_engine ascii_classes (\<lambda>p. Some (rx_seq (map Ch p)))"

lemma ascii_engine_ok: "engine_ok ascii_classes ascii_engine"
  unfolding ascii_engine_def by (rule reference_engine_ok)

definition real_ops :: "real f64_ops" where
  "real_ops =
     \<lparr>f_dec = (\<lambda>m k. real m / 10 ^ k), f_from_u32 = (\<lambda>w. real (unat w)), f_from_usize = real,
      f_neg = uminus, f_add = (+), f_mul = (*), f_div = (/), f_log2 = log 2, f_min = min,
      f_lt = (<), f_ge = (\<ge>), f_sum_start = 0\<rparr>"

end
