(* ===== verification/Record_Properties.thy ===== *)
theory Record_Properties
  imports Instances
begin

text \<open>
  The properties of the crypto, KDF and record components, each with a witness on the concrete
  instances of theory Instances.
\<close>

section \<open>Samples\<close>

definition sample_plaintext :: record_plaintext where
  "sample_plaintext =
     \<lparr>title = lit ''note'', primary_type = lit ''txt'', source_bundle = Some (lit ''app''),
      is_color_code = True, representations = [\<lparr>uttype = lit ''u'', rep_data = [1, 2, 3]\<rparr>]\<rparr>"

definition sample_key :: bytes where "sample_key = replicate 32 7"
definition sample_nonce :: bytes where "sample_nonce = replicate 12 9"

definition sample_hlc :: hlc where "sample_hlc = \<lparr>wall_millis = 5, counter = 1, node = 3\<rparr>"

definition sample_header :: "bool \<Rightarrow> record_header" where
  "sample_header del =
     \<lparr>format_version = 1, record_id = 4, origin_device_id = 3, hdr_hlc = sample_hlc,
      created_at = 2, updated_at = 2, deleted = del, sync_hash = lit ''ab''\<rparr>"

definition sample_kdf :: kdf_descriptor where
  "sample_kdf = \<lparr>kdf_kind = Pbkdf2HmacSha256 2, kdf_salt = [1, 2], kdf_version = 1\<rparr>"

lemmas sample_defs = sample_plaintext_def sample_key_def sample_nonce_def sample_hlc_def
  sample_header_def sample_kdf_def

lemma sample_lengths [simp]: "length sample_key = 32" "length sample_nonce = 12"
  by (simp_all add: sample_defs)

lemma valid_str_lit: "\<forall>c \<in> set s. of_char c < (128 :: nat) \<Longrightarrow> valid_str (lit s)"
  by (auto simp: valid_str_def lit_def list_all_iff is_scalar_ascii)

lemma sample_valid [simp]: "valid_str (sync_hash (sample_header d))"
  by (simp add: sample_header_def valid_str_lit)

lemma length_as_bytes_lit: "\<forall>c \<in> set s. of_char c < (128 :: nat) \<Longrightarrow> length (as_bytes (lit s)) = length s"
  by (subst as_bytes_ascii) (auto simp: lit_def)

lemma sample_encodable: "encodable sample_plaintext"
  by (simp add: encodable_def sample_plaintext_def str_field_ok_def field_len_ok_def rep_ok_def
      length_as_bytes_lit valid_str_lit)

lemma length_put_string: "length (put_string s) = 4 + length (as_bytes s)"
  by (simp add: put_string_def length_put_field)

lemma sample_encoding_length: "length (encode_plaintext sample_plaintext) = 40"
  by (simp add: encode_plaintext_layout length_put_string length_put_field sample_plaintext_def
      length_as_bytes_lit bundle_bytes_def flag_bytes_def rep_bytes_def)

section \<open>Records\<close>

text \<open>C1: sealing a record under a 32-byte vault key and a 12-byte nonce succeeds for every
  plaintext the layout can hold, the sealed body starts with the nonce, and opening it under the
  same key gives exactly the plaintext back.\<close>

theorem record_round_trip:
  assumes "aead_ok P" "hkdf_ok P" "length vk = 32" "length nonce = 12"
    and "encodable p" "length (encode_plaintext p) \<le> AEAD_MAX"
  shows "\<exists>b. seal_record P vk nonce p = Ok b \<and> take 12 b = nonce \<and> open_record P vk b = Ok p"
proof -
  obtain b where b: "seal_record P vk nonce p = Ok b" using seal_record_total assms by blast
  then obtain sk where "local_seal P sk nonce (encode_plaintext p) = Inr b" by (rule seal_record_Ok)
  then have "take 12 b = nonce" using box.seal_layout [OF assms(1)] by blast
  with b show ?thesis
    using open_record_seal_record [OF assms(1) b] decode_encode_plaintext [OF assms(5)] by auto
qed

theorem record_round_trip_witness:
  "\<exists>b. seal_record toy_primitives sample_key sample_nonce sample_plaintext = Ok b \<and>
     take 12 b = sample_nonce \<and> open_record toy_primitives sample_key b = Ok sample_plaintext"
  by (rule record_round_trip)
    (simp_all add: toy_aead_ok toy_hkdf_ok sample_encodable sample_encoding_length AEAD_MAX_def)

text \<open>C4: the plaintext layout is canonical. Whatever the decoder accepts is the encoder's output
  for the value it returns, byte for byte, and that value is within all limits; so two different
  byte strings never decode to the same record.\<close>

theorem plaintext_canonical:
  assumes "decode_plaintext bs = Ok p"
  shows "encode_plaintext p = bs \<and> encodable p"
  using assms by (rule decode_plaintext_exact)

theorem plaintext_canonical_witness:
  "decode_plaintext (encode_plaintext sample_plaintext) = Ok sample_plaintext \<and>
   encodable sample_plaintext"
proof -
  have d: "decode_plaintext (encode_plaintext sample_plaintext) = Ok sample_plaintext"
    by (rule decode_encode_plaintext [OF sample_encodable])
  from plaintext_canonical [OF this] d show ?thesis by simp
qed

text \<open>C11: decoding an encoded envelope gives it back exactly when it is well formed (the known
  version, a body if and only if it is not a tombstone); every other envelope is rejected as an
  unsupported format.\<close>

theorem envelope_round_trip_iff:
  assumes "header_json_ok J" "valid_str (sync_hash (header env))"
    and "encode_envelope J env = Ok bs" "length bs < 2 ^ 32"
  shows "decode_envelope J bs = (if env_wf env then Ok env else Err UnsupportedFormat)"
  using assms by (rule decode_encode_envelope)

definition sample_envelope :: "bool \<Rightarrow> bytes option \<Rightarrow> record_envelope" where
  "sample_envelope del b = \<lparr>header = sample_header del, body = b\<rparr>"

definition sample_envelope_bytes :: "bool \<Rightarrow> bytes option \<Rightarrow> bytes" where
  "sample_envelope_bytes del b =
     (let hj = toy_header_to_vec (sample_header del) in
      u32_to_le_bytes (as_u32 (length hj)) @ hj @ (case b of Some b \<Rightarrow> 1 # b | None \<Rightarrow> [0]))"

lemma sample_envelope_encoded:
  "encode_envelope toy_json (sample_envelope del b) = Ok (sample_envelope_bytes del b)"
  by (simp add: encode_envelope_def toy_json_def sample_envelope_def sample_envelope_bytes_def
      Let_def split: option.split)

lemma length_put_str: "length (put_str s) = 2 * length s + sum_list s + 1"
  by (induction s) (simp_all add: put_str_def put_nat_def)

lemma length_sample_header: "length (toy_header_to_vec (sample_header del)) \<le> 1000"
  by (cases del)
    (simp_all add: toy_header_to_vec_def length_put_str sample_header_def sample_hlc_def lit_def)

lemma length_sample_envelope: "length (sample_envelope_bytes del b) \<le> 1005 + (case b of None \<Rightarrow> 0 | Some b \<Rightarrow> length b)"
  using length_sample_header [of del]
  by (simp add: sample_envelope_bytes_def Let_def split: option.split)

theorem envelope_round_trip_iff_witness:
  "decode_envelope toy_json (sample_envelope_bytes True (Some [1])) = Err UnsupportedFormat \<and>
   \<not> env_wf (sample_envelope True (Some [1]))"
  using envelope_round_trip_iff [OF toy_header_ok _ sample_envelope_encoded [of True "Some [1]"]]
    length_sample_envelope [of True "Some [1]"]
  by (simp add: sample_envelope_def env_wf_def sample_header_def valid_str_lit RECORD_FORMAT_VERSION_def)

text \<open>C25: the decoders are sound for their types and total on hostile input. A plaintext that is
  returned is within every limit the encoder needs and its encoding has the length of the input; an
  envelope that is returned has the known version and a body if and only if it is no tombstone, and the
  body is at least five bytes shorter than the input; a manifest that is returned has the known
  version. Every other input of the first two is an unsupported format, without any panic; of the
  manifest decoder it is an unsupported format or a panic of the hex helper.\<close>

theorem decoders_type_sound:
  "(case decode_plaintext bs of
      Inr p \<Rightarrow> encodable p \<and> length (encode_plaintext p) = length bs
    | Inl e \<Rightarrow> e = Fail UnsupportedFormat) \<and>
   (case decode_envelope J bs of
      Inr env \<Rightarrow> env_wf env \<and> pred_option (\<lambda>b. length b + 5 \<le> length bs) (body env)
    | Inl e \<Rightarrow> e = Fail UnsupportedFormat) \<and>
   (case decode_vault_manifest J bs of
      Inr m \<Rightarrow> vm_format_version m = VAULT_FORMAT_VERSION
    | Inl e \<Rightarrow> e = Fail UnsupportedFormat \<or> e = Panic)"
proof (intro conjI)
  show "case decode_plaintext bs of Inr p \<Rightarrow> encodable p \<and> length (encode_plaintext p) = length bs
    | Inl e \<Rightarrow> e = Fail UnsupportedFormat"
    using decode_plaintext_error decode_plaintext_exact by (auto split: sum.split)
  have "env_wf env \<and> pred_option (\<lambda>b. length b + 5 \<le> length bs) (body env)"
    if "decode_envelope J bs = Inr env" for env
    using that by (rule decode_envelope_eq_Ok) (cases "body env"; auto simp: flagged_body_def split: if_splits)
  then show "case decode_envelope J bs of
      Inr env \<Rightarrow> env_wf env \<and> pred_option (\<lambda>b. length b + 5 \<le> length bs) (body env)
    | Inl e \<Rightarrow> e = Fail UnsupportedFormat"
    using decode_envelope_error by (simp split: sum.split)
  show "case decode_vault_manifest J bs of Inr m \<Rightarrow> vm_format_version m = VAULT_FORMAT_VERSION
    | Inl e \<Rightarrow> e = Fail UnsupportedFormat \<or> e = Panic"
  proof (cases "manifest_from_slice J hex_deserialize bs")
    case (Inl f)
    then show ?thesis by (cases f) (simp_all add: decode_vault_manifest_def)
  qed (simp add: decode_vault_manifest_def)
qed

text \<open>The sealed box. Opening what was sealed under the same key gives the plaintext, the box
  starts with the caller's nonce and is 28 bytes longer than the plaintext; and sealing succeeds
  only for a 32-byte key and a 12-byte nonce.\<close>

theorem sealed_box_round_trip:
  assumes "aead_ok P" "local_seal P k n p = Ok b"
  shows "local_open P k b = Ok p \<and> take 12 b = n \<and> length b = length p + 28 \<and>
    length k = 32 \<and> length n = 12"
  using box.unseal_seal [OF assms] box.seal_layout [OF assms] box.seal_args [OF assms(2)] by simp

lemma sample_box:
  "local_seal toy_primitives sample_key sample_nonce p = Ok (sample_nonce @ map (\<lambda>b. xor b 7) p @ replicate 16 7)"
  by (simp add: local_seal_def cipher_def len_defs toy_primitives_def toy_encrypt_def sample_key_def
      sample_nonce_def)

theorem sealed_box_round_trip_witness:
  "local_open toy_primitives sample_key (sample_nonce @ map (\<lambda>b. xor b 7) [1, 2] @ replicate 16 7) = Ok [1, 2]"
  using sealed_box_round_trip [OF toy_aead_ok sample_box [of "[1, 2]"]] by (rule conjunct1)

text \<open>Decoding the encoding of a plaintext within the limits gives it back.\<close>

theorem plaintext_round_trip:
  assumes "encodable p"
  shows "decode_plaintext (encode_plaintext p) = Ok p"
  using assms by (rule decode_encode_plaintext)

theorem plaintext_round_trip_witness:
  "decode_plaintext (encode_plaintext (sample_plaintext\<lparr>source_bundle := None\<rparr>)) =
     Ok (sample_plaintext\<lparr>source_bundle := None\<rparr>)"
  by (rule plaintext_round_trip)
    (use sample_encodable in \<open>simp add: encodable_def sample_plaintext_def\<close>)

text \<open>What opening a record can answer. A key of the wrong length is an invalid input, and with
  a key of the right length and its subkey a body that does not authenticate is a failed decryption,
  an authentic body is opened to a plaintext exactly if it is the encoding of that plaintext and the
  plaintext is within all limits, and every other authentic body is an unsupported format. Opening
  never panics.\<close>

theorem opening_outcomes:
  assumes "hkdf_ok P"
  shows "(length vk \<noteq> 32 \<longrightarrow> open_record P vk b = Err InvalidInput) \<and>
    (length vk = 32 \<longrightarrow> (\<exists>sk. hkdf_subkey P vk INFO_CCLIP = Ok sk \<and>
      (open_record P vk b = Err DecryptFailed \<longleftrightarrow> (\<forall>pt. local_open P sk b \<noteq> Ok pt)) \<and>
      (\<forall>p. open_record P vk b = Ok p \<longleftrightarrow> encodable p \<and> local_open P sk b = Ok (encode_plaintext p)) \<and>
      (\<forall>pt. local_open P sk b = Ok pt \<longrightarrow> (\<forall>p. encodable p \<longrightarrow> encode_plaintext p \<noteq> pt) \<longrightarrow>
         open_record P vk b = Err UnsupportedFormat))) \<and>
    open_record P vk b \<noteq> Panicked"
proof (cases "length vk = 32")
  case False
  then show ?thesis by (simp add: open_record_def as_key32_def KEY_LEN_def)
next
  case True
  obtain sk where sk: "length sk = 32" "hkdf_subkey P vk INFO_CCLIP = Ok sk"
    by (rule vault_subkey [OF assms True])
  note unf = open_record_unfold [OF True sk(2), of b]
  show ?thesis
  proof (cases "local_open P sk b")
    case (Inl e)
    then have "e = Fail DecryptFailed" by (rule local_open_error [OF _ sk(1)])
    with Inl True sk(2) show ?thesis by (simp add: unf)
  next
    case (Inr pt)
    have ok: "open_record P vk b = Ok p \<longleftrightarrow> encodable p \<and> pt = encode_plaintext p" for p
      using decode_plaintext_exact decode_encode_plaintext by (auto simp: unf Inr)
    have err: "open_record P vk b = Inl e \<Longrightarrow> e = Fail UnsupportedFormat" for e
      using decode_plaintext_error by (simp add: unf Inr)
    then have "open_record P vk b \<noteq> Panicked" "open_record P vk b \<noteq> Err DecryptFailed" by auto
    moreover have "open_record P vk b = Err UnsupportedFormat"
      if "\<forall>p. encodable p \<longrightarrow> encode_plaintext p \<noteq> pt"
    proof (cases "open_record P vk b")
      case (Inr p)
      with ok [of p] that show ?thesis by blast
    qed (simp add: err)
    ultimately show ?thesis using True sk(2) ok by (auto simp: Inr)
  qed
qed

theorem opening_outcomes_witness:
  "open_record toy_primitives [1, 2, 3] [] = Err InvalidInput \<and>
   open_record toy_primitives sample_key [] = Err DecryptFailed"
proof
  show "open_record toy_primitives [1, 2, 3] [] = Err InvalidInput"
    using opening_outcomes [OF toy_hkdf_ok, of "[1, 2, 3]" "[]"] by simp
  have "local_open toy_primitives sk [] \<noteq> Ok pt" for sk pt by (simp add: local_open_eq_Ok)
  then show "open_record toy_primitives sample_key [] = Err DecryptFailed"
    using opening_outcomes [OF toy_hkdf_ok, of sample_key "[]"] by auto
qed

lemma unsupported_body:
  assumes "aead_ok P" "aead_exact P" "hkdf_ok P" "length b \<le> AEAD_MAX + 28"
  shows "open_record P vk b = Err UnsupportedFormat \<longleftrightarrow> length vk = 32 \<and>
    (\<exists>sk pt. hkdf_subkey P vk INFO_CCLIP = Ok sk \<and> local_seal P sk (take 12 b) pt = Ok b \<and>
       (\<forall>p. encodable p \<longrightarrow> encode_plaintext p \<noteq> pt))"
proof (cases "length vk = 32")
  case True
  obtain sk where sk: "length sk = 32" "hkdf_subkey P vk INFO_CCLIP = Ok sk" by (rule vault_subkey [OF assms(3) True])
  note open_iff = gcm.unseal_iff_sealed [OF assms(1,2,4), of sk]
  note out = opening_outcomes [OF assms(3), of vk b]
  show ?thesis
  proof (cases "local_open P sk b")
    case (Inl e)
    then have "\<forall>pt. local_seal P sk (take 12 b) pt \<noteq> Ok b" using open_iff by simp
    moreover have "open_record P vk b = Err DecryptFailed" using out True sk(2) Inl by auto
    ultimately show ?thesis using sk(2) by auto
  next
    case (Inr pt)
    then have pt: "local_seal P sk (take 12 b) q = Ok b \<longleftrightarrow> q = pt" for q using open_iff [of q] by auto
    have "open_record P vk b = Err UnsupportedFormat \<longleftrightarrow> (\<forall>p. encodable p \<longrightarrow> encode_plaintext p \<noteq> pt)"
      using out True sk(2) Inr by auto
    with True sk(2) pt show ?thesis by auto
  qed
qed (simp add: open_record_def as_key32_def KEY_LEN_def)

text \<open>C20: the bodies that open are the sealed ones. When authentication is exact, a body of any
  admissible length opens to a plaintext under a vault key exactly if it is, byte for byte, what
  sealing that plaintext under the nonce in its first twelve bytes gives and the plaintext is within
  all limits. It is an unsupported format exactly if it is a seal of something else under the record
  subkey, an invalid input exactly if the key has not 32 bytes, and otherwise a failed decryption, never a
  panic; and a body that differs from one that opens in nothing but the tag is a failed decryption,
  whatever the other tag is.\<close>

theorem only_sealed_bodies_open:
  assumes "aead_ok P" "aead_exact P" "hkdf_ok P" "length b \<le> AEAD_MAX + 28"
  shows "(open_record P vk b = Ok p \<longleftrightarrow> encodable p \<and> seal_record P vk (take 12 b) p = Ok b) \<and>
    (open_record P vk b = Err UnsupportedFormat \<longleftrightarrow> length vk = 32 \<and>
       (\<exists>sk pt. hkdf_subkey P vk INFO_CCLIP = Ok sk \<and> local_seal P sk (take 12 b) pt = Ok b \<and>
          (\<forall>p. encodable p \<longrightarrow> encode_plaintext p \<noteq> pt))) \<and>
    (open_record P vk b = Err InvalidInput \<longleftrightarrow> length vk \<noteq> 32) \<and>
    open_record P vk b \<in> range Inr \<union> Err ` {UnsupportedFormat, InvalidInput, DecryptFailed} \<and>
    (open_record P vk b = Ok p \<longrightarrow> length c = length b \<longrightarrow> take (length b - 16) c = take (length b - 16) b \<longrightarrow>
       c \<noteq> b \<longrightarrow> open_record P vk c = Err DecryptFailed)"
proof (intro conjI impI)
  show "open_record P vk b = Ok p \<longleftrightarrow> encodable p \<and> seal_record P vk (take 12 b) p = Ok b"
    by (rule open_record_iff_sealed [OF assms])
  show "open_record P vk b = Err UnsupportedFormat \<longleftrightarrow> length vk = 32 \<and>
     (\<exists>sk pt. hkdf_subkey P vk INFO_CCLIP = Ok sk \<and> local_seal P sk (take 12 b) pt = Ok b \<and>
        (\<forall>p. encodable p \<longrightarrow> encode_plaintext p \<noteq> pt))" by (rule unsupported_body [OF assms])
  have "open_record P vk b \<in> (if length vk \<noteq> 32 then {Err InvalidInput}
      else range Inr \<union> {Err UnsupportedFormat, Err DecryptFailed})" (is "_ \<in> ?outcomes")
    using opening_outcomes [OF assms(3), of vk b]
    by (cases "open_record P vk b") (auto simp: open_record_def as_key32_def KEY_LEN_def result_simps
        dest!: decode_plaintext_error local_open_error split: if_splits)
  then show "open_record P vk b = Err InvalidInput \<longleftrightarrow> length vk \<noteq> 32"
    "open_record P vk b \<in> range Inr \<union> Err ` {UnsupportedFormat, InvalidInput, DecryptFailed}"
    by (auto split: if_splits)
  show "open_record P vk c = Err DecryptFailed"
    if "open_record P vk b = Ok p" "length c = length b" "take (length b - 16) c = take (length b - 16) b" "c \<noteq> b"
    by (rule open_record_changed_tag [OF assms that])
qed

lemma toy_subkey: "\<exists>m. hkdf_subkey toy_primitives sample_key INFO_CCLIP = Ok (replicate 32 m)"
  by (simp add: hkdf_subkey_def toy_primitives_def KEY_LEN_def)

lemma sample_sealed:
  "\<exists>m. seal_record toy_primitives sample_key sample_nonce sample_plaintext =
     Ok (sample_nonce @ map (\<lambda>b. xor b m) (encode_plaintext sample_plaintext) @ replicate 16 m)"
proof -
  obtain m where "hkdf_subkey toy_primitives sample_key INFO_CCLIP = Ok (replicate 32 m)" using toy_subkey by blast
  then have "seal_record toy_primitives sample_key sample_nonce sample_plaintext =
      local_seal toy_primitives (replicate 32 m) sample_nonce (encode_plaintext sample_plaintext)"
    by (intro seal_record_unfold) simp
  then show ?thesis
    by (auto simp: local_seal_def cipher_def len_defs toy_primitives_def toy_encrypt_def)
qed

theorem only_sealed_bodies_open_witness:
  "\<exists>b c. open_record toy_primitives sample_key b = Ok sample_plaintext \<and> length c = length b \<and> c \<noteq> b \<and>
     open_record toy_primitives sample_key c = Err DecryptFailed"
proof -
  obtain m where seal: "seal_record toy_primitives sample_key sample_nonce sample_plaintext =
      Ok (sample_nonce @ map (\<lambda>b. xor b m) (encode_plaintext sample_plaintext) @ replicate 16 m)"
    using sample_sealed by blast
  define front where "front = sample_nonce @ map (\<lambda>b. xor b m) (encode_plaintext sample_plaintext)"
  have l: "length front = 52" by (simp add: front_def sample_encoding_length)
  have t: "take 12 (front @ replicate 16 m) = sample_nonce" by (simp add: front_def)
  have "length (front @ replicate 16 m) \<le> AEAD_MAX + 28" by (simp add: l AEAD_MAX_def)
  note all = only_sealed_bodies_open [OF toy_aead_ok toy_aead_exact toy_hkdf_ok this, of sample_key sample_plaintext
      "front @ replicate 16 (m + 1)"]
  have o: "open_record toy_primitives sample_key (front @ replicate 16 m) = Ok sample_plaintext"
    using all seal sample_encodable by (simp add: t) (simp add: front_def)
  moreover have "open_record toy_primitives sample_key (front @ replicate 16 (m + 1)) = Err DecryptFailed"
    using all o by (simp add: l)
  ultimately show ?thesis by (intro exI [of _ "front @ replicate 16 m"] exI [of _ "front @ replicate 16 (m + 1)"]) simp
qed

section \<open>Keys and the vault\<close>

text \<open>The key the KDF derives is one the record component accepts. Derivation succeeds exactly
  for a usable descriptor (the known version, a salt, at least one iteration) and then sealing
  under the derived key cannot fail.\<close>

theorem derived_key_seals:
  assumes "primitives_ok P" "length nonce = 12" "length (encode_plaintext p) \<le> AEAD_MAX"
  shows "(if kdf_usable d
     then \<exists>k b. derive_vault_key P pw d = Ok k \<and> length k = 32 \<and> seal_record P k nonce p = Ok b
     else derive_vault_key P pw d = Err UnsupportedFormat \<or> derive_vault_key P pw d = Err KdfFailed)"
proof (cases "kdf_usable d")
  case False
  then show ?thesis by (simp add: derive_vault_key_cases)
next
  case True
  then obtain k where k: "derive_vault_key P pw d = Ok k" by (auto simp: derive_vault_key_eq_Ok)
  have P: "aead_ok P" "hkdf_ok P" "pbkdf2_ok P" using assms(1) by (simp_all add: primitives_ok_def)
  have "length k = 32" using derive_vault_key_length [OF P(3) k] by (simp add: KEY_LEN_def)
  with True k seal_record_total [OF P(1,2) _ assms(2,3)] show ?thesis by auto
qed

lemma toy_primitives_ok: "primitives_ok toy_primitives"
  by (simp add: primitives_ok_def toy_aead_ok toy_hkdf_ok toy_hmac_ok toy_pbkdf2_ok)

lemma sample_kdf_usable: "kdf_usable sample_kdf"
  by (simp add: kdf_usable_def sample_kdf_def KDF_VERSION_def)

theorem derived_key_seals_witness:
  "\<exists>k b. derive_vault_key toy_primitives (lit ''pw'') sample_kdf = Ok k \<and> length k = 32 \<and>
     seal_record toy_primitives k sample_nonce sample_plaintext = Ok b"
  using derived_key_seals [OF toy_primitives_ok, of sample_nonce sample_plaintext sample_kdf "lit ''pw''"]
  by (simp add: sample_kdf_usable sample_encoding_length AEAD_MAX_def)

text \<open>The hex helper decodes what it encodes, and no string of ASCII characters makes it
  panic.\<close>

theorem hex_round_trip:
  "hex_deserialize (hex_serialize bs) = Ok bs \<and>
   (list_all (\<lambda>c. c < 128) s \<longrightarrow> hex_deserialize s \<noteq> Panicked)"
  using hex_deserialize_serialize hex_deserialize_ascii_no_panic by (auto simp: list_all_iff)

theorem hex_round_trip_witness:
  "hex_deserialize (lit ''zz'') \<noteq> Panicked"
  using hex_round_trip [of "[]" "lit ''zz''"] by (simp add: lit_def)

text \<open>C34: a manifest of the known version survives being written as JSON and read back, salt and
  verifier included; a manifest of any other version is refused on reading.\<close>

theorem manifest_round_trip:
  assumes "manifest_json_ok J"
  shows "\<exists>bs. encode_vault_manifest J m = Ok bs \<and>
    decode_vault_manifest J bs =
      (if vm_format_version m = VAULT_FORMAT_VERSION then Ok m else Err UnsupportedFormat)"
  using decode_encode_manifest [OF assms] by metis

definition sample_manifest :: vault_manifest where
  "sample_manifest = \<lparr>vm_format_version = 1, vault_id = 8, vm_created_at = 3, vm_kdf = sample_kdf,
     verifier = [5, 6]\<rparr>"

theorem manifest_round_trip_witness:
  "\<exists>bs. encode_vault_manifest toy_json sample_manifest = Ok bs \<and>
     decode_vault_manifest toy_json bs = Ok sample_manifest"
  using manifest_round_trip [OF toy_manifest_ok, of sample_manifest]
  by (simp add: sample_manifest_def VAULT_FORMAT_VERSION_def)

text \<open>C35: the verifier pins the key down. When authentication is exact, \<open>verify_passphrase\<close> accepts a key
  for a manifest of the known version exactly if the manifest is, in every field, what creating the
  vault under that key, with the nonce in the verifier's first twelve bytes, writes; every other key,
  keys of the wrong length among them, is answered with false and never with a panic.\<close>

theorem verifier_pins_key:
  assumes "aead_ok P" "aead_exact P" "hkdf_ok P" "length (verifier m) \<le> AEAD_MAX + 28"
    and "vm_format_version m = VAULT_FORMAT_VERSION"
  shows "verify_passphrase P vk m =
    Ok (make_vault_manifest P vk (vault_id m) (vm_created_at m) (vm_kdf m) (take 12 (verifier m)) = Ok m)"
  using assms by (rule verify_passphrase_exact)

definition verified_manifest :: "u8 \<Rightarrow> vault_manifest" where
  "verified_manifest k = sample_manifest\<lparr>verifier :=
     sample_nonce @ map (\<lambda>b. xor b k) VERIFIER_PLAINTEXT @ replicate 16 k\<rparr>"

theorem verifier_pins_key_witness:
  "verify_passphrase toy_primitives sample_key sample_manifest = Ok False \<and>
   (\<exists>k. verify_passphrase toy_primitives sample_key (verified_manifest k) = Ok True)"
proof -
  obtain k where k: "hkdf_subkey toy_primitives sample_key INFO_CCLIP = Ok (replicate 32 k)" using toy_subkey by blast
  have "aes_gcm_encrypt toy_primitives = toy_encrypt" by (simp add: toy_primitives_def)
  note make_eval = make_vault_manifest_def as_key32_def local_seal_def cipher_def len_defs k sample_manifest_def
    this toy_encrypt_def
  have "make_vault_manifest toy_primitives sample_key (vault_id sample_manifest) (vm_created_at sample_manifest)
      (vm_kdf sample_manifest) (take 12 (verifier sample_manifest)) = Err InvalidInput"
    by (simp add: make_eval)
  then have "verify_passphrase toy_primitives sample_key sample_manifest = Ok False"
    using verifier_pins_key [OF toy_aead_ok toy_aead_exact toy_hkdf_ok, of sample_manifest sample_key]
    by (simp add: sample_manifest_def VAULT_FORMAT_VERSION_def AEAD_MAX_def)
  moreover have "make_vault_manifest toy_primitives sample_key (vault_id (verified_manifest k))
      (vm_created_at (verified_manifest k)) (vm_kdf (verified_manifest k)) (take 12 (verifier (verified_manifest k))) =
      Ok (verified_manifest k)"
    by (simp add: make_eval verified_manifest_def VAULT_FORMAT_VERSION_def)
  then have "verify_passphrase toy_primitives sample_key (verified_manifest k) = Ok True"
    using verifier_pins_key [OF toy_aead_ok toy_aead_exact toy_hkdf_ok, of "verified_manifest k" sample_key]
    by (simp add: verified_manifest_def sample_manifest_def VAULT_FORMAT_VERSION_def AEAD_MAX_def
        VERIFIER_PLAINTEXT_def blit_def lit_def)
  ultimately show ?thesis by blast
qed

section \<open>Where the code falls short\<close>

text \<open>C37: reading a vault manifest can panic. The hex helper slices the salt string at every
  second byte; a salt such as \<open>a\<close>, \<open>U+00E9\<close>, \<open>b\<close> has an even number of bytes and a slice that
  ends inside a character, so decoding the manifest panics instead of reporting an error.\<close>

theorem manifest_decoding_can_panic:
  assumes "manifest_json_ok J" "manifest_to_vec J (\<lambda>_. [97, 233, 98]) m = Some bs"
  shows "decode_vault_manifest J bs = Panicked"
proof (rule decode_manifest_bad_salt [OF assms(1) _ _ assms(2)])
  show "valid_str [97, 233, 98]" by (simp add: is_scalar_def)
  show "hex_deserialize [97, 233, 98] = Panicked" by code_simp
qed

theorem manifest_decoding_can_panic_witness:
  "decode_vault_manifest toy_json (toy_manifest_to_vec (\<lambda>_. [97, 233, 98]) sample_manifest) = Panicked"
  by (rule manifest_decoding_can_panic [OF toy_manifest_ok]) (simp add: toy_json_def)

text \<open>C38: sealing does not enforce the cap that opening enforces. A plaintext with more than 4096
  representations is sealed without an error, and the result can never be opened.\<close>

theorem over_cap_sealed_for_good:
  assumes "aead_ok P" "hkdf_ok P" "length vk = 32" "length nonce = 12"
    and "encodable (p\<lparr>representations := []\<rparr>)" "length (encode_plaintext p) \<le> AEAD_MAX"
    and "4096 < length (representations p)" "length (representations p) < 2 ^ 32"
  shows "\<exists>b. seal_record P vk nonce p = Ok b \<and> open_record P vk b = Err UnsupportedFormat"
proof -
  obtain b where b: "seal_record P vk nonce p = Ok b"
    using seal_record_total [OF assms(1-4,6)] by blast
  have "length (encode_plaintext p) \<le> usize_max"
    using assms(6) by (simp add: AEAD_MAX_def usize_max_def)
  then have "decode_plaintext (encode_plaintext p) = Err UnsupportedFormat"
    using assms(5,7,8) by (intro decode_over_cap) (simp_all add: encodable_def)
  with b show ?thesis using open_record_seal_record [OF assms(1) b] by auto
qed

definition crowded_plaintext :: record_plaintext where
  "crowded_plaintext =
     sample_plaintext\<lparr>representations := replicate 4097 \<lparr>uttype = [], rep_data = []\<rparr>\<rparr>"

lemma length_concat_replicate: "length (concat (replicate n xs)) = n * length xs"
  by (induction n) simp_all

theorem over_cap_sealed_for_good_witness:
  "\<exists>b. seal_record toy_primitives sample_key sample_nonce crowded_plaintext = Ok b \<and>
     open_record toy_primitives sample_key b = Err UnsupportedFormat"
proof (rule over_cap_sealed_for_good [OF toy_aead_ok toy_hkdf_ok])
  show "encodable (crowded_plaintext\<lparr>representations := []\<rparr>)"
    using sample_encodable by (simp add: crowded_plaintext_def encodable_def)
  have "length (encode_plaintext crowded_plaintext) = 28 + 4097 * 8"
    by (simp add: encode_plaintext_layout length_put_string length_put_field crowded_plaintext_def
        sample_plaintext_def length_as_bytes_lit bundle_bytes_def flag_bytes_def
        length_concat_replicate rep_bytes_def)
  then show "length (encode_plaintext crowded_plaintext) \<le> AEAD_MAX" by (simp add: AEAD_MAX_def)
qed (simp_all add: crowded_plaintext_def)

text \<open>A tombstone accepts anything after its last byte. The layout ends with the \<open>has_body\<close>
  flag of a tombstone, yet the decoder does not look at what follows, so many byte strings decode
  to the same tombstone.\<close>

theorem tombstone_ignores_trailing_bytes:
  assumes "header_json_ok J" "valid_str (sync_hash (header env))"
    and "encode_envelope J env = Ok bs" "body env = None" "env_wf env"
    and "length bs + length junk < 2 ^ 32"
  shows "decode_envelope J (bs @ junk) = Ok env"
  using assms by (rule tombstone_trailing)

theorem tombstone_ignores_trailing_bytes_witness:
  "decode_envelope toy_json (sample_envelope_bytes True None @ [1, 2, 3]) = Ok (sample_envelope True None)"
  by (rule tombstone_ignores_trailing_bytes [OF toy_header_ok _ sample_envelope_encoded])
    (use length_sample_envelope [of True None] in
      \<open>simp_all add: sample_envelope_def env_wf_def sample_header_def valid_str_lit RECORD_FORMAT_VERSION_def\<close>)

end
