(* ===== verification/Sync_Gc.thy ===== *)
theory Sync_Gc
  imports Sync_Rules
begin

text \<open>
  Garbage collection against its specification over unbounded integers, and the zombie guard
  that the retention and staleness periods give together (\<open>gc_eligible\<close>,
  \<open>device_is_stale\<close> and \<open>rejoin_action\<close> of \<open>sync/mod.rs\<close>).
\<close>

section \<open>Staleness\<close>

lemma clamp_i64_greater: "i64_min \<le> k \<Longrightarrow> k < i64_max \<Longrightarrow> k < clamp_i64 n \<longleftrightarrow> k < n"
  by (auto simp: clamp_i64_def i64_min_def i64_max_def)

lemma device_is_stale_iff:
  "device_is_stale seen now_secs \<longleftrightarrow> sint now_secs - sint seen > STALE_DEVICE_SECS"
  unfolding device_is_stale_def sint_i64_saturating_sub
  by (rule clamp_i64_greater) (simp_all add: STALE_DEVICE_SECS_def i64_min_def i64_max_def)

lemma fresh_earlier:
  "\<not> device_is_stale seen now_secs \<Longrightarrow> sint then_secs \<le> sint now_secs \<Longrightarrow>
   \<not> device_is_stale seen then_secs"
  by (simp add: device_is_stale_iff)

lemma retention_exceeds_stale: "STALE_DEVICE_SECS < TOMBSTONE_RETENTION_SECS"
  by (simp add: STALE_DEVICE_SECS_def TOMBSTONE_RETENTION_SECS_def)

section \<open>The specification\<close>

definition millis_in_range :: "i64 \<Rightarrow> bool" where
  "millis_in_range secs \<longleftrightarrow> i64_min \<le> sint secs * 1000 \<and> sint secs * 1000 \<le> i64_max"

definition acked_spec :: "hlc \<Rightarrow> int \<Rightarrow> device_presence list \<Rightarrow> bool" where
  "acked_spec tomb now_secs devices \<longleftrightarrow>
     (\<forall>d \<in> set devices. now_secs - sint (last_seen_secs d) \<le> STALE_DEVICE_SECS \<longrightarrow>
        sint (wall_millis tomb) \<le> sint (last_seen_secs d) * 1000)"

definition gc_spec :: "hlc \<Rightarrow> int \<Rightarrow> device_presence list \<Rightarrow> bool" where
  "gc_spec tomb now_secs devices \<longleftrightarrow>
     now_secs * 1000 - sint (wall_millis tomb) > TOMBSTONE_RETENTION_SECS * 1000 \<and>
     acked_spec tomb now_secs devices"

text \<open>The second clause never matters: a device that is not stale was seen within the staleness period,
  which is shorter than the retention period the tombstone has outlived.\<close>

lemma gc_spec_age:
  "gc_spec tomb now_secs devices \<longleftrightarrow>
     now_secs * 1000 - sint (wall_millis tomb) > TOMBSTONE_RETENTION_SECS * 1000"
  using retention_exceeds_stale by (auto simp: gc_spec_def acked_spec_def)

lemma sint_1000 [simp]: "sint (1000 :: i64) = 1000"
  by simp

lemma i64_mul_in_range:
  assumes "millis_in_range s"
  obtains ms where "i64_mul prof s 1000 = Some ms" "sint ms = sint s * 1000"
  using assms sint_i64_times [of s 1000] i64_mul_exact [of s 1000 prof]
  by (auto simp: millis_in_range_def)

lemma retention_clamp:
  "clamp_i64 n \<le> TOMBSTONE_RETENTION_SECS * 1000 \<longleftrightarrow> n \<le> TOMBSTONE_RETENTION_SECS * 1000"
  by (simp add: clamp_i64_def TOMBSTONE_RETENTION_SECS_def i64_min_def i64_max_def min_le_iff_disj)

lemma devices_acked_exact:
  assumes "\<forall>d \<in> set devices. millis_in_range (last_seen_secs d)"
  shows "devices_acked prof tomb devices now_secs = Some (acked_spec tomb (sint now_secs) devices)"
  using assms
proof (induction devices)
  case (Cons d ds)
  obtain ms where "i64_mul prof (last_seen_secs d) 1000 = Some ms"
    "sint ms = sint (last_seen_secs d) * 1000"
    using Cons.prems by (auto intro: i64_mul_in_range)
  with Cons show ?case
    by (auto simp: acked_spec_def device_is_stale_iff)
qed (simp add: acked_spec_def)

lemma gc_eligible_exact:
  assumes "millis_in_range now_secs" "\<forall>d \<in> set devices. millis_in_range (last_seen_secs d)"
  shows "gc_eligible prof tomb devices now_secs = Some (gc_spec tomb (sint now_secs) devices)"
proof -
  obtain ms where ms: "i64_mul prof now_secs 1000 = Some ms" "sint ms = sint now_secs * 1000"
    using assms(1) by (rule i64_mul_in_range)
  with devices_acked_exact [OF assms(2)] show ?thesis
    by (auto simp: gc_eligible_def gc_spec_def Let_def sint_i64_saturating_sub retention_clamp)
qed

section \<open>The build profiles\<close>

text \<open>A debug build answers with the specification or panics; it is never silently wrong.\<close>

lemma i64_mul_Debug_iff:
  "i64_mul Debug s 1000 = Some ms \<longleftrightarrow> millis_in_range s \<and> ms = s * 1000"
  by (auto simp: i64_mul_def millis_in_range_def)

lemma sint_millis: "millis_in_range s \<Longrightarrow> sint (s * 1000) = sint s * 1000"
  using sint_i64_times [of s 1000] by (simp add: millis_in_range_def)

lemma devices_acked_Debug_cases:
  "devices_acked Debug tomb devices now_secs = Some b \<Longrightarrow> b = acked_spec tomb (sint now_secs) devices"
proof (induction devices)
  case (Cons d ds)
  show ?case
  proof (cases "device_is_stale (last_seen_secs d) now_secs")
    case True
    with Cons show ?thesis by (auto simp: acked_spec_def device_is_stale_iff)
  next
    case False
    with Cons.prems have "millis_in_range (last_seen_secs d)"
      by (auto simp: i64_mul_Debug_iff split: option.splits)
    with False Cons show ?thesis
      by (auto simp: acked_spec_def device_is_stale_iff sint_millis i64_mul_Debug_iff
          split: option.splits if_splits)
  qed
qed (simp add: acked_spec_def)

lemma gc_eligible_Debug:
  assumes "gc_eligible Debug tomb devices now_secs = Some b"
  shows "b = gc_spec tomb (sint now_secs) devices"
proof -
  have range: "millis_in_range now_secs"
    using assms by (auto simp: gc_eligible_def i64_mul_Debug_iff split: option.splits)
  have "i64_mul Debug now_secs 1000 = Some (now_secs * 1000)"
    using range by (simp add: i64_mul_Debug_iff)
  then show ?thesis
    using assms range devices_acked_Debug_cases
    by (auto simp: gc_eligible_def gc_spec_def Let_def sint_i64_saturating_sub sint_millis retention_clamp
        split: if_splits)
qed

text \<open>A device file whose time does not fit in milliseconds: no debug build passes it, and a release
  build reads a wrapped time.\<close>

lemma i64_mul_Release: "i64_mul Release s 1000 = Some (s * 1000)"
  by (simp add: i64_mul_def)

lemma devices_acked_Debug_range:
  "devices_acked Debug tomb devices now_secs = Some True \<Longrightarrow> d \<in> set devices \<Longrightarrow>
   device_is_stale (last_seen_secs d) now_secs \<or> millis_in_range (last_seen_secs d)"
  by (induction devices)
    (auto simp: i64_mul_Debug_iff split: option.splits if_splits)

lemma devices_acked_Release:
  "devices_acked Release tomb devices now_secs = Some (\<forall>d \<in> set devices.
     device_is_stale (last_seen_secs d) now_secs \<or> sint (wall_millis tomb) \<le> sint (last_seen_secs d * 1000))"
  by (induction devices) (auto simp: i64_mul_Release)

lemma wrapped_millis:
  fixes s :: i64
  assumes "i64_max < sint s * 1000" "sint s * 1000 < 2 ^ 64"
  shows "sint (s * 1000) < 0"
proof -
  have "sint (s * 1000) = signed_take_bit 63 (sint s * 1000)" by (simp add: sint_word_ariths)
  also have "\<dots> = (sint s * 1000 + 2 ^ 63) mod 2 ^ 64 - 2 ^ 63"
    by (simp add: signed_take_bit_eq_take_bit_shift take_bit_eq_mod)
  also have "\<dots> = sint s * 1000 - 2 ^ 64"
  proof -
    let ?k = "sint s * 1000 + 2 ^ 63 - 2 ^ 64"
    have "?k mod 2 ^ 64 = ?k" using assms by (intro mod_pos_pos_trivial) (simp_all add: i64_max_def)
    then have "(?k + 2 ^ 64) mod 2 ^ 64 = ?k" by (simp only: mod_add_self2)
    then show ?thesis by (simp add: add.commute)
  qed
  finally show ?thesis using assms(2) by simp
qed

lemma future_device_unanswered:
  assumes "millis_in_range now_secs" "gc_spec tomb (sint now_secs) devices"
    and "d \<in> set devices" "i64_max < sint (last_seen_secs d) * 1000"
  shows "gc_eligible Debug tomb devices now_secs = None"
    "sint (last_seen_secs d) * 1000 < 2 ^ 64 \<Longrightarrow> 0 \<le> sint (wall_millis tomb) \<Longrightarrow>
       gc_eligible Release tomb devices now_secs = Some False"
proof -
  have "sint now_secs < sint (last_seen_secs d)" using assms(1,4) by (simp add: millis_in_range_def)
  then have fresh: "\<not> device_is_stale (last_seen_secs d) now_secs"
    by (simp add: device_is_stale_iff STALE_DEVICE_SECS_def)
  obtain ms where ms: "\<And>prof. i64_mul prof now_secs 1000 = Some ms" "sint ms = sint now_secs * 1000"
    using assms(1) sint_millis [OF assms(1)] i64_mul_exact [of now_secs 1000] by (force simp: millis_in_range_def)
  have old: "gc_eligible prof tomb devices now_secs = devices_acked prof tomb devices now_secs" for prof
    using assms(2) by (simp add: gc_eligible_def gc_spec_def Let_def ms sint_i64_saturating_sub retention_clamp)
  have "devices_acked Debug tomb devices now_secs \<noteq> Some True"
    using devices_acked_Debug_range [OF _ assms(3)] fresh assms(4) by (auto simp: millis_in_range_def)
  moreover have "devices_acked Debug tomb devices now_secs \<noteq> Some False"
    using devices_acked_Debug_cases [of tomb devices now_secs False] assms(2) by (auto simp: gc_spec_def)
  ultimately show "gc_eligible Debug tomb devices now_secs = None"
    unfolding old by (cases "devices_acked Debug tomb devices now_secs") auto
  assume "sint (last_seen_secs d) * 1000 < 2 ^ 64" "0 \<le> sint (wall_millis tomb)"
  with wrapped_millis [OF assms(4)] have "sint (last_seen_secs d * 1000) < sint (wall_millis tomb)" by simp
  with assms(3) fresh show "gc_eligible Release tomb devices now_secs = Some False"
    unfolding old devices_acked_Release by auto
qed

section \<open>The zombie guard\<close>

text \<open>
  A device that rejoins with a fresh \<open>last_seen\<close> is told to publish its record again. That
  resurrects nothing: every tombstone collected while the device was known had been written
  before the device's last session.
\<close>

lemma acked_specD:
  "acked_spec tomb now_secs devices \<Longrightarrow> d \<in> set devices \<Longrightarrow>
   now_secs - sint (last_seen_secs d) \<le> STALE_DEVICE_SECS \<Longrightarrow>
   sint (wall_millis tomb) \<le> sint (last_seen_secs d) * 1000"
  by (simp add: acked_spec_def)

lemma repush_fresh: "rejoin_action seen now_secs = Repush \<longleftrightarrow> \<not> device_is_stale seen now_secs"
  by (simp add: rejoin_action_def)

lemma repush_after_gc:
  assumes "gc_eligible prof tomb devices gc_secs = Some True"
    and "prof = Debug \<or> millis_in_range gc_secs \<and> (\<forall>d \<in> set devices. millis_in_range (last_seen_secs d))"
    and "d \<in> set devices" "rejoin_action (last_seen_secs d) now_secs = Repush" "sint gc_secs \<le> sint now_secs"
  shows "sint (wall_millis tomb) \<le> sint (last_seen_secs d) * 1000"
proof (rule acked_specD)
  show "acked_spec tomb (sint gc_secs) devices"
    using assms(1,2) gc_eligible_Debug [of tomb devices gc_secs True] gc_eligible_exact [of gc_secs devices prof tomb]
    by (auto simp: gc_spec_def)
  show "sint gc_secs - sint (last_seen_secs d) \<le> STALE_DEVICE_SECS"
    using assms(4,5) by (simp add: repush_fresh device_is_stale_iff)
qed (rule assms(3))

text \<open>Eligibility only grows with more devices removed and with time, apart from presence.\<close>

lemma gc_spec_fewer_devices:
  "gc_spec tomb now_secs devices \<Longrightarrow> set devices' \<subseteq> set devices \<Longrightarrow> gc_spec tomb now_secs devices'"
  by (auto simp: gc_spec_def acked_spec_def)

lemma gc_spec_later:
  "gc_spec tomb now_secs devices \<Longrightarrow> now_secs \<le> later \<Longrightarrow> gc_spec tomb later devices"
  by (auto simp: gc_spec_def acked_spec_def)

end
