(* ===== verification/Sync_Replay.thy ===== *)
theory Sync_Replay
  imports Sync_Rules
begin

text \<open>
  What the merge decision achieves for a replica. The shell that summarises its tables and executes
  a \<open>MergeAction\<close> is not in this repository: it is a parameter, the record \<open>shell\<close>, and
  \<open>shell_ok\<close> states what the documentation of \<open>LocalState\<close> and \<open>MergeAction\<close> in \<open>sync/mod.rs\<close>
  asks of it. The locale keeps what the results need of the decision; the interpretation gives it
  for \<open>merge_decide\<close>.
\<close>

section \<open>A replica\<close>

text \<open>
  What the tables of a shell amount to. \<open>known\<close> is the applied set (\<open>Some True\<close>: applied and
  deleted), \<open>rows\<close> the live rows with their content hash, \<open>wipes\<close> the tombstones seen.
\<close>

record replica =
  known :: "uuid \<Rightarrow> bool option"
  rows :: "(uuid \<times> str) set"
  wipes :: "(uuid \<times> str \<times> hlc) set"

definition empty_replica :: replica where
  "empty_replica = \<lparr>known = (\<lambda>_. None), rows = {}, wipes = {}\<rparr>"

definition live_content :: "replica \<Rightarrow> str set" where
  "live_content r = snd ` rows r"

definition other_wipes :: "replica \<Rightarrow> record_header \<Rightarrow> hlc set" where
  "other_wipes r h = {t. \<exists>i. i \<noteq> record_id h \<and> (i, sync_hash h, t) \<in> wipes r}"

definition newest_of :: "hlc option \<Rightarrow> hlc set \<Rightarrow> bool" where
  "newest_of w T = (case w of
     None \<Rightarrow> T = {} | Some t \<Rightarrow> t \<in> T \<and> (\<forall>u \<in> T. hlc_compare u t \<noteq> Greater))"

text \<open>The fields of \<open>LocalState\<close>, as their documentation defines them.\<close>

definition summarises :: "replica \<Rightarrow> record_header \<Rightarrow> local_state \<Rightarrow> bool" where
  "summarises r h l \<longleftrightarrow>
     (applied l \<longleftrightarrow> known r (record_id h) \<noteq> None) \<and>
     (applied_deleted l \<longleftrightarrow> known r (record_id h) = Some True) \<and>
     (live_duplicate_sync_hash l \<longleftrightarrow> (\<exists>i. i \<noteq> record_id h \<and> (i, sync_hash h) \<in> rows r)) \<and>
     newest_of (tombstoned_duplicate_hlc l) (other_wipes r h)"

text \<open>The effects of the actions, as the documentation of \<open>MergeAction\<close> prescribes them.\<close>

definition mark_applied :: "record_header \<Rightarrow> replica \<Rightarrow> replica" where
  "mark_applied h r = r\<lparr>known := (known r)(record_id h \<mapsto> (known r (record_id h) = Some True))\<rparr>"

definition mark_deleted :: "record_header \<Rightarrow> replica \<Rightarrow> replica" where
  "mark_deleted h r = r\<lparr>known := (known r)(record_id h \<mapsto> True),
     wipes := insert (record_id h, sync_hash h, hdr_hlc h) (wipes r)\<rparr>"

fun effect :: "merge_action \<Rightarrow> record_header \<Rightarrow> replica \<Rightarrow> replica" where
  "effect ApplyRemote h r =
     r\<lparr>known := (known r)(record_id h \<mapsto> False), rows := insert (record_id h, sync_hash h) (rows r)\<rparr>"
| "effect ApplyTombstone h r = mark_deleted h r\<lparr>rows := {x \<in> rows r. fst x \<noteq> record_id h}\<rparr>"
| "effect RecordTombstoneOnly h r = mark_deleted h r"
| "effect Skip h r = mark_applied h r"
| "effect SkipDuplicateContent h r = mark_applied h r"

section \<open>A shell\<close>

record 's shell =
  sh_view :: "'s \<Rightarrow> replica"
  sh_summary :: "'s \<Rightarrow> record_header \<Rightarrow> local_state"
  sh_execute :: "merge_action \<Rightarrow> record_header \<Rightarrow> 's \<Rightarrow> 's"

definition shell_ok :: "'s shell \<Rightarrow> bool" where
  "shell_ok S \<longleftrightarrow>
     (\<forall>s h. summarises (sh_view S s) h (sh_summary S s h)) \<and>
     (\<forall>a h s. sh_view S (sh_execute S a h s) = effect a h (sh_view S s))"

definition process :: "'s shell \<Rightarrow> record_header \<Rightarrow> 's \<Rightarrow> 's" where
  "process S h s =
     sh_execute S (merge_decide (sh_summary S s h) (deleted h) (hdr_hlc h)) h s"

definition pull :: "'s shell \<Rightarrow> record_header list \<Rightarrow> 's \<Rightarrow> 's" where
  "pull S hs s = fold (process S) hs s"

text \<open>One step of any such shell, and a sequence of steps, on the replica it shows.\<close>

inductive takes ::
  "(local_state \<Rightarrow> bool \<Rightarrow> hlc \<Rightarrow> merge_action) \<Rightarrow> record_header \<Rightarrow> replica \<Rightarrow> replica \<Rightarrow> bool"
  for decide where
  take_file: "summarises r h l \<Longrightarrow>
     takes decide h r (effect (decide l (deleted h) (hdr_hlc h)) h r)"

inductive_cases takesE: "takes decide h r r'"

inductive pulls ::
  "(local_state \<Rightarrow> bool \<Rightarrow> hlc \<Rightarrow> merge_action) \<Rightarrow> record_header list \<Rightarrow> replica \<Rightarrow> replica \<Rightarrow> bool"
  for decide where
  pull_done: "pulls decide [] r r"
| pull_next: "takes decide h r r' \<Longrightarrow> pulls decide hs r' r'' \<Longrightarrow> pulls decide (h # hs) r r''"

inductive_cases pulls_NilE: "pulls decide [] r r'"
inductive_cases pulls_ConsE: "pulls decide (h # hs) r r'"

lemma shell_takes:
  "shell_ok S \<Longrightarrow> takes merge_decide h (sh_view S s) (sh_view S (process S h s))"
  by (auto simp: shell_ok_def process_def intro: take_file)

lemma shell_pulls: "shell_ok S \<Longrightarrow> pulls merge_decide hs (sh_view S s) (sh_view S (pull S hs s))"
  by (induction hs arbitrary: s) (auto simp: pull_def intro: pulls.intros shell_takes)

lemma pulls_append:
  "pulls decide (gs @ hs) r r'' \<longleftrightarrow> (\<exists>r'. pulls decide gs r r' \<and> pulls decide hs r' r'')"
proof (induction gs arbitrary: r)
  case Nil
  show ?case by (auto intro: pull_done elim: pulls_NilE)
next
  case (Cons g gs)
  then show ?case by (auto intro: pull_next elim!: pulls_ConsE) (blast intro: pull_next)
qed

lemma pulls_snoc:
  "pulls decide (hs @ [h]) r r'' \<longleftrightarrow> (\<exists>r'. pulls decide hs r r' \<and> takes decide h r' r'')"
  by (auto simp: pulls_append intro: pulls.intros elim!: pulls_ConsE pulls_NilE)

section \<open>Facts about summaries\<close>

lemma newest_of_above:
  assumes "newest_of w T"
  shows "(\<forall>t. w = Some t \<longrightarrow> hlc_compare h t = Greater) \<longleftrightarrow> (\<forall>t \<in> T. hlc_compare h t = Greater)"
proof (cases w)
  case None
  with assms show ?thesis by (simp add: newest_of_def)
next
  case (Some u)
  with assms have u: "u \<in> T" "\<forall>t \<in> T. hlc_compare t u \<noteq> Greater" by (auto simp: newest_of_def)
  have "hlc_compare h t = Greater" if "hlc_compare h u = Greater" "t \<in> T" for t
  proof -
    have "hlc_compare t h = Less"
      using u that by (intro hlc_order.Less_trans' [of t u h]) (auto simp: hlc_order.Greater_swap)
    then show ?thesis by (simp add: hlc_order.Greater_swap)
  qed
  with Some u show ?thesis by auto
qed

text \<open>The newest stamp of a list, and so of any finite set.\<close>

fun newest :: "hlc list \<Rightarrow> hlc option" where
  "newest [] = None"
| "newest (t # ts) = (case newest ts of None \<Rightarrow> Some t
     | Some u \<Rightarrow> Some (if hlc_compare t u = Greater then t else u))"

lemma newest_of_newest: "newest_of (newest ts) (set ts)"
proof (induction ts)
  case (Cons t ts)
  show ?case
  proof (cases "newest ts")
    case None
    with Cons show ?thesis by (auto simp: newest_of_def hlc_order.refl split: option.splits)
  next
    case (Some v)
    with Cons have v: "v \<in> set ts" "\<forall>u \<in> set ts. hlc_compare u v \<noteq> Greater"
      by (simp_all add: newest_of_def)
    show ?thesis
    proof (cases "hlc_compare t v = Greater")
      case True
      have "hlc_compare u t \<noteq> Greater" if "u \<in> set ts" for u
      proof -
        have "hlc_compare v t = Less" using True by (simp only: hlc_order.Greater_swap)
        with v that have "hlc_compare u t = Less" by (blast intro: hlc_order.Less_trans')
        then show ?thesis by simp
      qed
      with True Some show ?thesis by (simp add: newest_of_def hlc_order.refl)
    next
      case False
      with Some v show ?thesis by (simp add: newest_of_def)
    qed
  qed
qed (simp add: newest_of_def)

lemma summary_exists: "finite (wipes r) \<Longrightarrow> \<exists>l. summarises r h l"
proof -
  assume "finite (wipes r)"
  moreover have "other_wipes r h \<subseteq> (\<lambda>(i, s, t). t) ` wipes r" by (force simp: other_wipes_def)
  ultimately obtain ts where ts: "other_wipes r h = set ts"
    using finite_list finite_surj by metis
  show "\<exists>l. summarises r h l"
    by (rule exI [of _ "\<lparr>applied = (known r (record_id h) \<noteq> None),
        applied_deleted = (known r (record_id h) = Some True),
        live_duplicate_sync_hash = (\<exists>i. i \<noteq> record_id h \<and> (i, sync_hash h) \<in> rows r),
        tombstoned_duplicate_hlc = newest ts\<rparr>"]) (simp add: summarises_def ts newest_of_newest)
qed

definition well_formed :: "replica \<Rightarrow> bool" where
  "well_formed r \<longleftrightarrow>
     (\<forall>x \<in> rows r. known r (fst x) = Some False) \<and> inj_on fst (rows r) \<and> inj_on snd (rows r) \<and>
     (\<forall>x \<in> wipes r. known r (fst x) = Some True)"

lemma empty_well_formed: "well_formed empty_replica"
  by (simp add: well_formed_def empty_replica_def)

lemma known_effect:
  "known (effect a h r) = (known r)(record_id h \<mapsto> (case a of
     ApplyRemote \<Rightarrow> False | ApplyTombstone \<Rightarrow> True | RecordTombstoneOnly \<Rightarrow> True
   | Skip \<Rightarrow> known r (record_id h) = Some True
   | SkipDuplicateContent \<Rightarrow> known r (record_id h) = Some True))"
  by (cases a) (simp_all add: mark_applied_def mark_deleted_def)

lemma mark_applied_known [simp]: "known r (record_id h) \<noteq> None \<Longrightarrow> mark_applied h r = r"
  by (auto simp: mark_applied_def fun_upd_idem)

definition inserts :: "record_header \<Rightarrow> replica \<Rightarrow> bool" where
  "inserts h r \<longleftrightarrow> sync_hash h \<notin> live_content r \<and>
     (\<forall>t \<in> other_wipes r h. hlc_compare (hdr_hlc h) t = Greater)"

lemma well_formed_unknown:
  assumes "well_formed r" "known r i = None"
  shows "(i, s) \<notin> rows r" and "(i, w) \<notin> wipes r"
  using assms by (auto simp: well_formed_def)

lemma well_formed_insert:
  assumes "well_formed r" "known r (record_id h) = None" "sync_hash h \<notin> live_content r"
  shows "well_formed (effect ApplyRemote h r)"
proof -
  note u = well_formed_unknown [OF assms(1,2)]
  have "fst ` rows r \<subseteq> - {record_id h}" "snd ` rows r \<subseteq> - {sync_hash h}"
    using u assms(3) by (auto simp: live_content_def)
  then have "inj_on fst (insert (record_id h, sync_hash h) (rows r))"
    "inj_on snd (insert (record_id h, sync_hash h) (rows r))"
    using assms(1) by (auto simp: well_formed_def inj_on_insert)
  moreover have "fst x \<noteq> record_id h" if "x \<in> rows r \<or> (\<exists>w. (fst x, w) \<in> wipes r)" for x
    using that u by (metis prod.collapse)
  ultimately show ?thesis using assms(1) u by (fastforce simp: well_formed_def)
qed

lemma well_formed_suppress:
  assumes "well_formed r" "known r (record_id h) = None"
  shows "well_formed (mark_applied h r)"
  using assms by (force simp: well_formed_def mark_applied_def)

section \<open>What a decision must promise\<close>

locale merge_rules =
  fixes decide :: "local_state \<Rightarrow> bool \<Rightarrow> hlc \<Rightarrow> merge_action"
  assumes deleted_final: "applied l \<Longrightarrow> applied_deleted l \<Longrightarrow> decide l d t = Skip"
    and known_tombstone: "applied l \<Longrightarrow> \<not> applied_deleted l \<Longrightarrow> decide l True t = ApplyTombstone"
    and known_live: "applied l \<Longrightarrow> decide l False t = Skip"
    and unknown_tombstone: "\<not> applied l \<Longrightarrow> decide l True t = RecordTombstoneOnly"
    and unknown_live: "\<not> applied l \<Longrightarrow> decide l False t = ApplyRemote \<or>
      decide l False t = SkipDuplicateContent"
    and inserts_iff: "\<not> applied l \<Longrightarrow> decide l False t = ApplyRemote \<longleftrightarrow>
      \<not> live_duplicate_sync_hash l \<and>
      (\<forall>w. tombstoned_duplicate_hlc l = Some w \<longrightarrow> hlc_compare t w = Greater)"
begin

lemma take_known_live:
  assumes "takes decide h r r'" "known r (record_id h) \<noteq> None" "\<not> deleted h"
  shows "r' = r"
  using assms by (auto elim!: takesE simp: summarises_def known_live)

lemma take_known_deleted:
  assumes "takes decide h r r'" "known r (record_id h) = Some True"
  shows "r' = r"
  using assms by (auto elim!: takesE simp: summarises_def deleted_final)

lemma take_tombstone:
  assumes "takes decide h r r'" "deleted h" "known r (record_id h) \<noteq> Some True"
  shows "known r' = (known r)(record_id h \<mapsto> True)"
    and "wipes r' = insert (record_id h, sync_hash h, hdr_hlc h) (wipes r)"
    and "well_formed r \<Longrightarrow> rows r' = {x \<in> rows r. fst x \<noteq> record_id h}"
proof -
  obtain l where l: "summarises r h l" "r' = effect (decide l True (hdr_hlc h)) h r"
    using assms(1,2) by (auto elim: takesE)
  have "decide l True (hdr_hlc h) = (if known r (record_id h) = None then RecordTombstoneOnly else ApplyTombstone)"
    using l(1) assms(3) known_tombstone [of l] unknown_tombstone [of l] by (auto simp: summarises_def)
  then have eff: "r' = effect (if known r (record_id h) = None then RecordTombstoneOnly else ApplyTombstone) h r"
    using l(2) by (simp only:)
  then show "known r' = (known r)(record_id h \<mapsto> True)"
    and "wipes r' = insert (record_id h, sync_hash h, hdr_hlc h) (wipes r)"
    by (auto simp: mark_deleted_def)
  show "rows r' = {x \<in> rows r. fst x \<noteq> record_id h}" if "well_formed r"
    using that unfolding eff by (auto simp: mark_deleted_def well_formed_def)
qed

lemma take_unknown_live:
  assumes "takes decide h r r'" "well_formed r" "known r (record_id h) = None" "\<not> deleted h"
  shows "r' = (if inserts h r then effect ApplyRemote h r else mark_applied h r)"
proof -
  obtain l where l: "summarises r h l" "r' = effect (decide l False (hdr_hlc h)) h r"
    using assms(1,4) by (auto elim: takesE)
  have unknown: "\<not> applied l" using l(1) assms(3) by (simp add: summarises_def)
  note fresh = well_formed_unknown(1) [OF assms(2,3)]
  have "live_duplicate_sync_hash l \<longleftrightarrow> sync_hash h \<in> live_content r"
    using l(1) fresh by (force simp: summarises_def live_content_def)
  moreover have "newest_of (tombstoned_duplicate_hlc l) (other_wipes r h)"
    using l(1) by (simp add: summarises_def)
  ultimately have "decide l False (hdr_hlc h) = ApplyRemote \<longleftrightarrow> inserts h r"
    by (simp add: inserts_iff [OF unknown] inserts_def newest_of_above)
  with l(2) unknown_live [OF unknown, of "hdr_hlc h"] show ?thesis by auto
qed

lemma take_knows:
  assumes "takes decide h r r'"
  shows "known r' (record_id h) \<noteq> None" and "deleted h \<Longrightarrow> known r' (record_id h) = Some True"
proof -
  show "known r' (record_id h) \<noteq> None"
    using assms by (auto elim!: takesE simp: known_effect)
  show "known r' (record_id h) = Some True" if "deleted h"
    using take_known_deleted [OF assms] take_tombstone(1) [OF assms that]
    by (cases "known r (record_id h) = Some True") auto
qed

lemma take_mono:
  assumes "takes decide h r r'"
  shows "known r i \<noteq> None \<Longrightarrow> known r' i \<noteq> None"
    and "known r i = Some True \<Longrightarrow> known r' i = Some True"
proof -
  show "known r' i \<noteq> None" if "known r i \<noteq> None"
    using assms that by (auto elim!: takesE simp: known_effect)
  show "known r' i = Some True" if "known r i = Some True"
    using assms that take_known_deleted [OF assms]
    by (cases "i = record_id h") (auto elim!: takesE simp: known_effect)
qed

text \<open>The invariant of a replica.\<close>

lemma well_formed_take:
  assumes "well_formed r" "takes decide h r r'"
  shows "well_formed r'"
proof -
  consider (dead) "known r (record_id h) = Some True"
    | (wipe) "deleted h" "known r (record_id h) \<noteq> Some True"
    | (kept) "\<not> deleted h" "known r (record_id h) \<noteq> None"
    | (new) "\<not> deleted h" "known r (record_id h) = None" by blast
  then show ?thesis
  proof cases
    case dead
    with assms show ?thesis using take_known_deleted by blast
  next
    case kept
    with assms show ?thesis using take_known_live by blast
  next
    case wipe
    note t = take_tombstone [OF assms(2) wipe]
    show ?thesis using assms(1) unfolding well_formed_def t(1) t(2) t(3) [OF assms(1)]
      by (auto intro: inj_on_subset)
  next
    case new
    show ?thesis
      using well_formed_insert [OF assms(1) new(2)] well_formed_suppress [OF assms(1) new(2)]
      by (simp add: take_unknown_live [OF assms(2,1) new(2,1)] inserts_def del: effect.simps)
  qed
qed

text \<open>Sequences of files.\<close>

lemma pulls_mono:
  assumes "pulls decide hs r r'"
  shows "known r i \<noteq> None \<Longrightarrow> known r' i \<noteq> None"
    and "known r i = Some True \<Longrightarrow> known r' i = Some True"
    and "well_formed r \<Longrightarrow> well_formed r'"
  using assms by (induction rule: pulls.induct) (blast dest: take_mono well_formed_take)+

lemma pulled_known:
  assumes "pulls decide hs r r'" "h \<in> set hs"
  shows "known r' (record_id h) \<noteq> None" and "deleted h \<Longrightarrow> known r' (record_id h) = Some True"
proof -
  have "known r' (record_id h) \<noteq> None \<and> (deleted h \<longrightarrow> known r' (record_id h) = Some True)"
    using assms
  proof (induction rule: pulls.induct)
    case (pull_next g r r' hs r'')
    then show ?case
      using take_knows [OF pull_next.hyps(1)] pulls_mono [OF pull_next.hyps(2)]
      by (cases "h = g") simp_all
  qed simp
  then show "known r' (record_id h) \<noteq> None" and "deleted h \<Longrightarrow> known r' (record_id h) = Some True"
    by blast+
qed

lemma replay_one:
  assumes "pulls decide hs r r'" "h \<in> set hs" "takes decide h r' r''"
  shows "r'' = r'"
  using pulled_known [OF assms(1,2)] take_known_deleted [OF assms(3)] take_known_live [OF assms(3)]
  by (cases "deleted h") simp_all

lemma replay:
  assumes "pulls decide gs r' r''" "pulls decide hs r r'" "set gs \<subseteq> set hs"
  shows "r'' = r'"
  using assms
proof (induction rule: pulls.induct)
  case (pull_next g s s' gs s'')
  then have "s' = s" using replay_one by auto
  with pull_next show ?case by simp
qed simp

text \<open>A record whose tombstone was pulled is not live, in whatever order the files arrived.\<close>

lemma tombstoned_not_live:
  assumes "well_formed r" "pulls decide hs r r'" "h \<in> set hs" "deleted h"
  shows "record_id h \<notin> fst ` rows r'"
  using pulled_known(2) [OF assms(2,3,4)] pulls_mono(3) [OF assms(2,1)]
  by (force simp: well_formed_def)

end

section \<open>Convergence\<close>

text \<open>
  The content that survives a pull: the live records that no tombstone names and whose content
  was copied after every wipe of the same content. Pull processes the tombstones first.
\<close>

definition survives :: "record_header set \<Rightarrow> record_header \<Rightarrow> bool" where
  "survives T h \<longleftrightarrow> record_id h \<notin> record_id ` T \<and>
     (\<forall>t \<in> T. sync_hash t = sync_hash h \<longrightarrow> hlc_compare (hdr_hlc h) (hdr_hlc t) = Greater)"

definition surviving_content :: "record_header set \<Rightarrow> record_header set \<Rightarrow> str set" where
  "surviving_content T L = sync_hash ` Set.filter (survives T) L"

text \<open>One file per record id, never rewritten.\<close>

definition immutable :: "record_header set \<Rightarrow> bool" where
  "immutable F \<longleftrightarrow> inj_on record_id F"

definition wipe_of :: "record_header \<Rightarrow> uuid \<times> str \<times> hlc" where
  "wipe_of t = (record_id t, sync_hash t, hdr_hlc t)"

definition tombstones_seen :: "record_header set \<Rightarrow> replica \<Rightarrow> bool" where
  "tombstones_seen T r \<longleftrightarrow> wipes r = wipe_of ` T \<and>
     (\<forall>i. known r i = Some True \<longleftrightarrow> i \<in> record_id ` T)"

lemma surviving_content_insert:
  "surviving_content T (insert h L) =
     (if survives T h then insert (sync_hash h) (surviving_content T L) else surviving_content T L)"
  by (auto simp: surviving_content_def)

lemma immutable_mem:
  "immutable (insert h F) \<Longrightarrow> record_id h \<in> record_id ` F \<Longrightarrow> h \<in> F"
  by (force simp: immutable_def inj_on_def)

lemma seen_dead: "tombstones_seen T r \<Longrightarrow> known r i = Some True \<longleftrightarrow> i \<in> record_id ` T"
  by (simp add: tombstones_seen_def)

lemma seen_wipes:
  assumes "tombstones_seen T r" "record_id h \<notin> record_id ` T"
  shows "other_wipes r h = hdr_hlc ` {t \<in> T. sync_hash t = sync_hash h}"
proof -
  have w: "wipes r = wipe_of ` T" using assms(1) by (simp add: tombstones_seen_def)
  show ?thesis unfolding other_wipes_def w wipe_of_def using assms(2) by (auto simp: image_iff) metis
qed

lemma inserts_survives:
  assumes "tombstones_seen T r" "known r (record_id h) = None"
  shows "inserts h r \<longleftrightarrow> sync_hash h \<notin> live_content r \<and> survives T h"
proof -
  have "record_id h \<notin> record_id ` T" using assms by (simp flip: seen_dead)
  then show ?thesis unfolding inserts_def survives_def seen_wipes [OF assms(1) \<open>record_id h \<notin> record_id ` T\<close>]
    by blast
qed

context merge_rules begin

lemma after_tombstones:
  assumes "pulls decide ts empty_replica r" "\<forall>t \<in> set ts. deleted t" "immutable (set ts)"
  shows "rows r = {} \<and> tombstones_seen (set ts) r \<and> (\<forall>i. known r i \<noteq> Some False)"
  using assms
proof (induction ts arbitrary: r rule: rev_induct)
  case Nil
  then show ?case
    by (auto elim!: pulls_NilE simp: empty_replica_def tombstones_seen_def)
next
  case (snoc t ts)
  then obtain q where q: "pulls decide ts empty_replica q" "takes decide t q r"
    by (auto simp: pulls_snoc)
  have imm: "immutable (set ts)" using snoc.prems(3) by (simp add: immutable_def)
  have IH: "rows q = {}" "tombstones_seen (set ts) q" "\<forall>i. known q i \<noteq> Some False"
    using snoc.IH [OF q(1) _ imm] snoc.prems(2) by auto
  show ?case
  proof (cases "t \<in> set ts")
    case True
    then have "r = q" using take_known_deleted [OF q(2)] IH(2) by (simp add: tombstones_seen_def)
    with True IH show ?thesis by (simp add: insert_absorb)
  next
    case False
    then have "record_id t \<notin> record_id ` set ts" using immutable_mem snoc.prems(3) by auto
    then have "known q (record_id t) \<noteq> Some True" using IH(2) by (simp add: tombstones_seen_def)
    note t = take_tombstone [OF q(2) _ this]
    have "well_formed q" using pulls_mono(3) [OF q(1) empty_well_formed] .
    with t snoc.prems(2) IH show ?thesis
      by (auto simp: tombstones_seen_def wipe_of_def)
  qed
qed

lemma after_live:
  assumes "pulls decide ls q r" "well_formed q" "tombstones_seen T q"
    and "rows q = {}" "\<forall>i. known q i \<noteq> Some False"
    and "\<forall>h \<in> set ls. \<not> deleted h" "immutable (set ls)"
  shows "live_content r = surviving_content T (set ls) \<and> tombstones_seen T r \<and>
    (\<forall>i. known r i = Some False \<longleftrightarrow> i \<in> record_id ` set ls - record_id ` T)"
  using assms(1,6,7)
proof (induction ls arbitrary: r rule: rev_induct)
  case Nil
  with assms(3,4,5) show ?case
    by (auto elim!: pulls_NilE simp: live_content_def surviving_content_def)
next
  case (snoc h ls)
  then obtain p where p: "pulls decide ls q p" "takes decide h p r" by (auto simp: pulls_snoc)
  have imm: "immutable (set ls)" using snoc.prems(3) by (simp add: immutable_def)
  have IH: "live_content p = surviving_content T (set ls)" "tombstones_seen T p"
    "\<forall>i. known p i = Some False \<longleftrightarrow> i \<in> record_id ` set ls - record_id ` T"
    using snoc.IH [OF p(1) _ imm] snoc.prems(2) by auto
  have wf: "well_formed p" using pulls_mono(3) [OF p(1) assms(2)] .
  have live: "\<not> deleted h" using snoc.prems(2) by simp
  have dead: "known p (record_id h) = Some True \<longleftrightarrow> record_id h \<in> record_id ` T"
    using IH(2) by (simp add: tombstones_seen_def)
  show ?case
  proof (cases "known p (record_id h) = None")
    case False
    then have "r = p" using take_known_live [OF p(2) _ live] by simp
    moreover have "surviving_content T (set (ls @ [h])) = surviving_content T (set ls)"
    proof (cases "survives T h")
      case True
      then have "record_id h \<notin> record_id ` T" by (simp add: survives_def)
      then have "record_id h \<in> record_id ` set ls" using False dead IH(3) by fastforce
      then have "h \<in> set ls" using immutable_mem [of h "set ls"] snoc.prems(3) by simp
      then show ?thesis by (simp add: insert_absorb)
    qed (simp add: surviving_content_insert)
    moreover have "record_id ` set (ls @ [h]) - record_id ` T = record_id ` set ls - record_id ` T"
      using False dead IH(3) by fastforce
    ultimately show ?thesis using IH by simp
  next
    case True
    have r: "r = (if inserts h p then effect ApplyRemote h p else mark_applied h p)"
      by (rule take_unknown_live [OF p(2) wf True live])
    have out: "record_id h \<notin> record_id ` T" using True dead by auto
    have k: "known r = (known p)(record_id h \<mapsto> False)" "wipes r = wipes p"
      using True by (simp_all add: r mark_applied_def)
    have "live_content r = (if survives T h then insert (sync_hash h) (live_content p) else live_content p)"
      by (auto simp: r inserts_survives [OF IH(2) True] live_content_def mark_applied_def)
    moreover have "tombstones_seen T r" using IH(2) out by (auto simp: tombstones_seen_def k)
    moreover have "known r i = Some False \<longleftrightarrow> i \<in> record_id ` set (ls @ [h]) - record_id ` T" for i
      using IH(3) out by (auto simp: k)
    ultimately show ?thesis using IH(1) by (simp add: surviving_content_insert)
  qed
qed

lemma converges:
  assumes "pulls decide (ts @ ls) empty_replica r"
    and "\<forall>t \<in> set ts. deleted t" "immutable (set ts)" "\<forall>h \<in> set ls. \<not> deleted h" "immutable (set ls)"
  shows "live_content r = surviving_content (set ts) (set ls)"
proof -
  obtain q where q: "pulls decide ts empty_replica q" "pulls decide ls q r"
    using assms(1) by (auto simp: pulls_append)
  note t = after_tombstones [OF q(1) assms(2,3)]
  show ?thesis
    using after_live [OF q(2) pulls_mono(3) [OF q(1) empty_well_formed] _ _ _ assms(4,5)] t by blast
qed

end

section \<open>The code's decision\<close>

interpretation merge: merge_rules merge_decide
  by unfold_locales (auto simp: merge_decide_def split: option.splits)

end
