(* ===== verification/Sync_Table.thy ===== *)
theory Sync_Table
  imports Sync_Replay
begin

text \<open>
  A shell whose tables are lists, executable, as an instance of the contract \<open>shell_ok\<close>: the
  contract can be met, and the properties can be evaluated on concrete files.
\<close>

record tables =
  tb_known :: "uuid \<Rightarrow> bool option"
  tb_rows :: "(uuid \<times> str) list"
  tb_wipes :: "(uuid \<times> str \<times> hlc) list"

definition no_tables :: tables where
  "no_tables = \<lparr>tb_known = (\<lambda>_. None), tb_rows = [], tb_wipes = []\<rparr>"

definition table_view :: "tables \<Rightarrow> replica" where
  "table_view t = \<lparr>known = tb_known t, rows = set (tb_rows t), wipes = set (tb_wipes t)\<rparr>"

definition table_summary :: "tables \<Rightarrow> record_header \<Rightarrow> local_state" where
  "table_summary t h =
     \<lparr>applied = tb_known t (record_id h) \<noteq> None,
      applied_deleted = (tb_known t (record_id h) = Some True),
      live_duplicate_sync_hash = list_ex (\<lambda>(i, s). i \<noteq> record_id h \<and> s = sync_hash h) (tb_rows t),
      tombstoned_duplicate_hlc =
        newest (map (\<lambda>(i, s, w). w) (filter (\<lambda>(i, s, w). i \<noteq> record_id h \<and> s = sync_hash h) (tb_wipes t)))\<rparr>"

definition table_mark :: "record_header \<Rightarrow> bool \<Rightarrow> tables \<Rightarrow> tables" where
  "table_mark h b t = t\<lparr>tb_known := (tb_known t)(record_id h \<mapsto> b)\<rparr>"

definition table_wipe :: "record_header \<Rightarrow> tables \<Rightarrow> tables" where
  "table_wipe h t = (table_mark h True t)\<lparr>tb_wipes := (record_id h, sync_hash h, hdr_hlc h) # tb_wipes t\<rparr>"

fun table_execute :: "merge_action \<Rightarrow> record_header \<Rightarrow> tables \<Rightarrow> tables" where
  "table_execute ApplyRemote h t = (table_mark h False t)\<lparr>tb_rows := (record_id h, sync_hash h) # tb_rows t\<rparr>"
| "table_execute ApplyTombstone h t =
     (table_wipe h t)\<lparr>tb_rows := filter (\<lambda>x. fst x \<noteq> record_id h) (tb_rows t)\<rparr>"
| "table_execute RecordTombstoneOnly h t = table_wipe h t"
| "table_execute Skip h t = table_mark h (tb_known t (record_id h) = Some True) t"
| "table_execute SkipDuplicateContent h t = table_mark h (tb_known t (record_id h) = Some True) t"

definition table_shell :: "tables shell" where
  "table_shell = \<lparr>sh_view = table_view, sh_summary = table_summary, sh_execute = table_execute\<rparr>"

lemma table_summarises: "summarises (table_view t) h (table_summary t h)"
proof -
  let ?ws = "map (\<lambda>(i, s, w). w) (filter (\<lambda>(i, s, w). i \<noteq> record_id h \<and> s = sync_hash h) (tb_wipes t))"
  have "other_wipes (table_view t) h = set ?ws"
    by (force simp: other_wipes_def table_view_def)
  then show ?thesis using newest_of_newest [of ?ws]
    by (auto simp: summarises_def table_summary_def table_view_def list_ex_iff)
qed

lemma table_executes: "table_view (table_execute a h t) = effect a h (table_view t)"
  by (cases a) (auto simp: table_view_def table_mark_def table_wipe_def mark_applied_def mark_deleted_def)

lemma table_shell_ok: "shell_ok table_shell"
  by (simp add: shell_ok_def table_shell_def table_summarises table_executes)

lemma no_tables_empty: "sh_view table_shell no_tables = empty_replica"
  by (simp add: table_shell_def table_view_def no_tables_def empty_replica_def)

end
