(* ===== verification/Sync_Clock.thy ===== *)
theory Sync_Clock
  imports Sync_Rules
begin

text \<open>
  Runs of one device's hybrid logical clock. A shell keeps the clock's last stamp, calls
  \<open>hlc_next\<close> before it publishes and \<open>hlc_receive\<close> when it sees a foreign stamp
  (\<open>sync/mod.rs\<close>). The locale states what such a run needs of the two operations; the
  interpretation discharges it for the code's ones as long as the wall clock stays clear of the
  end of the \<open>i64\<close> range.
\<close>

datatype clock_event = Issue i64 | Absorb hlc i64

fun event_time :: "clock_event \<Rightarrow> i64" where
  "event_time (Issue t) = t"
| "event_time (Absorb r t) = t"

section \<open>The contract\<close>

text \<open>
  \<open>fits n c\<close> says that a clock in state \<open>c\<close> has room for \<open>n\<close> more events.
\<close>

locale monotone_clock =
  fixes step :: "'c option \<Rightarrow> 'e \<Rightarrow> 'c" and issues :: "'e \<Rightarrow> bool"
    and below :: "'c \<Rightarrow> 'c \<Rightarrow> bool" and upto :: "'c \<Rightarrow> 'c \<Rightarrow> bool"
    and fits :: "nat \<Rightarrow> 'c option \<Rightarrow> bool" and ok_event :: "'e \<Rightarrow> bool"
  assumes issue_above: "fits (Suc n) (Some c) \<Longrightarrow> issues e \<Longrightarrow> below c (step (Some c) e)"
    and absorb_above: "\<not> issues e \<Longrightarrow> upto c (step (Some c) e)"
    and below_upto: "below a b \<Longrightarrow> upto a b"
    and upto_below: "upto a b \<Longrightarrow> below b c \<Longrightarrow> below a c"
    and upto_trans: "upto a b \<Longrightarrow> upto b c \<Longrightarrow> upto a c"
    and upto_refl: "upto a a"
    and fits_step: "fits (Suc n) s \<Longrightarrow> ok_event e \<Longrightarrow> fits n (Some (step s e))"
begin

fun issued_by :: "'c option \<Rightarrow> 'e list \<Rightarrow> 'c list" where
  "issued_by s [] = []"
| "issued_by s (e # es) =
     (if issues e then step s e # issued_by (Some (step s e)) es
      else issued_by (Some (step s e)) es)"

lemma step_upto: "fits (Suc n) (Some c) \<Longrightarrow> upto c (step (Some c) e)"
  using issue_above absorb_above below_upto by blast

lemma issued_above:
  assumes "fits (length es) (Some c)" "\<forall>e \<in> set es. ok_event e" "h \<in> set (issued_by (Some c) es)"
  shows "below c h"
  using assms
proof (induction es arbitrary: c)
  case (Cons e es)
  have next_fits: "fits (length es) (Some (step (Some c) e))"
    using Cons.prems(1,2) fits_step by simp
  have up: "upto c (step (Some c) e)" using Cons.prems(1) step_upto by simp
  consider "issues e" "h = step (Some c) e" | "h \<in> set (issued_by (Some (step (Some c) e)) es)"
    using Cons.prems(3) by (auto split: if_splits)
  then show ?case
  proof cases
    case 1
    with Cons.prems(1) show ?thesis using issue_above by simp
  next
    case 2
    with Cons.IH [OF next_fits] Cons.prems(2) up upto_below show ?thesis by simp
  qed
qed simp

lemma issued_ascending:
  assumes "fits (length es) s" "\<forall>e \<in> set es. ok_event e"
  shows "sorted_wrt below (issued_by s es)"
  using assms
proof (induction es arbitrary: s)
  case (Cons e es)
  have "fits (length es) (Some (step s e))" using Cons.prems fits_step by simp
  with Cons show ?case by (auto intro: issued_above)
qed simp

end

section \<open>The code's clock\<close>

fun clock_step :: "uuid \<Rightarrow> hlc option \<Rightarrow> clock_event \<Rightarrow> hlc" where
  "clock_step nd s (Issue t) = hlc_next s t nd"
| "clock_step nd s (Absorb r t) = hlc_receive s r t nd"

fun is_issue :: "clock_event \<Rightarrow> bool" where
  "is_issue (Issue t) = True"
| "is_issue (Absorb r t) = False"

definition clock_fits :: "int \<Rightarrow> nat \<Rightarrow> hlc option \<Rightarrow> bool" where
  "clock_fits T n s \<longleftrightarrow> T + 86400000 + int n < i64_max \<and>
     (\<forall>c. s = Some c \<longrightarrow> sint (wall_millis c) + int n < i64_max)"

lemma clock_fits_Some:
  "clock_fits T n (Some c) \<longleftrightarrow>
     T + 86400000 + int n < i64_max \<and> sint (wall_millis c) + int n < i64_max"
  by (simp add: clock_fits_def)

lemma hlc_next_wall_le:
  "sint (wall_millis (hlc_next s now nd)) \<le>
     (case s of None \<Rightarrow> sint now | Some p \<Rightarrow> max (sint (wall_millis p)) (sint now) + 1)"
proof (cases s)
  case (Some p)
  have "sint (i64_saturating_add w 1) \<le> sint w + 1" for w :: i64
    using sint_i64_bounds [of w]
    by (simp add: sint_i64_saturating_add clamp_i64_def i64_max_def i64_min_def)
  from this [of "i64_larger (wall_millis p) now"]
  show ?thesis using wall_hlc_next_Some [of p now nd] by (auto simp: Some)
qed (simp add: hlc_next_def)

lemma clamped_wall_le: "sint now \<le> T \<Longrightarrow> T + 86400000 < i64_max \<Longrightarrow> clamped_wall r now \<le> T + 86400000"
  using sint_i64_bounds(1) [of now]
  by (simp add: clamped_wall_def clamp_i64_def i64_min_def)

lemma clock_fits_step:
  assumes "clock_fits T (Suc n) s" "sint (event_time e) \<le> T"
  shows "clock_fits T n (Some (clock_step nd s e))"
proof -
  have T: "T + 86400000 + int n + 1 < i64_max" using assms(1) by (simp add: clock_fits_def)
  have "sint (wall_millis (clock_step nd s e)) + int n < i64_max"
  proof (cases e)
    case (Issue t)
    then show ?thesis using assms T hlc_next_wall_le [of s t nd]
      by (cases s) (simp_all add: clock_fits_def)
  next
    case (Absorb r t)
    have "clamped_wall r t \<le> T + 86400000"
      using clamped_wall_le [of t T r] T assms(2) Absorb by simp
    with Absorb T assms show ?thesis
      by (cases s) (simp_all add: clock_fits_def hlc_receive_wall_None hlc_receive_wall_Some)
  qed
  with T show ?thesis by (simp add: clock_fits_Some)
qed

interpretation hlc_clock: monotone_clock "clock_step nd" is_issue stamp_less stamp_le "clock_fits T"
  "\<lambda>e. sint (event_time e) \<le> T" for nd T
proof unfold_locales
  fix n c e assume "clock_fits T (Suc n) (Some c)" "is_issue e"
  then show "stamp_less c (clock_step nd (Some c) e)"
    by (cases e) (auto simp: clock_fits_Some has_room_def intro!: hlc_next_greater)
next
  fix e c assume "\<not> is_issue e"
  then show "stamp_le c (clock_step nd (Some c) e)"
    by (cases e) (simp_all add: hlc_receive_after_local)
next
  fix a b c
  show "stamp_le a b \<Longrightarrow> stamp_less b c \<Longrightarrow> stamp_less a c" by (rule stamp_le_less_trans)
  show "stamp_le a b \<Longrightarrow> stamp_le b c \<Longrightarrow> stamp_le a c" by (rule stamp_le_trans)
  show "stamp_less a b \<Longrightarrow> stamp_le a b" "stamp_le a a" by (simp_all add: stamp_le_def)
next
  fix n s e assume "clock_fits T (Suc n) s" "sint (event_time e) \<le> T"
  then show "clock_fits T n (Some (clock_step nd s e))" by (rule clock_fits_step)
qed

fun issued :: "uuid \<Rightarrow> hlc option \<Rightarrow> clock_event list \<Rightarrow> hlc list" where
  "issued nd s [] = []"
| "issued nd s (Issue t # es) = (let h = hlc_next s t nd in h # issued nd (Some h) es)"
| "issued nd s (Absorb r t # es) = issued nd (Some (hlc_receive s r t nd)) es"

lemma issued_eq: "issued nd s es = hlc_clock.issued_by nd s es"
  by (induction nd s es rule: issued.induct) (simp_all add: Let_def)

lemma issued_sorted:
  assumes "\<forall>e \<in> set es. sint (event_time e) \<le> T" "T + 86400000 + int (length es) < i64_max"
  shows "sorted_wrt stamp_less (issued nd None es)"
  unfolding issued_eq
  by (rule hlc_clock.issued_ascending [where T = T]) (use assms in \<open>auto simp: clock_fits_def\<close>)

text \<open>A stamp issued after receiving \<open>r\<close> is later than \<open>r\<close>, unless \<open>r\<close> was clamped.\<close>

lemma issued_after_received:
  assumes "sint (wall_millis r) \<le> clamp_i64 (sint t + 86400000)"
    and "\<forall>e \<in> set es. sint (event_time e) \<le> T" "sint t \<le> T"
    and "clock_fits T (Suc (length es)) s"
    and "h \<in> set (issued nd (Some (hlc_receive s r t nd)) es)"
  shows "stamp_less r h"
proof -
  have "clock_fits T (length es) (Some (hlc_receive s r t nd))"
    using clock_fits_step [of T "length es" s "Absorb r t" nd] assms(3,4) by simp
  then have "stamp_less (hlc_receive s r t nd) h"
    using hlc_clock.issued_above [where T = T and nd = nd and es = es and h = h] assms(2,5)
    by (simp add: issued_eq)
  with hlc_receive_after_remote(1) [OF assms(1)] show ?thesis by (rule stamp_le_less_trans)
qed

end
