(* ===== verification/Sync_Vault.thy ===== *)
theory Sync_Vault
  imports Sync_Clock Sync_Replay
begin

text \<open>
  Any number of devices that share a vault folder, as a transition system. A device copies a clip
  (a record with a new id, stamped by \<open>hlc_next\<close>, put into its own tables as an applied record),
  deletes one of its live clips (a tombstone, stamped the same way) or takes any published file at
  any time and any number of times (\<open>merge_decide\<close> on the tables, \<open>hlc_receive\<close> on the clock).
  Wall clocks are arbitrary and may go backwards, files may be delayed and reordered, and nothing
  keeps a device from publishing, at the very last stamp of its clock either. These are the
  uses of the functions that the documentation in \<open>sync/mod.rs\<close> describes; the tables are those of
  any shell that meets its contract.
\<close>

section \<open>The transition system\<close>

record device =
  dev_view :: replica
  dev_clock :: "hlc option"

text \<open>\<open>overrun\<close> is history: some device published while its clock stood at the very last stamp of the
  range, from which \<open>hlc_next\<close> falls back. No operation reads it.\<close>

record vault =
  published :: "record_header set"
  dev :: "uuid \<Rightarrow> device"
  overrun :: bool

definition new_vault :: vault where
  "new_vault = \<lparr>published = {}, dev = (\<lambda>_. \<lparr>dev_view = empty_replica, dev_clock = None\<rparr>),
     overrun = False\<rparr>"

text \<open>A clock that is not at the very last stamp.\<close>

definition can_issue :: "hlc option \<Rightarrow> bool" where
  "can_issue c \<longleftrightarrow> (\<forall>p. c = Some p \<longrightarrow> has_room p)"

definition set_dev :: "uuid \<Rightarrow> replica \<Rightarrow> hlc \<Rightarrow> vault \<Rightarrow> vault" where
  "set_dev d r c v = v\<lparr>dev := (dev v)(d := \<lparr>dev_view = r, dev_clock = Some c\<rparr>)\<rparr>"

definition publish :: "uuid \<Rightarrow> merge_action \<Rightarrow> record_header \<Rightarrow> vault \<Rightarrow> vault" where
  "publish d a h v =
     (set_dev d (effect a h (dev_view (dev v d))) (hdr_hlc h) v)\<lparr>published := insert h (published v),
       overrun := overrun v \<or> \<not> can_issue (dev_clock (dev v d))\<rparr>"

definition stamped :: "uuid \<Rightarrow> record_header \<Rightarrow> vault \<Rightarrow> bool" where
  "stamped d h v \<longleftrightarrow> (\<exists>now. hdr_hlc h = hlc_next (dev_clock (dev v d)) now d)"

inductive vault_step :: "vault \<Rightarrow> vault \<Rightarrow> bool" where
  copy: "\<not> deleted h \<Longrightarrow> stamped d h v \<Longrightarrow> record_id h \<notin> record_id ` published v \<Longrightarrow>
    sync_hash h \<notin> live_content (dev_view (dev v d)) \<Longrightarrow> vault_step v (publish d ApplyRemote h v)"
| remove: "deleted h \<Longrightarrow> stamped d h v \<Longrightarrow> (record_id h, sync_hash h) \<in> rows (dev_view (dev v d)) \<Longrightarrow>
    vault_step v (publish d ApplyTombstone h v)"
| receive: "h \<in> published v \<Longrightarrow> takes merge_decide h (dev_view (dev v d)) r \<Longrightarrow>
    vault_step v (set_dev d r (hlc_receive (dev_clock (dev v d)) (hdr_hlc h) now d) v)"

inductive reachable :: "vault \<Rightarrow> bool" where
  reach_new: "reachable new_vault"
| reach_step: "reachable v \<Longrightarrow> vault_step v v' \<Longrightarrow> reachable v'"

lemma set_dev_simps [simp]:
  "published (set_dev d r c v) = published v" "overrun (set_dev d r c v) = overrun v"
  "dev (set_dev d r c v) e = (if e = d then \<lparr>dev_view = r, dev_clock = Some c\<rparr> else dev v e)"
  by (simp_all add: set_dev_def)

lemma publish_simps [simp]:
  "published (publish d a h v) = insert h (published v)"
  "overrun (publish d a h v) \<longleftrightarrow> overrun v \<or> \<not> can_issue (dev_clock (dev v d))"
  "dev (publish d a h v) e = (if e = d
     then \<lparr>dev_view = effect a h (dev_view (dev v d)), dev_clock = Some (hdr_hlc h)\<rparr> else dev v e)"
  by (simp_all add: publish_def set_dev_def)

section \<open>Stamps\<close>

text \<open>Unless the range was overrun, no clock is behind a stamp it issued, and no two files have the
  same stamp.\<close>

definition clock_covers :: "vault \<Rightarrow> record_header \<Rightarrow> bool" where
  "clock_covers v h \<longleftrightarrow> (\<exists>c. dev_clock (dev v (node (hdr_hlc h))) = Some c \<and> stamp_le (hdr_hlc h) c)"

definition stamps_ok :: "vault \<Rightarrow> bool" where
  "stamps_ok v \<longleftrightarrow> overrun v \<or> (\<forall>h \<in> published v. clock_covers v h) \<and> inj_on hdr_hlc (published v)"

lemma stamp_le_refl [simp]: "stamp_le a a"
  by (simp add: stamp_le_def)

lemma stamp_less_irrefl [simp]: "\<not> stamp_less a a"
  by (simp add: stamp_less_def)

lemma stamped_above:
  assumes "stamped d h v" "can_issue (dev_clock (dev v d))" "clock_covers v g" "node (hdr_hlc g) = d"
  shows "stamp_less (hdr_hlc g) (hdr_hlc h)"
proof -
  obtain c where c: "dev_clock (dev v d) = Some c" "stamp_le (hdr_hlc g) c"
    using assms(3,4) by (auto simp: clock_covers_def)
  with assms(1,2) have "stamp_less c (hdr_hlc h)" by (auto simp: stamped_def can_issue_def intro: hlc_next_greater)
  with c(2) show ?thesis by (rule stamp_le_less_trans)
qed

lemma stamped_node: "stamped d h v \<Longrightarrow> node (hdr_hlc h) = d"
  by (auto simp: stamped_def)

lemma stamps_ok_publish:
  assumes "stamps_ok v" "stamped d h v"
  shows "stamps_ok (publish d a h v)"
proof (cases "overrun (publish d a h v)")
  case False
  then have room: "\<not> overrun v" "can_issue (dev_clock (dev v d))" by simp_all
  then have ok: "\<forall>g \<in> published v. clock_covers v g" "inj_on hdr_hlc (published v)"
    using assms(1) by (simp_all add: stamps_ok_def)
  have above: "stamp_less (hdr_hlc g) (hdr_hlc h)" if "g \<in> published v" "node (hdr_hlc g) = d" for g
    using stamped_above [OF assms(2) room(2) _ that(2)] ok(1) that(1) by simp
  have "hdr_hlc h \<noteq> hdr_hlc g" if "g \<in> published v" for g
    using above [OF that] stamped_node [OF assms(2)] by (metis stamp_less_irrefl)
  then have "inj_on hdr_hlc (insert h (published v))" using ok(2) by (auto simp: inj_on_insert)
  moreover have "clock_covers (publish d a h v) g" if "g \<in> insert h (published v)" for g
    using that ok(1) above stamped_node [OF assms(2)] by (auto simp: clock_covers_def stamp_le_def)
  ultimately show ?thesis by (simp add: stamps_ok_def)
qed (simp add: stamps_ok_def)

lemma stamps_ok_receive:
  assumes "stamps_ok v"
  shows "stamps_ok (set_dev d r (hlc_receive (dev_clock (dev v d)) s now d) v)"
proof -
  have "clock_covers (set_dev d r (hlc_receive (dev_clock (dev v d)) s now d) v) g"
    if "clock_covers v g" for g
    using that by (auto simp: clock_covers_def intro: stamp_le_trans [OF _ hlc_receive_after_local(1)])
  with assms show ?thesis by (auto simp: stamps_ok_def)
qed

lemma stamps_ok_step: "vault_step v v' \<Longrightarrow> stamps_ok v \<Longrightarrow> stamps_ok v'"
  by (induction rule: vault_step.induct) (simp_all add: stamps_ok_publish stamps_ok_receive)

section \<open>Files and tables\<close>

text \<open>Every record has one file, and every tombstone belongs to a record with its content.\<close>

definition live_file :: "record_header set \<Rightarrow> uuid \<Rightarrow> str \<Rightarrow> bool" where
  "live_file F i s \<longleftrightarrow> (\<exists>h \<in> F. \<not> deleted h \<and> record_id h = i \<and> sync_hash h = s)"

definition dead_file :: "record_header set \<Rightarrow> uuid \<Rightarrow> str \<Rightarrow> bool" where
  "dead_file F i s \<longleftrightarrow> (\<exists>t \<in> F. deleted t \<and> record_id t = i \<and> sync_hash t = s)"

definition files_ok :: "record_header set \<Rightarrow> bool" where
  "files_ok F \<longleftrightarrow> (\<forall>i s s'. live_file F i s \<longrightarrow> live_file F i s' \<longrightarrow> s = s') \<and>
     (\<forall>i s. dead_file F i s \<longrightarrow> live_file F i s)"

text \<open>
  What a device holds is backed by published files, and a clip it knows of is on display unless
  some device deleted its content.
\<close>

definition backed :: "record_header set \<Rightarrow> replica \<Rightarrow> bool" where
  "backed F r \<longleftrightarrow> well_formed r \<and>
     (\<forall>(i, s) \<in> rows r. live_file F i s) \<and>
     wipes r \<subseteq> wipe_of ` {t \<in> F. deleted t} \<and>
     (\<forall>i. known r i = Some True \<longrightarrow> (\<exists>s. dead_file F i s)) \<and>
     (\<forall>i. known r i \<noteq> None \<longrightarrow> i \<in> record_id ` F)"

definition displayed :: "record_header set \<Rightarrow> replica \<Rightarrow> bool" where
  "displayed F r \<longleftrightarrow> (\<forall>i s. live_file F i s \<longrightarrow> known r i \<noteq> None \<longrightarrow>
     (\<forall>j. \<not> dead_file F j s) \<longrightarrow> s \<in> live_content r)"

lemma live_file_insert: "live_file (insert h F) i s \<longleftrightarrow>
    live_file F i s \<or> \<not> deleted h \<and> record_id h = i \<and> sync_hash h = s"
  by (auto simp: live_file_def)

lemma dead_file_insert: "dead_file (insert h F) i s \<longleftrightarrow>
    dead_file F i s \<or> deleted h \<and> record_id h = i \<and> sync_hash h = s"
  by (auto simp: dead_file_def)

lemmas file_inserts = live_file_insert dead_file_insert

lemma live_file_id: "live_file F i s \<Longrightarrow> i \<in> record_id ` F"
  by (auto simp: live_file_def)

lemma files_ok_insert:
  assumes "files_ok F" "\<not> deleted h" "record_id h \<notin> record_id ` F"
  shows "files_ok (insert h F)"
proof -
  have "\<not> live_file F (record_id h) s" for s using assms(3) live_file_id by blast
  then show ?thesis using assms(1,2) by (auto simp: files_ok_def file_inserts)
qed

lemma backed_insert: "backed F r \<Longrightarrow> backed (insert h F) r"
  by (fastforce simp: backed_def file_inserts)

lemma displayed_insert:
  assumes "backed F r" "displayed F r" "\<not> deleted h \<Longrightarrow> record_id h \<notin> record_id ` F"
  shows "displayed (insert h F) r"
proof -
  have "known r (record_id h) = None" if "\<not> deleted h" using assms(1,3) that by (auto simp: backed_def)
  with assms(2) show ?thesis by (auto simp: displayed_def file_inserts)
qed

text \<open>The three ways in which tables change.\<close>

lemma tables_insert:
  assumes "backed F r" "displayed F r" "files_ok F" "live_file F (record_id h) (sync_hash h)"
    and "known r (record_id h) = None" "sync_hash h \<notin> live_content r"
  shows "backed F (effect ApplyRemote h r)" "displayed F (effect ApplyRemote h r)"
proof -
  have "well_formed (effect ApplyRemote h r)"
    using assms(1,5,6) by (intro well_formed_insert) (simp_all add: backed_def)
  with assms(1,4) live_file_id [OF assms(4)] show "backed F (effect ApplyRemote h r)"
    by (auto simp: backed_def)
  have "s = sync_hash h" if "live_file F (record_id h) s" for s
    using assms(3,4) that by (auto simp: files_ok_def)
  with assms(2) show "displayed F (effect ApplyRemote h r)"
    by (auto simp: displayed_def live_content_def)
qed

lemma tables_suppress:
  assumes "backed F r" "displayed F r" "files_ok F" "live_file F (record_id h) (sync_hash h)"
    and "known r (record_id h) = None" "sync_hash h \<in> live_content r \<or> other_wipes r h \<noteq> {}"
  shows "backed F (mark_applied h r)" "displayed F (mark_applied h r)"
proof -
  have "well_formed (mark_applied h r)"
    using assms(1,5) by (intro well_formed_suppress) (simp_all add: backed_def)
  with assms(1,5) live_file_id [OF assms(4)] show "backed F (mark_applied h r)"
    by (auto simp: backed_def mark_applied_def)
  have "s = sync_hash h" if "live_file F (record_id h) s" for s
    using assms(3,4) that by (auto simp: files_ok_def)
  moreover have "sync_hash h \<in> live_content r" if "\<forall>j. \<not> dead_file F j (sync_hash h)"
    using assms(1,6) that by (fastforce simp: other_wipes_def backed_def wipe_of_def dead_file_def)
  ultimately show "displayed F (mark_applied h r)"
    using assms(2) by (auto simp: displayed_def mark_applied_def live_content_def)
qed

lemma tables_wipe:
  assumes "backed F r" "displayed F r" "files_ok F" "t \<in> F" "deleted t"
    and "known r' = (known r)(record_id t \<mapsto> True)"
    and "wipes r' = insert (record_id t, sync_hash t, hdr_hlc t) (wipes r)"
    and "rows r' = {x \<in> rows r. fst x \<noteq> record_id t}"
  shows "backed F r'" "displayed F r'"
proof -
  have df: "dead_file F (record_id t) (sync_hash t)" using assms(4,5) by (auto simp: dead_file_def)
  then have lf: "live_file F (record_id t) (sync_hash t)" using assms(3) by (simp add: files_ok_def)
  have "well_formed r'" using assms(1) unfolding backed_def well_formed_def assms(6-8)
    by (auto intro: inj_on_subset)
  with assms(1,4,5) df show "backed F r'"
    by (auto simp: backed_def assms(6-8) wipe_of_def)
  have unique: "s = sync_hash t" if "live_file F (record_id t) s" for s
    using assms(3) lf that by (auto simp: files_ok_def)
  show "displayed F r'" unfolding displayed_def
  proof (intro allI impI)
    fix i s assume i: "live_file F i s" "known r' i \<noteq> None" and s: "\<forall>j. \<not> dead_file F j s"
    have "i \<noteq> record_id t" using unique i(1) s df by auto
    then have "s \<in> live_content r" using assms(2) i s by (auto simp: displayed_def assms(6))
    then obtain j where j: "(j, s) \<in> rows r" by (auto simp: live_content_def)
    then have "live_file F j s" using assms(1) by (auto simp: backed_def)
    then have "j \<noteq> record_id t" using unique s df by auto
    with j show "s \<in> live_content r'" by (force simp: live_content_def assms(8))
  qed
qed

lemma tables_take:
  assumes "backed F r" "displayed F r" "files_ok F" "h \<in> F" "takes merge_decide h r r'"
  shows "backed F r' \<and> displayed F r'"
proof -
  have wf: "well_formed r" using assms(1) by (simp add: backed_def)
  show ?thesis
  proof (cases "deleted h")
    case True
    show ?thesis
    proof (cases "known r (record_id h) = Some True")
      case True
      with assms show ?thesis using merge.take_known_deleted by blast
    next
      case False
      note t = merge.take_tombstone [OF assms(5) True False]
      from tables_wipe [OF assms(1-4) True t(1,2) t(3) [OF wf]] show ?thesis by blast
    qed
  next
    case False
    have lf: "live_file F (record_id h) (sync_hash h)" using assms(4) False by (auto simp: live_file_def)
    show ?thesis
    proof (cases "known r (record_id h)")
      case None
      have r': "r' = (if inserts h r then effect ApplyRemote h r else mark_applied h r)"
        by (rule merge.take_unknown_live [OF assms(5) wf None False])
      show ?thesis
      proof (cases "inserts h r")
        case True
        then have "sync_hash h \<notin> live_content r" by (simp add: inserts_def)
        from tables_insert [OF assms(1-3) lf None this] True show ?thesis by (simp only: r' if_True)
      next
        case False
        then have "sync_hash h \<in> live_content r \<or> other_wipes r h \<noteq> {}" by (auto simp: inserts_def)
        from tables_suppress [OF assms(1-3) lf None this] False show ?thesis by (simp only: r' if_False)
      qed
    next
      case (Some b)
      then have "r' = r" using merge.take_known_live [OF assms(5) _ False] by simp
      with assms show ?thesis by simp
    qed
  qed
qed

section \<open>The invariant of the vault\<close>

definition tables_ok :: "vault \<Rightarrow> bool" where
  "tables_ok v \<longleftrightarrow> files_ok (published v) \<and>
     (\<forall>d. backed (published v) (dev_view (dev v d)) \<and> displayed (published v) (dev_view (dev v d)))"

lemma tables_ok_step: "vault_step v v' \<Longrightarrow> tables_ok v \<Longrightarrow> tables_ok v'"
proof (induction rule: vault_step.induct)
  case (copy h d v)
  let ?F = "insert h (published v)" and ?r = "dev_view (dev v d)"
  have old: "backed (published v) (dev_view (dev v e))" "displayed (published v) (dev_view (dev v e))"
    and files: "files_ok (published v)" for e
    using copy.prems by (simp_all add: tables_ok_def)
  have new: "backed ?F (dev_view (dev v e))" "displayed ?F (dev_view (dev v e))" for e
    using backed_insert [OF old(1)] displayed_insert [OF old] copy.hyps(3) by blast+
  have "files_ok ?F" by (rule files_ok_insert [OF files copy.hyps(1,3)])
  moreover have "live_file ?F (record_id h) (sync_hash h)" using copy.hyps(1) by (simp add: live_file_insert)
  moreover have "known ?r (record_id h) = None" using old(1) [of d] copy.hyps(3) by (auto simp: backed_def)
  ultimately have "backed ?F (effect ApplyRemote h ?r)" "displayed ?F (effect ApplyRemote h ?r)"
    using tables_insert [OF new _ _ _ copy.hyps(4)] by blast+
  with new \<open>files_ok ?F\<close> show ?case by (simp add: tables_ok_def del: effect.simps)
next
  case (remove t d v)
  let ?F = "insert t (published v)" and ?r = "dev_view (dev v d)"
  have old: "backed (published v) (dev_view (dev v e))" "displayed (published v) (dev_view (dev v e))"
    and files: "files_ok (published v)" for e
    using remove.prems by (simp_all add: tables_ok_def)
  have new: "backed ?F (dev_view (dev v e))" "displayed ?F (dev_view (dev v e))" for e
    using backed_insert [OF old(1)] displayed_insert [OF old] remove.hyps(1) by blast+
  have "live_file (published v) (record_id t) (sync_hash t)"
    using old(1) [of d] remove.hyps(3) by (auto simp: backed_def)
  then have "files_ok ?F" using files remove.hyps(1) by (auto simp: files_ok_def file_inserts)
  then have "backed ?F (effect ApplyTombstone t ?r)" "displayed ?F (effect ApplyTombstone t ?r)"
    using tables_wipe [OF new, of t "effect ApplyTombstone t ?r"] remove.hyps(1)
    by (simp_all add: mark_deleted_def)
  with new \<open>files_ok ?F\<close> show ?case by (simp add: tables_ok_def del: effect.simps)
next
  case (receive h v d r now)
  then have "backed (published v) r \<and> displayed (published v) r"
    by (intro tables_take) (auto simp: tables_ok_def)
  with receive.prems show ?case by (simp add: tables_ok_def)
qed

lemma reachable_ok:
  assumes "reachable v"
  shows "stamps_ok v" "tables_ok v"
  using assms
proof (induction rule: reachable.induct)
  case reach_new
  {
    case 1
    show ?case by (simp add: stamps_ok_def new_vault_def)
  next
    case 2
    show ?case by (simp add: tables_ok_def new_vault_def files_ok_def live_file_def dead_file_def
        backed_def displayed_def empty_well_formed) (simp add: empty_replica_def)
  }
next
  case (reach_step v v')
  {
    case 1
    from stamps_ok_step [OF reach_step.hyps(2)] reach_step.IH show ?case by blast
  next
    case 2
    from tables_ok_step [OF reach_step.hyps(2)] reach_step.IH show ?case by blast
  }
qed

lemma reachable_finite: "reachable v \<Longrightarrow> finite (published v)"
  by (induction rule: reachable.induct)
    (auto simp: new_vault_def elim!: vault_step.cases)

lemma reachable_backed:
  assumes "reachable v"
  shows "backed (published v) (dev_view (dev v d))" "displayed (published v) (dev_view (dev v d))"
  using reachable_ok(2) [OF assms] by (simp_all add: tables_ok_def)

section \<open>Catching up\<close>

lemma receive_possible:
  assumes "reachable v" "h \<in> published v"
  obtains v' where "vault_step v v'" "published v' = published v"
    "takes merge_decide h (dev_view (dev v d)) (dev_view (dev v' d))" "\<forall>e. e \<noteq> d \<longrightarrow> dev v' e = dev v e"
proof -
  have "wipes (dev_view (dev v d)) \<subseteq> wipe_of ` published v"
    using reachable_backed(1) [OF assms(1), of d] by (auto simp: backed_def)
  then have "finite (wipes (dev_view (dev v d)))" using reachable_finite [OF assms(1)] finite_surj by blast
  then obtain r where r: "takes merge_decide h (dev_view (dev v d)) r"
    using summary_exists take_file by meson
  show ?thesis by (rule that [OF vault_step.receive [OF assms(2) r]]) (simp_all add: r)
qed

lemma receive_all:
  assumes "reachable v" "set hs \<subseteq> published v"
  shows "\<exists>v'. rtranclp vault_step v v' \<and> published v' = published v \<and>
    pulls merge_decide hs (dev_view (dev v d)) (dev_view (dev v' d)) \<and>
    (\<forall>e. e \<noteq> d \<longrightarrow> dev v' e = dev v e)"
  using assms
proof (induction hs arbitrary: v)
  case Nil
  then show ?case by (auto intro: pull_done)
next
  case (Cons h hs)
  then have "h \<in> published v" by simp
  from receive_possible [OF Cons.prems(1) this, of d] obtain u where u: "vault_step v u"
    "published u = published v" "takes merge_decide h (dev_view (dev v d)) (dev_view (dev u d))"
    "\<forall>e. e \<noteq> d \<longrightarrow> dev u e = dev v e" by blast
  have "reachable u" by (rule reach_step [OF Cons.prems(1) u(1)])
  from Cons.IH [OF this] Cons.prems(2) u(2) obtain w where "rtranclp vault_step u w"
    "published w = published v" "pulls merge_decide hs (dev_view (dev u d)) (dev_view (dev w d))"
    "\<forall>e. e \<noteq> d \<longrightarrow> dev w e = dev u e" by auto
  with u show ?case
    by (intro exI [of _ w]) (auto intro: pull_next converse_rtranclp_into_rtranclp)
qed

lemma steps_reachable: "rtranclp vault_step v v' \<Longrightarrow> reachable v \<Longrightarrow> reachable v'"
  by (induction rule: rtranclp.induct) (auto intro: reach_step)

lemma caught_up:
  assumes "reachable v"
  shows "\<exists>v'. rtranclp vault_step v v' \<and> published v' = published v \<and>
    (\<forall>e. e \<noteq> d \<longrightarrow> dev v' e = dev v e) \<and>
    (\<forall>h \<in> published v. known (dev_view (dev v' d)) (record_id h) =
       Some (\<exists>t \<in> published v. deleted t \<and> record_id t = record_id h))"
proof -
  obtain hs where hs: "set hs = published v" using finite_list [OF reachable_finite [OF assms]] by blast
  obtain w where w: "rtranclp vault_step v w" "published w = published v"
    "pulls merge_decide hs (dev_view (dev v d)) (dev_view (dev w d))" "\<forall>e. e \<noteq> d \<longrightarrow> dev w e = dev v e"
    using receive_all [OF assms, of hs d] hs by blast
  have "known (dev_view (dev w d)) (record_id h) =
      Some (\<exists>t \<in> published v. deleted t \<and> record_id t = record_id h)" if "h \<in> published v" for h
  proof (cases "\<exists>t \<in> published v. deleted t \<and> record_id t = record_id h")
    case True
    then show ?thesis using merge.pulled_known(2) [OF w(3)] hs by fastforce
  next
    case False
    then have "known (dev_view (dev w d)) (record_id h) \<noteq> Some True"
      using reachable_backed(1) [OF steps_reachable [OF w(1) assms], of d]
      by (auto simp: backed_def dead_file_def w(2))
    then show ?thesis using merge.pulled_known(1) [OF w(3), of h] that hs False by fastforce
  qed
  with w show ?thesis by blast
qed

end
