(* ===== verification/Sync_Properties.thy ===== *)
theory Sync_Properties
  imports Sync_Gc Sync_Table Sync_Vault
begin

text \<open>
  The properties of the sync component: the hybrid logical clock, the merge decision as it acts on
  a replica, and tombstone collection.
\<close>

section \<open>Merging\<close>

definition stamp :: "nat \<Rightarrow> hlc" where
  "stamp t = \<lparr>wall_millis = of_nat t, counter = 0, node = 1\<rparr>"

definition vault_file :: "uuid \<Rightarrow> nat \<Rightarrow> bool \<Rightarrow> str \<Rightarrow> record_header" where
  "vault_file i t del s =
     \<lparr>format_version = 1, record_id = i, origin_device_id = 1, hdr_hlc = stamp t,
      created_at = 0, updated_at = 0, deleted = del, sync_hash = s\<rparr>"

lemma vault_file_simps [simp]:
  "record_id (vault_file i t del s) = i" "hdr_hlc (vault_file i t del s) = stamp t"
  "deleted (vault_file i t del s) = del" "sync_hash (vault_file i t del s) = s"
  by (simp_all add: vault_file_def)

definition sample_tombs :: "record_header list" where
  "sample_tombs = [vault_file 1 50 True [1]]"

definition sample_lives :: "record_header list" where
  "sample_lives = [vault_file 1 10 False [1], vault_file 2 20 False [1], vault_file 3 60 False [1],
     vault_file 4 70 False [1], vault_file 5 30 False [2]]"

lemma sample_files:
  "\<forall>t \<in> set sample_tombs. deleted t" "immutable (set sample_tombs)"
  "\<forall>h \<in> set sample_lives. \<not> deleted h" "immutable (set sample_lives)"
  by (auto simp: sample_tombs_def sample_lives_def immutable_def)

lemma no_tables_well_formed: "well_formed (sh_view table_shell no_tables)"
  by (simp add: no_tables_empty empty_well_formed)

text \<open>C2: convergence. Whatever shell executes the decisions as documented, a first pull that
  processes the tombstones first leaves exactly the surviving content: the content of the live
  records that no tombstone names and that were copied after every wipe of the same content. The
  right-hand side only mentions the two sets of files, so the order in which the provider lists
  them does not matter.\<close>

theorem pull_converges:
  assumes "shell_ok S" "sh_view S s = empty_replica"
    and "\<forall>t \<in> set ts. deleted t" "immutable (set ts)" "\<forall>h \<in> set ls. \<not> deleted h" "immutable (set ls)"
  shows "live_content (sh_view S (pull S (ts @ ls) s)) = surviving_content (set ts) (set ls)"
  using merge.converges [OF _ assms(3-6)] shell_pulls [OF assms(1), of "ts @ ls" s]
  by (simp only: assms(2))

theorem pull_converges_witness:
  "live_content (sh_view table_shell (pull table_shell (sample_tombs @ sample_lives) no_tables)) = {[1], [2]}"
proof -
  have "surviving_content (set sample_tombs) (set sample_lives) = {[1], [2]}" by code_simp
  then show ?thesis
    using pull_converges [OF table_shell_ok no_tables_empty sample_files] by simp
qed

text \<open>C6: a deleted record never comes back. Once a tombstone is among the files a well-formed
  replica has pulled, the record is not live, wherever the tombstone stood in the sequence and
  whatever was pulled before or after it.\<close>

theorem no_resurrection:
  assumes "shell_ok S" "well_formed (sh_view S s)" "h \<in> set hs" "deleted h"
  shows "record_id h \<notin> fst ` rows (sh_view S (pull S hs s))"
  by (rule merge.tombstoned_not_live [OF assms(2) shell_pulls [OF assms(1)] assms(3,4)])

theorem no_resurrection_witness:
  "(1 :: uuid) \<notin> fst ` rows (sh_view table_shell (pull table_shell
     [vault_file 1 10 False [1], vault_file 1 50 True [1], vault_file 1 10 False [1]] no_tables))"
  using no_resurrection [OF table_shell_ok no_tables_well_formed, of "vault_file 1 50 True [1]"
      "[vault_file 1 10 False [1], vault_file 1 50 True [1], vault_file 1 10 False [1]]"]
  by simp

text \<open>C24: pulling is idempotent. Files that were pulled before, in any order and number, change
  nothing when they are pulled again.\<close>

theorem pull_again_changes_nothing:
  assumes "shell_ok S" "set gs \<subseteq> set hs"
  shows "sh_view S (pull S gs (pull S hs s)) = sh_view S (pull S hs s)"
  by (rule merge.replay [OF shell_pulls [OF assms(1)] shell_pulls [OF assms(1)] assms(2)])

theorem pull_again_changes_nothing_witness:
  "sh_view table_shell (pull table_shell [vault_file 1 50 True [1]] (pull table_shell sample_tombs no_tables)) =
     sh_view table_shell (pull table_shell sample_tombs no_tables)"
  by (rule pull_again_changes_nothing [OF table_shell_ok]) (simp add: sample_tombs_def)

text \<open>The replica invariant. Whatever is pulled, every live row belongs to a known record that
  is not deleted, no record has two rows, no two rows have the same content, and every recorded
  wipe belongs to a deleted record.\<close>

theorem pull_keeps_replica_well_formed:
  assumes "shell_ok S" "well_formed (sh_view S s)"
  shows "well_formed (sh_view S (pull S hs s))"
  by (rule merge.pulls_mono(3) [OF shell_pulls [OF assms(1)] assms(2)])

theorem pull_keeps_replica_well_formed_witness:
  "well_formed (sh_view table_shell (pull table_shell (sample_lives @ sample_tombs) no_tables))"
  by (rule pull_keeps_replica_well_formed [OF table_shell_ok no_tables_well_formed])

text \<open>C36: pulling is not immune to late files. Two records have the same content, the second copied
  after the first was deleted. A replica that sees the second before the tombstone suppresses it as
  a duplicate, then deletes the first, and is left without the content; a replica that sees the
  tombstone in between keeps it. Both have seen the same files.\<close>

theorem arrival_order_matters:
  assumes "shell_ok S" "sh_view S s = empty_replica"
    and "\<not> deleted a" "deleted t" "\<not> deleted b" "record_id t = record_id a" "record_id b \<noteq> record_id a"
    and "sync_hash t = sync_hash a" "sync_hash b = sync_hash a"
    and "hlc_compare (hdr_hlc b) (hdr_hlc t) = Greater"
  shows "live_content (sh_view S (pull S [a, b, t] s)) = {} \<and>
    live_content (sh_view S (pull S [a, t, b] s)) = {sync_hash a}"
proof
  define r0 where "r0 = effect ApplyRemote a empty_replica"
  have a: "r = r0" if "takes merge_decide a empty_replica r" for r
    using merge.take_unknown_live [OF that empty_well_formed _ assms(3)]
    by (simp add: r0_def inserts_def empty_replica_def live_content_def other_wipes_def del: effect.simps)
  have wf: "well_formed r0" unfolding r0_def
    by (rule well_formed_insert [OF empty_well_formed]) (simp_all add: empty_replica_def live_content_def)
  have r0: "rows r0 = {(record_id a, sync_hash a)}" "wipes r0 = {}"
    "known r0 (record_id a) = Some False" "known r0 (record_id b) = None"
    using assms(7) by (simp_all add: r0_def empty_replica_def)
  show "live_content (sh_view S (pull S [a, b, t] s)) = {}"
  proof -
    from shell_pulls [OF assms(1), of "[a, b, t]" s] obtain q where
      q: "takes merge_decide b r0 q" "takes merge_decide t q (sh_view S (pull S [a, b, t] s))"
      by (auto simp: assms(2) elim!: pulls_ConsE pulls_NilE dest!: a)
    have "q = mark_applied b r0"
      using merge.take_unknown_live [OF q(1) wf r0(4) assms(5)]
      by (simp add: inserts_def live_content_def r0(1) assms(9))
    then have "well_formed q" "rows q = rows r0" "known q (record_id t) \<noteq> Some True"
      using well_formed_suppress [OF wf r0(4)] assms(6,7) r0(3) by (simp_all add: mark_applied_def)
    with merge.take_tombstone(3) [OF q(2) assms(4)] show ?thesis
      by (auto simp: live_content_def r0(1) assms(6))
  qed
  show "live_content (sh_view S (pull S [a, t, b] s)) = {sync_hash a}"
  proof -
    from shell_pulls [OF assms(1), of "[a, t, b]" s] obtain q where
      q: "takes merge_decide t r0 q" "takes merge_decide b q (sh_view S (pull S [a, t, b] s))"
      by (auto simp: assms(2) elim!: pulls_ConsE pulls_NilE dest!: a)
    have "known r0 (record_id t) \<noteq> Some True" by (simp add: assms(6) r0(3))
    note t = merge.take_tombstone [OF q(1) assms(4) this]
    have k: "known q (record_id b) = None" "well_formed q"
      using assms(6,7) r0(4) merge.well_formed_take [OF wf q(1)] by (simp_all add: t(1))
    have "inserts b q"
      using assms(6,7,10) by (auto simp: inserts_def live_content_def other_wipes_def t(2) t(3) [OF wf] r0)
    with merge.take_unknown_live [OF q(2) k(2,1) assms(5)] show ?thesis
      by (auto simp: live_content_def t(3) [OF wf] r0(1) assms(6,9))
  qed
qed

theorem arrival_order_matters_witness:
  "live_content (sh_view table_shell (pull table_shell
     [vault_file 1 10 False [7], vault_file 2 30 False [7], vault_file 1 20 True [7]] no_tables)) = {} \<and>
   live_content (sh_view table_shell (pull table_shell
     [vault_file 1 10 False [7], vault_file 1 20 True [7], vault_file 2 30 False [7]] no_tables)) = {[7]}"
proof -
  have "hlc_compare (stamp 30) (stamp 20) = Greater" by code_simp
  then show ?thesis
    using arrival_order_matters [OF table_shell_ok no_tables_empty, of "vault_file 1 10 False [7]"
        "vault_file 1 20 True [7]" "vault_file 2 30 False [7]"]
    by simp
qed

section \<open>Devices sharing a vault\<close>

text \<open>
  A run of two devices: the first copies a clip, the second receives it, the first deletes it.
\<close>

definition sample_copied :: vault where
  "sample_copied = publish 1 ApplyRemote (vault_file 1 10 False [7]) new_vault"

definition sample_received :: vault where
  "sample_received = set_dev 2 (effect ApplyRemote (vault_file 1 10 False [7]) empty_replica)
     (hlc_receive None (stamp 10) 10 2) sample_copied"

definition sample_deleted :: vault where
  "sample_deleted = publish 1 ApplyTombstone (vault_file 1 20 True [7]) sample_received"

lemma sample_copied_reachable: "reachable sample_copied"
proof -
  have "stamped 1 (vault_file 1 10 False [7]) new_vault"
    by (auto simp: stamped_def new_vault_def hlc_next_def stamp_def)
  then show ?thesis unfolding sample_copied_def
    by (intro reach_step [OF reach_new] vault_step.copy)
      (simp_all add: new_vault_def empty_replica_def live_content_def)
qed

lemma sample_received_reachable: "reachable sample_received"
proof -
  let ?h = "vault_file 1 10 False [7]"
  let ?l = "\<lparr>applied = False, applied_deleted = False, live_duplicate_sync_hash = False,
      tombstoned_duplicate_hlc = None\<rparr>"
  have "summarises empty_replica ?h ?l"
    by (simp add: summarises_def empty_replica_def newest_of_def other_wipes_def)
  from take_file [OF this, of merge_decide]
  have "takes merge_decide ?h (dev_view (dev sample_copied 2)) (effect ApplyRemote ?h empty_replica)"
    by (simp add: merge_decide_def sample_copied_def new_vault_def del: effect.simps)
  from vault_step.receive [OF _ this, of 10] have "vault_step sample_copied sample_received"
    by (simp add: sample_received_def sample_copied_def new_vault_def del: effect.simps)
  with sample_copied_reachable show ?thesis by (rule reach_step)
qed

lemma sample_clock: "hlc_next (Some (stamp 10)) 20 1 = stamp 20" "has_room (stamp 10)"
  by code_simp+

lemma sample_deleted_reachable: "reachable sample_deleted"
proof -
  have "dev_clock (dev sample_received 1) = Some (stamp 10)"
    by (simp add: sample_received_def sample_copied_def)
  then have "stamped 1 (vault_file 1 20 True [7]) sample_received"
    using sample_clock(1) by (auto simp: stamped_def intro: exI [of _ 20])
  then show ?thesis unfolding sample_deleted_def
    by (intro reach_step [OF sample_received_reachable] vault_step.remove)
      (simp_all add: sample_received_def sample_copied_def)
qed

text \<open>C16: stamps identify files. Whatever the devices of a vault copy, delete and receive, and in
  whatever order, no two published files carry stamps that compare equal, even if wall clocks
  coincide or run backwards; so the newest of several tombstones is always well defined. The one
  exception is a vault in which some device published while its clock stood at the very last stamp
  of the range (\<open>overrun\<close>), from which \<open>hlc_next\<close> falls back.\<close>

theorem stamps_identify_files:
  assumes "reachable v" "\<not> overrun v" "g \<in> published v" "h \<in> published v" "g \<noteq> h"
  shows "hlc_compare (hdr_hlc g) (hdr_hlc h) \<noteq> Equal"
  using reachable_ok(1) [OF assms(1)] assms(2-5) hlc_order.antisym
  unfolding stamps_ok_def by (blast dest: inj_onD)

theorem stamps_identify_files_witness: "hlc_compare (stamp 10) (stamp 20) \<noteq> Equal"
  using stamps_identify_files [OF sample_deleted_reachable, of "vault_file 1 10 False [7]"
      "vault_file 1 20 True [7]"] sample_clock(2)
  by (simp add: sample_deleted_def sample_received_def sample_copied_def new_vault_def can_issue_def
      vault_file_def)

text \<open>C9: nothing is lost. In every reachable vault, a device that has processed the file of a record
  whose content no device ever deleted shows that content, be it under this record or under another
  one with the same content, and whatever else it received before or since.\<close>

theorem undeleted_content_is_shown:
  assumes "reachable v" "h \<in> published v" "\<not> deleted h"
    and "known (dev_view (dev v d)) (record_id h) \<noteq> None"
    and "\<forall>t \<in> published v. deleted t \<longrightarrow> sync_hash t \<noteq> sync_hash h"
  shows "sync_hash h \<in> live_content (dev_view (dev v d))"
proof -
  have "live_file (published v) (record_id h) (sync_hash h)" using assms(2,3) by (auto simp: live_file_def)
  moreover have "\<not> dead_file (published v) j (sync_hash h)" for j using assms(5) by (auto simp: dead_file_def)
  ultimately show ?thesis using reachable_backed(2) [OF assms(1)] assms(4) by (simp add: displayed_def)
qed

theorem undeleted_content_is_shown_witness: "[7] \<in> live_content (dev_view (dev sample_received 2))"
proof -
  have "published sample_received = {vault_file 1 10 False [7]}"
    by (simp add: sample_received_def sample_copied_def new_vault_def)
  moreover have "known (dev_view (dev sample_received 2)) 1 \<noteq> None"
    by (simp add: sample_received_def)
  ultimately show ?thesis
    using undeleted_content_is_shown [OF sample_received_reachable, of "vault_file 1 10 False [7]" 2]
    by simp
qed

text \<open>C21: nothing comes from nowhere. In every reachable vault, whatever a device shows is the content
  of a published record that it does not hold for deleted, and whatever it holds for deleted was
  deleted by some device.\<close>

theorem tables_are_backed:
  assumes "reachable v"
  shows "(\<forall>(i, s) \<in> rows (dev_view (dev v d)). known (dev_view (dev v d)) i = Some False \<and>
      (\<exists>h \<in> published v. \<not> deleted h \<and> record_id h = i \<and> sync_hash h = s)) \<and>
    (\<forall>i. known (dev_view (dev v d)) i = Some True \<longrightarrow> (\<exists>t \<in> published v. deleted t \<and> record_id t = i))"
  using reachable_backed(1) [OF assms, of d]
  by (auto simp: backed_def well_formed_def live_file_def dead_file_def)

theorem tables_are_backed_witness:
  "\<exists>t \<in> published sample_deleted. deleted t \<and> record_id t = 1"
proof -
  have "known (dev_view (dev sample_deleted 1)) 1 = Some True"
    by (simp add: sample_deleted_def mark_deleted_def)
  then show ?thesis using tables_are_backed [OF sample_deleted_reachable, of 1] by blast
qed

text \<open>C22: a device can always catch up. From every reachable vault a finite number of receptions,
  which publish nothing and touch no other device, leads to a state in which the device knows every
  published file and holds exactly the records that have a tombstone for deleted.\<close>

theorem device_catches_up:
  assumes "reachable v"
  shows "\<exists>v'. rtranclp vault_step v v' \<and> published v' = published v \<and>
    (\<forall>e. e \<noteq> d \<longrightarrow> dev v' e = dev v e) \<and>
    (\<forall>h \<in> published v. known (dev_view (dev v' d)) (record_id h) =
       Some (\<exists>t \<in> published v. deleted t \<and> record_id t = record_id h))"
  by (rule caught_up [OF assms])

theorem device_catches_up_witness:
  "\<exists>v'. rtranclp vault_step sample_deleted v' \<and> known (dev_view (dev v' 2)) 1 = Some True"
proof -
  have t: "vault_file 1 20 True [7] \<in> published sample_deleted" by (simp add: sample_deleted_def)
  from device_catches_up [OF sample_deleted_reachable, of 2] obtain v' where
    v': "rtranclp vault_step sample_deleted v'"
    "\<forall>h \<in> published sample_deleted. known (dev_view (dev v' 2)) (record_id h) =
       Some (\<exists>t \<in> published sample_deleted. deleted t \<and> record_id t = record_id h)" by blast
  from v'(2) [rule_format, OF t] t have "known (dev_view (dev v' 2)) 1 = Some True" by force
  with v'(1) show ?thesis by blast
qed

section \<open>The clock\<close>

text \<open>C12: the stamps a device issues are strictly increasing. For every sequence of clock events
  (issuing and receiving, with arbitrary foreign stamps and a wall clock that may go backwards),
  each stamp issued is greater than all issued before it, as long as the wall clock stays a day and
  the number of events away from the end of the \<open>i64\<close> range.\<close>

theorem issued_stamps_ascend:
  assumes "\<forall>e \<in> set es. sint (event_time e) \<le> T" "T + 86400000 + int (length es) < i64_max"
  shows "sorted_wrt (\<lambda>a b. hlc_compare a b = Less) (issued nd None es)"
  by (rule sorted_wrt_mono_rel [OF _ issued_sorted [OF assms]]) (rule stamp_less_compare)

definition sample_events :: "clock_event list" where
  "sample_events = [Issue 5, Issue 3, Absorb (stamp 9) 4, Issue 4]"

theorem issued_stamps_ascend_witness:
  "sorted_wrt (\<lambda>a b. hlc_compare a b = Less) (issued 1 None sample_events)"
  by (rule issued_stamps_ascend [where T = 5]) (simp_all add: sample_events_def i64_max_def)

text \<open>C30: causality. Every stamp issued after a foreign stamp was received is greater than the
  foreign one, provided that one was at most a day ahead of the wall clock \<open>t\<close> at which it was
  received, and that the clock is clear of the end of the \<open>i64\<close> range: there is a bound \<open>T\<close> on \<open>t\<close> and
  on the wall clocks of all later events such that \<open>T\<close> plus a day, and the wall time of the local
  clock before the reception, stay below the end of the range by more than the number of events, the reception included.\<close>

theorem issued_after_received_greater:
  assumes "sint (wall_millis r) \<le> clamp_i64 (sint t + 86400000)"
    and "\<forall>e \<in> set es. sint (event_time e) \<le> T" "sint t \<le> T" "clock_fits T (Suc (length es)) s"
    and "h \<in> set (issued nd (Some (hlc_receive s r t nd)) es)"
  shows "hlc_compare r h = Less"
  by (rule stamp_less_compare) (rule issued_after_received [OF assms])

theorem issued_after_received_greater_witness:
  "hlc_compare (stamp 9) (hlc_next (Some (hlc_receive None (stamp 9) 4 1)) 4 1) = Less"
  by (rule issued_after_received_greater [where t = 4 and s = None and T = 4 and es = "[Issue 4]" and nd = 1])
    (simp_all add: stamp_def clamp_i64_def clock_fits_def i64_max_def i64_min_def Let_def)

text \<open>Comparing stamps is a total order: reflexive, antisymmetric up to equality, transitive,
  and two stamps that compare equal are the same stamp.\<close>

theorem stamps_totally_ordered:
  "hlc_compare a a = Equal \<and> hlc_compare b a = reverse_cmp (hlc_compare a b) \<and>
   (hlc_compare a b = Equal \<longleftrightarrow> a = b) \<and>
   (hlc_compare a b = Less \<longrightarrow> hlc_compare b c = Less \<longrightarrow> hlc_compare a c = Less)"
proof (intro conjI)
  show "hlc_compare b a = reverse_cmp (hlc_compare a b)" by (rule hlc_order.swap)
  show "hlc_compare a b = Equal \<longleftrightarrow> a = b" using hlc_order.refl hlc_order.antisym by blast
  show "hlc_compare a b = Less \<longrightarrow> hlc_compare b c = Less \<longrightarrow> hlc_compare a c = Less"
    using hlc_order.Less_trans [of a b c] by simp
qed (rule hlc_order.refl)

theorem stamps_totally_ordered_witness:
  "hlc_compare (stamp 1) (stamp 3) = Less"
  using stamps_totally_ordered [of "stamp 1" "stamp 2" "stamp 3"]
  by (simp add: stamp_def hlc_compare_def cmp_def)

text \<open>A stamp issued after \<open>prev\<close> is greater than \<open>prev\<close> even if the wall clock went
  backwards, is not behind the wall clock, and carries this device's node, unless \<open>prev\<close> is the
  very last stamp of the range.\<close>

theorem next_stamp_greater:
  assumes "has_room prev"
  shows "hlc_compare prev (hlc_next (Some prev) now nd) = Less \<and>
    sint now \<le> sint (wall_millis (hlc_next (Some prev) now nd)) \<and>
    node (hlc_next (Some prev) now nd) = nd"
  using stamp_less_compare [OF hlc_next_greater [OF assms]] hlc_next_wall by simp

theorem next_stamp_greater_witness:
  "hlc_compare \<lparr>wall_millis = 7, counter = u32_max, node = 1\<rparr>
     (hlc_next (Some \<lparr>wall_millis = 7, counter = u32_max, node = 1\<rparr>) 2 1) = Less"
  using next_stamp_greater [of "\<lparr>wall_millis = 7, counter = u32_max, node = 1\<rparr>" 2 1]
  by (simp add: has_room_def i64_max_def)

text \<open>C29: receiving moves the clock forward but bounds foreign skew. The new wall time is the
  largest of the local wall, the wall clock and the foreign wall capped at one day ahead; the
  clock never falls below its previous stamp, and rises strictly unless the counter is saturated.\<close>

theorem receive_bounded_and_monotone:
  "sint (wall_millis (hlc_receive (Some l) remote now nd)) =
     max (max (sint (wall_millis l)) (min (sint (wall_millis remote)) (clamp_i64 (sint now + 86400000))))
       (sint now) \<and>
   hlc_compare l ((hlc_receive (Some l) remote now nd)\<lparr>node := node l\<rparr>) \<noteq> Greater \<and>
   (counter l \<noteq> u32_max \<longrightarrow> hlc_compare l (hlc_receive (Some l) remote now nd) = Less)"
proof (intro conjI impI)
  show "hlc_compare l ((hlc_receive (Some l) remote now nd)\<lparr>node := node l\<rparr>) \<noteq> Greater"
    using hlc_receive_after_local(1) [of l remote now nd]
    by (auto simp: stamp_le_def stamp_less_def hlc_compare_def uuid_cmp.refl)
  show "hlc_compare l (hlc_receive (Some l) remote now nd) = Less" if "counter l \<noteq> u32_max"
    by (rule stamp_less_compare) (rule hlc_receive_after_local(2) [OF that])
qed (simp add: hlc_receive_wall_Some clamped_wall_def)

theorem receive_bounded_and_monotone_witness:
  "hlc_compare (stamp 8) (hlc_receive (Some (stamp 8)) (stamp 9) 4 1) = Less"
  using receive_bounded_and_monotone [of "stamp 8" "stamp 9" 4 1]
  by (simp add: stamp_def u32_eq_max_iff)

section \<open>Collecting tombstones\<close>

text \<open>C13: in a debug build \<open>gc_eligible\<close> never gives a wrong answer: what it returns is the
  specification over unbounded integers (older than the retention period, and every device that is
  not stale has been seen since the tombstone was written). In either build profile it returns that
  answer whenever the times in milliseconds fit into an \<open>i64\<close>.\<close>

theorem gc_matches_specification:
  "(gc_eligible Debug tomb devices now_secs = Some b \<longrightarrow> b = gc_spec tomb (sint now_secs) devices) \<and>
   (millis_in_range now_secs \<longrightarrow> (\<forall>d \<in> set devices. millis_in_range (last_seen_secs d)) \<longrightarrow>
      gc_eligible prof tomb devices now_secs = Some (gc_spec tomb (sint now_secs) devices))"
  using gc_eligible_Debug gc_eligible_exact by blast

theorem gc_matches_specification_witness:
  "gc_eligible Release (stamp 5) [\<lparr>last_seen_secs = 4000000\<rparr>] 4000000 =
     Some (gc_spec (stamp 5) 4000000 [\<lparr>last_seen_secs = 4000000\<rparr>])"
  using gc_matches_specification [of "stamp 5" "[\<lparr>last_seen_secs = 4000000\<rparr>]" 4000000 True Release]
  by (simp add: millis_in_range_def i64_min_def i64_max_def)

text \<open>C32: no device ever holds a collection back. The documentation of \<open>gc_eligible\<close> asks for two
  things: that the tombstone is older than the retention period, and that every device that is not
  stale was seen after it was written. The second never refuses anything the first allows, because a
  device that is not stale was seen within the staleness period, which is shorter: whatever a debug
  build returns for a device list it also returns for no devices, and where the times fit into an
  \<open>i64\<close> in milliseconds either build answers by the age of the tombstone alone, whoever is listed.\<close>

theorem devices_never_block:
  "(gc_eligible Debug tomb devices now_secs = Some b \<longrightarrow> gc_eligible Debug tomb [] now_secs = Some b) \<and>
   (millis_in_range now_secs \<longrightarrow> (\<forall>d \<in> set devices. millis_in_range (last_seen_secs d)) \<longrightarrow>
      gc_eligible prof tomb devices now_secs =
        Some (sint now_secs * 1000 - sint (wall_millis tomb) > TOMBSTONE_RETENTION_SECS * 1000))"
proof (intro conjI impI)
  assume d: "gc_eligible Debug tomb devices now_secs = Some b"
  then have "millis_in_range now_secs" by (auto simp: gc_eligible_def i64_mul_Debug_iff split: option.splits)
  then show "gc_eligible Debug tomb [] now_secs = Some b"
    using gc_eligible_exact [of now_secs "[]" Debug tomb] gc_eligible_Debug [OF d] by (simp add: gc_spec_age)
qed (simp add: gc_eligible_exact gc_spec_age)

theorem devices_never_block_witness:
  "gc_eligible Release (stamp 5) [\<lparr>last_seen_secs = 4000000\<rparr>, \<lparr>last_seen_secs = 0\<rparr>] 4000000 = Some True"
  using devices_never_block [of "stamp 5" "[\<lparr>last_seen_secs = 4000000\<rparr>, \<lparr>last_seen_secs = 0\<rparr>]" 4000000 True Release]
  by (simp add: millis_in_range_def i64_min_def i64_max_def stamp_def TOMBSTONE_RETENTION_SECS_def)

text \<open>No tombstone is collected behind a fresh device's back. If \<open>gc_eligible\<close> lets a tombstone go
  while a device is on the list, and \<open>rejoin_action\<close> tells that device, at the same \<open>last_seen\<close> and not
  before the collection by the two clocks, to publish its record again, then that \<open>last_seen\<close> is not
  earlier than the tombstone's stamp. This holds in a debug build always, and in either build profile
  when the time of the collection and the \<open>last_seen\<close> of all devices fit into an \<open>i64\<close> in milliseconds.\<close>

theorem repush_is_safe:
  assumes "gc_eligible prof tomb devices gc_secs = Some True"
    and "prof = Debug \<or> millis_in_range gc_secs \<and> (\<forall>d \<in> set devices. millis_in_range (last_seen_secs d))"
    and "d \<in> set devices" "rejoin_action (last_seen_secs d) now_secs = Repush" "sint gc_secs \<le> sint now_secs"
  shows "sint (wall_millis tomb) \<le> sint (last_seen_secs d) * 1000"
  using assms by (rule repush_after_gc)

theorem repush_is_safe_witness:
  "sint (wall_millis (stamp 5)) \<le> sint (last_seen_secs \<lparr>last_seen_secs = 4000000\<rparr>) * 1000"
proof (rule repush_is_safe)
  show "gc_eligible Release (stamp 5) [\<lparr>last_seen_secs = 4000000\<rparr>] 4000000 = Some True" by code_simp
  show "rejoin_action (last_seen_secs \<lparr>last_seen_secs = 4000000\<rparr>) 4000001 = Repush" by code_simp
qed (simp_all add: millis_in_range_def i64_min_def i64_max_def)

section \<open>Where the code falls short\<close>

text \<open>The clock is not monotonic at the end of its range. From the last representable stamp
  \<open>hlc_next\<close> cannot roll the wall forward, resets the counter and issues a smaller stamp.\<close>

theorem last_stamp_falls_back:
  assumes "sint (wall_millis prev) = i64_max" "counter prev = u32_max"
  shows "hlc_next (Some prev) now nd = prev\<lparr>counter := 0, node := nd\<rparr> \<and>
    hlc_compare (hlc_next (Some prev) now nd) prev = Less"
proof -
  have "\<not> has_room prev" using assms by (simp add: has_room_def)
  then have "hlc_next (Some prev) now nd = prev\<lparr>counter := 0, node := nd\<rparr>" by (rule hlc_next_stuck)
  with assms(2) show ?thesis by (simp add: hlc_compare_def word_less_nat_alt)
qed

theorem last_stamp_falls_back_witness:
  "hlc_compare (hlc_next (Some \<lparr>wall_millis = i64_of i64_max, counter = u32_max, node = 1\<rparr>) 0 1)
     \<lparr>wall_millis = i64_of i64_max, counter = u32_max, node = 1\<rparr> = Less"
  by (rule last_stamp_falls_back [THEN conjunct2]) (simp_all add: sint_i64_of i64_min_def i64_max_def)

text \<open>C39: one device file with a \<open>last_seen\<close> too far in the future breaks collection. Take any
  present time that fits into an \<open>i64\<close> in milliseconds, and any tombstone and device list for which
  the specification allows collection. As soon as one listed device has a \<open>last_seen\<close> whose product
  with 1000 exceeds the \<open>i64\<close> range, a debug build panics on that product; and if the product is below
  \<open>2 ^ 64\<close> and the tombstone's time is not negative, a release build wraps to a negative time and
  refuses the tombstone.\<close>

theorem future_device_breaks_gc:
  assumes "millis_in_range now_secs" "gc_spec tomb (sint now_secs) devices"
    and "d \<in> set devices" "i64_max < sint (last_seen_secs d) * 1000"
  shows "gc_eligible Debug tomb devices now_secs = None \<and>
    (sint (last_seen_secs d) * 1000 < 2 ^ 64 \<longrightarrow> 0 \<le> sint (wall_millis tomb) \<longrightarrow>
       gc_eligible Release tomb devices now_secs = Some False)"
  using future_device_unanswered [OF assms] by blast

theorem future_device_breaks_gc_witness:
  "gc_eligible Debug (stamp 5) [\<lparr>last_seen_secs = 9223372036854776\<rparr>] 4000000 = None \<and>
   gc_eligible Release (stamp 5) [\<lparr>last_seen_secs = 9223372036854776\<rparr>] 4000000 = Some False"
proof -
  have "gc_spec (stamp 5) (sint (4000000 :: i64)) [\<lparr>last_seen_secs = 9223372036854776\<rparr>]"
    by (simp add: gc_spec_def acked_spec_def stamp_def TOMBSTONE_RETENTION_SECS_def)
  from future_device_breaks_gc [OF _ this, of "\<lparr>last_seen_secs = 9223372036854776\<rparr>"] show ?thesis
    by (simp add: millis_in_range_def i64_min_def i64_max_def stamp_def)
qed

end
