(* ===== verification/Sync_Lifecycle.thy ===== *)
theory Sync_Lifecycle
  imports Sync_Clock Sync_Gc Sync_Replay
begin

text \<open>
  The life of a vault folder: any number of devices that join, copy, delete, pull, rejoin, collect
  old tombstones and leave. \<open>hlc_next\<close>, \<open>hlc_receive\<close>, \<open>merge_decide\<close>, \<open>gc_eligible\<close> and
  \<open>rejoin_action\<close> are the code's; the shell and the sync provider that call them are not part of the
  repository, so the steps allow all that the documentation in \<open>sync/mod.rs\<close> does not rule out.
  What it does say is: a record is immutable once published, \<open>records/\<close> and \<open>tombs/\<close> hold one file
  per id, a session pulls the tombstones first and applies \<open>rejoin_action\<close> to the records it holds for
  live that are absent from both listings, and a device file carries the time of its last session.
  Beyond that
  \<^item> a listing may show any part of the files, late or never;
  \<^item> a record file may vanish at any time (lost by the provider or removed by the shell after a
    deletion) and come back at any time, with any content;
  \<^item> \<open>Repush\<close> may write back any of the absent records, \<open>DeleteLocally\<close> writes nothing;
  \<^item> a tombstone may be lost, and a collector may know any part of the device files;
  \<^item> every device reads its own wall clock, which may be off by up to \<open>drift\<close> milliseconds in either
    direction and differently at every reading.
  Where the environment did what no decision of the core can make good, the id is marked as
  \<open>spoiled\<close>: its tombstone was lost, a session missed its tombstone, or its record file outlived its
  tombstone.
\<close>

section \<open>Folder and devices\<close>

text \<open>\<open>mb_synced\<close>, \<open>fd_time\<close>, \<open>used\<close>, \<open>buried\<close> and \<open>spoiled\<close> are history: true times, all ids ever
  used, all ids ever deleted, and the ids the environment spoiled. No operation reads them.\<close>

record member =
  mb_view :: replica
  mb_clock :: "hlc option"
  mb_seen :: i64
  mb_synced :: int

record folder =
  fd_time :: int
  recs :: "uuid \<Rightarrow> record_header option"
  tombs :: "uuid \<Rightarrow> record_header option"
  members :: "uuid \<Rightarrow> member option"
  used :: "uuid set"
  buried :: "uuid set"
  spoiled :: "uuid set"

definition new_folder :: folder where
  "new_folder = \<lparr>fd_time = 0, recs = Map.empty, tombs = Map.empty, members = Map.empty,
     used = {}, buried = {}, spoiled = {}\<rparr>"

text \<open>A reading of a wall clock at true time \<open>t\<close>, and the same in seconds.\<close>

definition reads :: "int \<Rightarrow> int \<Rightarrow> i64 \<Rightarrow> bool" where
  "reads drift t c \<longleftrightarrow> 0 \<le> sint c \<and> \<bar>sint c - t\<bar> \<le> drift"

definition in_secs :: "i64 \<Rightarrow> i64" where
  "in_secs c = i64_of (sint c div 1000)"

definition presences :: "folder \<Rightarrow> device_presence set" where
  "presences w = (\<lambda>m. \<lparr>last_seen_secs = mb_seen m\<rparr>) ` ran (members w)"

text \<open>A device without a device file starts from empty tables.\<close>

definition newcomer :: "i64 \<Rightarrow> int \<Rightarrow> member" where
  "newcomer c t = \<lparr>mb_view = empty_replica, mb_clock = None, mb_seen = in_secs c, mb_synced = t\<rparr>"

definition member_at :: "folder \<Rightarrow> uuid \<Rightarrow> i64 \<Rightarrow> member" where
  "member_at w d c = (case members w d of Some m \<Rightarrow> m | None \<Rightarrow> newcomer c (fd_time w))"

text \<open>The clock after all stamps of a listing were received.\<close>

definition absorb_all :: "uuid \<Rightarrow> i64 \<Rightarrow> record_header list \<Rightarrow> hlc option \<Rightarrow> hlc option" where
  "absorb_all d c hs s = fold (\<lambda>h s. Some (hlc_receive s (hdr_hlc h) c d)) hs s"

text \<open>The records a device holds for live that are absent from the listings it saw, what rejoining
  does to its tables, what it may write back, and the tombstones the session missed.\<close>

definition absent :: "record_header list \<Rightarrow> replica \<Rightarrow> uuid set" where
  "absent hs r = {i. known r i = Some False \<and> i \<notin> record_id ` set hs}"

fun rejoin_view :: "rejoin_action \<Rightarrow> uuid set \<Rightarrow> replica \<Rightarrow> replica" where
  "rejoin_view DeleteLocally A r = r\<lparr>known := (\<lambda>i. if i \<in> A then Some True else known r i),
     rows := {x \<in> rows r. fst x \<notin> A}\<rparr>"
| "rejoin_view Repush A r = r"

fun may_write :: "rejoin_action \<Rightarrow> uuid set \<Rightarrow> (uuid \<Rightarrow> record_header option) \<Rightarrow> bool" where
  "may_write DeleteLocally A R \<longleftrightarrow> R = Map.empty"
| "may_write Repush A R \<longleftrightarrow> (\<forall>i h. R i = Some h \<longrightarrow> i \<in> A \<and> \<not> deleted h \<and> record_id h = i)"

definition missed :: "folder \<Rightarrow> replica \<Rightarrow> uuid set" where
  "missed w r = {i. tombs w i \<noteq> None \<and> known r i \<noteq> Some True}"

section \<open>Steps\<close>

definition set_member :: "uuid \<Rightarrow> member \<Rightarrow> int \<Rightarrow> folder \<Rightarrow> folder" where
  "set_member d m t w = w\<lparr>fd_time := t, members := (members w)(d \<mapsto> m)\<rparr>"

text \<open>A session of a device: pull, rejoin, write the device file. The first session of a device is how
  it joins.\<close>

inductive session :: "int \<Rightarrow> uuid \<Rightarrow> i64 \<Rightarrow> folder \<Rightarrow> folder \<Rightarrow> bool" for drift d c w where
  session: "fd_time w \<le> t \<Longrightarrow> reads drift t c \<Longrightarrow> m = member_at w d c \<Longrightarrow>
    set ts \<subseteq> ran (tombs w) \<Longrightarrow> set ls \<subseteq> ran (recs w) \<Longrightarrow> pulls merge_decide (ts @ ls) (mb_view m) r \<Longrightarrow>
    a = rejoin_action (mb_seen m) (in_secs c) \<Longrightarrow> may_write a (absent (ts @ ls) r) R \<Longrightarrow>
    session drift d c w ((set_member d
      \<lparr>mb_view = rejoin_view a (absent (ts @ ls) r) r, mb_clock = absorb_all d c (ts @ ls) (mb_clock m),
       mb_seen = in_secs c, mb_synced = t\<rparr> t w)\<lparr>recs := recs w ++ R, spoiled := spoiled w \<union> missed w r\<rparr>)"

inductive folder_step :: "int \<Rightarrow> build_profile \<Rightarrow> folder \<Rightarrow> folder \<Rightarrow> bool" for drift prof where
  sync: "session drift d c w w' \<Longrightarrow> folder_step drift prof w w'"
| copy: "fd_time w \<le> t \<Longrightarrow> reads drift t c \<Longrightarrow> members w d = Some m \<Longrightarrow>
    \<not> deleted h \<Longrightarrow> hdr_hlc h = hlc_next (mb_clock m) c d \<Longrightarrow> record_id h \<notin> used w \<Longrightarrow>
    sync_hash h \<notin> live_content (mb_view m) \<Longrightarrow>
    folder_step drift prof w ((set_member d
      (m\<lparr>mb_view := effect ApplyRemote h (mb_view m), mb_clock := Some (hdr_hlc h)\<rparr>) t w)
      \<lparr>recs := (recs w)(record_id h \<mapsto> h), used := insert (record_id h) (used w)\<rparr>)"
| remove: "fd_time w \<le> t \<Longrightarrow> reads drift t c \<Longrightarrow> members w d = Some m \<Longrightarrow>
    deleted h \<Longrightarrow> hdr_hlc h = hlc_next (mb_clock m) c d \<Longrightarrow>
    (record_id h, sync_hash h) \<in> rows (mb_view m) \<Longrightarrow>
    folder_step drift prof w ((set_member d
      (m\<lparr>mb_view := effect ApplyTombstone h (mb_view m), mb_clock := Some (hdr_hlc h)\<rparr>) t w)
      \<lparr>tombs := (tombs w)(record_id h \<mapsto> h), buried := insert (record_id h) (buried w)\<rparr>)"
| receive: "fd_time w \<le> t \<Longrightarrow> reads drift t c \<Longrightarrow> members w d = Some m \<Longrightarrow>
    h \<in> ran (recs w) \<union> ran (tombs w) \<Longrightarrow> takes merge_decide h (mb_view m) r \<Longrightarrow>
    folder_step drift prof w (set_member d
      (m\<lparr>mb_view := r, mb_clock := Some (hlc_receive (mb_clock m) (hdr_hlc h) c d)\<rparr>) t w)"
| collect: "fd_time w \<le> t \<Longrightarrow> reads drift t c \<Longrightarrow> tombs w i = Some h \<Longrightarrow> set ds \<subseteq> presences w \<Longrightarrow>
    gc_eligible prof (hdr_hlc h) ds (in_secs c) = Some True \<Longrightarrow>
    folder_step drift prof w (w\<lparr>fd_time := t, tombs := (tombs w)(i := None),
      spoiled := spoiled w \<union> {j. j = i \<and> recs w i \<noteq> None}\<rparr>)"
| leave: "fd_time w \<le> t \<Longrightarrow> folder_step drift prof w (w\<lparr>fd_time := t, members := (members w)(d := None)\<rparr>)"
| vanish: "fd_time w \<le> t \<Longrightarrow> folder_step drift prof w (w\<lparr>fd_time := t, recs := (recs w)(i := None)\<rparr>)"
| reappear: "fd_time w \<le> t \<Longrightarrow> \<not> deleted h \<Longrightarrow> record_id h \<in> used w \<Longrightarrow>
    folder_step drift prof w (w\<lparr>fd_time := t, recs := (recs w)(record_id h \<mapsto> h),
      spoiled := spoiled w \<union> {i. i = record_id h \<and> i \<in> buried w \<and> tombs w i = None}\<rparr>)"
| lose_tomb: "fd_time w \<le> t \<Longrightarrow> folder_step drift prof w
    (w\<lparr>fd_time := t, tombs := (tombs w)(i := None), spoiled := insert i (spoiled w)\<rparr>)"

inductive arises :: "int \<Rightarrow> build_profile \<Rightarrow> folder \<Rightarrow> bool" for drift prof where
  arise_new: "arises drift prof new_folder"
| arise_step: "arises drift prof w \<Longrightarrow> folder_step drift prof w w' \<Longrightarrow> arises drift prof w'"

lemma set_member_simps [simp]:
  "fd_time (set_member d m t w) = t" "recs (set_member d m t w) = recs w"
  "tombs (set_member d m t w) = tombs w" "members (set_member d m t w) = (members w)(d \<mapsto> m)"
  "used (set_member d m t w) = used w" "buried (set_member d m t w) = buried w"
  "spoiled (set_member d m t w) = spoiled w"
  by (simp_all add: set_member_def)

section \<open>Clock readings\<close>

lemma sint_in_secs:
  assumes "0 \<le> sint c"
  shows "sint (in_secs c) = sint c div 1000"
proof -
  have "sint c \<le> i64_max" by (rule sint_i64_bounds)
  with assms show ?thesis unfolding in_secs_def by (intro sint_i64_of) (auto simp: i64_min_def i64_max_def)
qed

lemma in_secs_bounds:
  assumes "reads drift t c"
  shows "sint (in_secs c) * 1000 \<le> t + drift" "t - drift - 1000 < sint (in_secs c) * 1000"
    "millis_in_range (in_secs c)"
proof -
  have c: "0 \<le> sint c" "sint c \<le> t + drift" "t - drift \<le> sint c" using assms by (auto simp: reads_def)
  have s: "sint (in_secs c) * 1000 \<le> sint c" "sint c < sint (in_secs c) * 1000 + 1000"
    unfolding sint_in_secs [OF c(1)] by presburger+
  show "sint (in_secs c) * 1000 \<le> t + drift" "t - drift - 1000 < sint (in_secs c) * 1000"
    using s c by simp_all
  have "sint c \<le> i64_max" by (rule sint_i64_bounds)
  moreover have "0 \<le> sint (in_secs c)" unfolding sint_in_secs [OF c(1)] using c(1) by simp
  ultimately show "millis_in_range (in_secs c)"
    using s by (simp add: millis_in_range_def i64_min_def)
qed

lemma next_wall: "reads drift t c \<Longrightarrow> t - drift \<le> sint (wall_millis (hlc_next p c d))"
  using hlc_next_wall [of c p d] by (auto simp: reads_def)

text \<open>What a collector knows in either build profile: the retention period is over.\<close>

lemma collected_age:
  assumes "gc_eligible prof tomb ds s = Some True" "millis_in_range s"
  shows "TOMBSTONE_RETENTION_SECS * 1000 < sint s * 1000 - sint (wall_millis tomb)"
proof -
  obtain ms where ms: "i64_mul prof s 1000 = Some ms" "sint ms = sint s * 1000"
    using assms(2) by (rule i64_mul_in_range)
  with assms(1) show ?thesis
    by (auto simp: gc_eligible_def Let_def sint_i64_saturating_sub retention_clamp not_le [symmetric]
        split: if_splits)
qed

section \<open>Times\<close>

text \<open>What the device files say, whatever the clocks are: the last session is not later than the
  present, and its record is off by the error of the clock and the second it is rounded to.\<close>

definition timed :: "int \<Rightarrow> folder \<Rightarrow> member \<Rightarrow> bool" where
  "timed drift w m \<longleftrightarrow> mb_synced m \<le> fd_time w \<and> sint (mb_seen m) * 1000 \<le> mb_synced m + drift \<and>
     mb_synced m - drift - 1000 < sint (mb_seen m) * 1000 \<and> millis_in_range (mb_seen m)"

lemma timed_later:
  "timed drift w m \<Longrightarrow> fd_time w \<le> fd_time w' \<Longrightarrow> mb_seen m' = mb_seen m \<Longrightarrow> mb_synced m' = mb_synced m \<Longrightarrow>
   timed drift w' m'"
  by (simp add: timed_def)

lemma timed_session:
  "reads drift t c \<Longrightarrow> mb_synced m = t \<Longrightarrow> mb_seen m = in_secs c \<Longrightarrow> t \<le> fd_time w \<Longrightarrow> timed drift w m"
  using in_secs_bounds [of drift t c] by (simp add: timed_def)

definition all_timed :: "int \<Rightarrow> folder \<Rightarrow> bool" where
  "all_timed drift w \<longleftrightarrow> (\<forall>d m. members w d = Some m \<longrightarrow> timed drift w m)"

lemma all_timedI:
  assumes "all_timed drift w" "fd_time w \<le> fd_time w'"
    and "\<And>d m. members w' d = Some m \<Longrightarrow> timed drift w' m \<or>
      (\<exists>n. members w d = Some n \<and> mb_seen m = mb_seen n \<and> mb_synced m = mb_synced n)"
  shows "all_timed drift w'"
  using assms timed_later unfolding all_timed_def by metis

lemma timed_step:
  assumes "folder_step drift prof w w'" "all_timed drift w"
  shows "all_timed drift w'"
  using assms(1)
proof cases
  case (sync d c)
  then show ?thesis
  proof cases
    case (session t m ts ls r a R)
    show ?thesis
      by (rule all_timedI [OF assms(2)])
        (use timed_session [OF session(3)] session(2) in \<open>auto simp: session(1) split: if_splits\<close>)
  qed
qed (rule all_timedI [OF assms(2)]; auto split: if_splits)+

lemma arises_timed: "arises drift prof w \<Longrightarrow> all_timed drift w"
proof (induction rule: arises.induct)
  case (arise_step w w')
  then show ?case using timed_step by blast
qed (simp add: new_folder_def all_timed_def)

text \<open>Hence the rejoin decision is right but for twice the error of the clocks and a second.\<close>

lemma recent_is_fresh:
  assumes "timed drift w m" "reads drift t c" "t - mb_synced m + 2 * drift + 1000 \<le> STALE_DEVICE_SECS * 1000"
  shows "rejoin_action (mb_seen m) (in_secs c) = Repush"
  using assms(1,3) in_secs_bounds(1) [OF assms(2)]
  by (simp add: repush_fresh device_is_stale_iff timed_def)

lemma long_ago_is_stale:
  assumes "timed drift w m" "reads drift t c" "STALE_DEVICE_SECS * 1000 + 2 * drift + 1000 \<le> t - mb_synced m"
  shows "rejoin_action (mb_seen m) (in_secs c) = DeleteLocally"
  using assms(1,3) in_secs_bounds(2) [OF assms(2)]
  by (simp add: rejoin_action_def device_is_stale_iff timed_def)

text \<open>No tombstone stays for ever: once it is old enough for every clock, no device holds it back.\<close>

definition collect_wait :: "int \<Rightarrow> int" where
  "collect_wait drift = TOMBSTONE_RETENTION_SECS * 1000 + drift + 1000"

lemma collectable:
  assumes "all_timed drift w" "reads drift t c" "set ds \<subseteq> presences w"
    and "sint (wall_millis tomb) + collect_wait drift \<le> t"
  shows "gc_eligible prof tomb ds (in_secs c) = Some True"
proof -
  have "millis_in_range (last_seen_secs p)" if "p \<in> set ds" for p
    using that assms(1,3) by (fastforce simp: presences_def ran_def all_timed_def timed_def)
  then have "gc_eligible prof tomb ds (in_secs c) = Some (gc_spec tomb (sint (in_secs c)) ds)"
    by (intro gc_eligible_exact in_secs_bounds(3) [OF assms(2)]) blast
  moreover have "gc_spec tomb (sint (in_secs c)) ds"
    using assms(4) in_secs_bounds(2) [OF assms(2)] by (simp add: gc_spec_age collect_wait_def)
  ultimately show ?thesis by simp
qed

section \<open>What a pull does to one record\<close>

lemma take_other:
  assumes "takes decide h r r'" "i \<noteq> record_id h"
  shows "known r' i = known r i"
  using assms by (auto elim!: takesE simp: known_effect)

lemma pulls_other:
  "pulls decide hs r r' \<Longrightarrow> i \<notin> record_id ` set hs \<Longrightarrow> known r' i = known r i"
  by (induction rule: pulls.induct) (auto simp: take_other)

section \<open>The invariant\<close>

definition retention_ms :: int where "retention_ms = TOMBSTONE_RETENTION_SECS * 1000"

text \<open>
  What a device knows about a deleted id: if the tombstone lies in the folder, the device holds the
  record for deleted or the tombstone is stamped not earlier than its last session (but for the error
  of the clock that stamped it); if the tombstone was collected and the device still holds the record
  for live, then its last session is long past.
\<close>

definition up_to_date :: "int \<Rightarrow> folder \<Rightarrow> member \<Rightarrow> uuid \<Rightarrow> bool" where
  "up_to_date drift w m i \<longleftrightarrow> (case tombs w i of
     Some h \<Rightarrow> known (mb_view m) i = Some True \<or> mb_synced m - drift \<le> sint (wall_millis (hdr_hlc h))
   | None \<Rightarrow> known (mb_view m) i = Some False \<longrightarrow> mb_synced m + retention_ms - 2 * drift < fd_time w)"

definition view_ok :: "folder \<Rightarrow> replica \<Rightarrow> bool" where
  "view_ok w r \<longleftrightarrow> well_formed r \<and> (\<forall>i. known r i \<noteq> None \<longrightarrow> i \<in> used w)"

definition member_ok :: "int \<Rightarrow> folder \<Rightarrow> member \<Rightarrow> bool" where
  "member_ok drift w m \<longleftrightarrow> view_ok w (mb_view m) \<and> mb_synced m \<le> fd_time w \<and>
     (\<forall>i \<in> buried w - spoiled w. up_to_date drift w m i)"

definition listings_ok :: "folder \<Rightarrow> bool" where
  "listings_ok w \<longleftrightarrow>
     (\<forall>i h. recs w i = Some h \<longrightarrow> \<not> deleted h \<and> record_id h = i \<and> i \<in> used w \<and>
        (i \<in> buried w - spoiled w \<longrightarrow> tombs w i \<noteq> None)) \<and>
     (\<forall>i h. tombs w i = Some h \<longrightarrow> deleted h \<and> record_id h = i \<and> i \<in> buried w) \<and>
     buried w \<subseteq> used w"

definition folder_ok :: "int \<Rightarrow> folder \<Rightarrow> bool" where
  "folder_ok drift w \<longleftrightarrow> listings_ok w \<and> (\<forall>d m. members w d = Some m \<longrightarrow> member_ok drift w m)"

lemma collected_unlisted: "listings_ok w \<Longrightarrow> i \<in> buried w - spoiled w \<Longrightarrow> tombs w i = None \<Longrightarrow> recs w i = None"
  unfolding listings_ok_def by (cases "recs w i") (simp, metis)

text \<open>The clocks are good enough: twice the largest difference of two readings fits into the margin
  between the retention period and the staleness period.\<close>

definition margin_ok :: "int \<Rightarrow> bool" where
  "margin_ok drift \<longleftrightarrow> 4 * drift + 1000 \<le> (TOMBSTONE_RETENTION_SECS - STALE_DEVICE_SECS) * 1000"

text \<open>A device that holds a record for live whose tombstone was collected finds itself stale.\<close>

lemma overlooking_is_stale:
  assumes "margin_ok drift" "reads drift t c" "fd_time w \<le> t" "timed drift w m"
    and "up_to_date drift w m i" "tombs w i = None" "known (mb_view m) i = Some False"
  shows "rejoin_action (mb_seen m) (in_secs c) = DeleteLocally"
proof (rule long_ago_is_stale [OF assms(4,2)])
  have "mb_synced m + retention_ms - 2 * drift < t" using assms(3,5-7) by (simp add: up_to_date_def)
  then show "STALE_DEVICE_SECS * 1000 + 2 * drift + 1000 \<le> t - mb_synced m" using assms(1)
    by (simp add: margin_ok_def retention_ms_def TOMBSTONE_RETENTION_SECS_def STALE_DEVICE_SECS_def)
qed

text \<open>Nothing gets worse for a device while time passes, records come and go and new tombstones are
  written, nor when a tombstone is collected.\<close>

lemma up_to_date_later: "up_to_date drift w m i \<Longrightarrow> tombs w' i = tombs w i \<Longrightarrow> fd_time w \<le> fd_time w' \<Longrightarrow>
    mb_synced m' = mb_synced m \<Longrightarrow> known (mb_view m') i = known (mb_view m) i \<Longrightarrow> up_to_date drift w' m' i"
  by (auto simp: up_to_date_def split: option.splits)

lemma up_to_date_deleted: "known (mb_view m) i = Some True \<Longrightarrow> up_to_date drift w m i"
  by (simp add: up_to_date_def split: option.splits)

lemma up_to_date_collected:
  assumes "gc_eligible prof (hdr_hlc h) ds (in_secs c) = Some True" "reads drift t c"
    and "tombs w i = Some h" "up_to_date drift w m i" "tombs w' i = None" "t \<le> fd_time w'"
  shows "up_to_date drift w' m i"
proof (cases "known (mb_view m) i = Some False")
  case True
  then have "mb_synced m - drift \<le> sint (wall_millis (hdr_hlc h))" using assms(3,4) by (simp add: up_to_date_def)
  then show ?thesis
    using collected_age [OF assms(1) in_secs_bounds(3) [OF assms(2)]] in_secs_bounds(1) [OF assms(2)] assms(5,6)
    by (simp add: up_to_date_def retention_ms_def)
qed (simp add: up_to_date_def assms(5))

lemma view_used: "view_ok w r \<Longrightarrow> known r i = Some b \<Longrightarrow> i \<in> used w"
  by (simp add: view_ok_def)

lemma view_ok_later: "view_ok w r \<Longrightarrow> used w \<subseteq> used w' \<Longrightarrow> view_ok w' r"
  by (auto simp: view_ok_def)

text \<open>Steps of others.\<close>

lemma bystander_ok:
  assumes "member_ok drift w m" "fd_time w \<le> fd_time w'" "used w \<subseteq> used w'" "spoiled w \<subseteq> spoiled w'"
    and "\<And>i. i \<in> buried w' - spoiled w' \<Longrightarrow> (i \<in> buried w \<and> tombs w' i = tombs w i) \<or> up_to_date drift w' m i"
  shows "member_ok drift w' m"
proof -
  have "up_to_date drift w' m i" if "i \<in> buried w' - spoiled w'" for i
    using assms(5) [OF that]
  proof
    assume i: "i \<in> buried w \<and> tombs w' i = tombs w i"
    have "up_to_date drift w m i" using assms(1,4) i that by (auto simp: member_ok_def)
    then show ?thesis using i by (intro up_to_date_later [OF _ _ assms(2)]) simp_all
  qed
  with assms(1-3) show ?thesis by (auto simp: member_ok_def intro: view_ok_later)
qed

text \<open>Steps of the device itself that change one record of its tables.\<close>

lemma mover_ok:
  assumes "member_ok drift w m" "fd_time w \<le> fd_time w'" "mb_synced m' = mb_synced m" "spoiled w' = spoiled w"
    and "view_ok w' (mb_view m')"
    and "\<And>i. i \<noteq> j \<Longrightarrow> known (mb_view m') i = known (mb_view m) i \<and> tombs w' i = tombs w i"
    and "buried w' \<subseteq> insert j (buried w)"
    and "j \<in> buried w' - spoiled w' \<Longrightarrow> up_to_date drift w' m' j"
  shows "member_ok drift w' m'"
proof -
  have "up_to_date drift w' m' i" if i: "i \<in> buried w' - spoiled w'" for i
  proof (cases "i = j")
    case True
    with assms(8) i show ?thesis by simp
  next
    case False
    then have "up_to_date drift w m i" using assms(1,4,7) i by (auto simp: member_ok_def)
    then show ?thesis using assms(6) [OF False] by (intro up_to_date_later [OF _ _ assms(2,3)]) simp_all
  qed
  with assms(1-3,5) show ?thesis by (auto simp: member_ok_def)
qed

section \<open>Sessions\<close>

lemma rejoin_well_formed: "well_formed r \<Longrightarrow> well_formed (rejoin_view a A r)"
  by (cases a) (auto simp: well_formed_def intro: inj_on_subset)

lemma listed_ids:
  assumes "listings_ok w" "set ts \<subseteq> ran (tombs w)" "set ls \<subseteq> ran (recs w)" "i \<in> record_id ` set (ts @ ls)"
  shows "tombs w i \<noteq> None \<or> recs w i \<noteq> None" "i \<in> used w"
proof -
  obtain h where h: "i = record_id h" "h \<in> ran (tombs w) \<or> h \<in> ran (recs w)" using assms(2-4) by auto
  then obtain j where j: "tombs w j = Some h \<or> recs w j = Some h" by (auto simp: ran_def)
  with assms(1) h(1) have "j = i" by (auto simp: listings_ok_def)
  with j assms(1) show "tombs w i \<noteq> None \<or> recs w i \<noteq> None" "i \<in> used w" by (auto simp: listings_ok_def)
qed

text \<open>The tables a session ends with: no deleted record is live in them, unless the environment
  spoiled it.\<close>

lemma session_purges:
  assumes "listings_ok w" "set ts \<subseteq> ran (tombs w)" "set ls \<subseteq> ran (recs w)" "pulls merge_decide (ts @ ls) r0 r"
    and "\<And>i. i \<in> buried w - spoiled w \<Longrightarrow> tombs w i = None \<Longrightarrow> known r0 i = Some False \<Longrightarrow> a = DeleteLocally"
    and "i \<in> buried w - (spoiled w \<union> missed w r)"
  shows "known (rejoin_view a (absent (ts @ ls) r) r) i \<noteq> Some False"
proof (cases "tombs w i")
  case (Some h)
  then have "known r i = Some True" using assms(6) by (auto simp: missed_def)
  then show ?thesis by (cases a) (simp_all add: absent_def)
next
  case None
  then have "recs w i = None" using collected_unlisted [OF assms(1) _ None] assms(6) by simp
  then have gone: "i \<notin> record_id ` set (ts @ ls)" using listed_ids(1) [OF assms(1-3)] None by blast
  show ?thesis
  proof (cases "known r i = Some False")
    case True
    then have "known r0 i = Some False" using pulls_other [OF assms(4) gone] by simp
    then have "a = DeleteLocally" using assms(5,6) None by blast
    with True gone show ?thesis by (simp add: absent_def)
  qed (cases a; simp)
qed

text \<open>The device of a session, a newcomer or not.\<close>

lemma member_at_view:
  assumes "folder_ok drift w"
  shows "view_ok w (mb_view (member_at w d c))"
proof (cases "members w d")
  case None
  then show ?thesis by (simp add: member_at_def newcomer_def view_ok_def empty_well_formed) (simp add: empty_replica_def)
next
  case (Some m)
  with assms show ?thesis by (simp add: member_at_def folder_ok_def member_ok_def)
qed

lemma member_at_stale:
  assumes "margin_ok drift" "folder_ok drift w" "all_timed drift w"
    and "reads drift t c" "fd_time w \<le> t" "i \<in> buried w - spoiled w" "tombs w i = None"
    and "known (mb_view (member_at w d c)) i = Some False"
  shows "rejoin_action (mb_seen (member_at w d c)) (in_secs c) = DeleteLocally"
proof (cases "members w d")
  case None
  then show ?thesis using assms(8) by (simp add: member_at_def newcomer_def empty_replica_def)
next
  case (Some m)
  then have m: "member_at w d c = m" by (simp add: member_at_def)
  have "up_to_date drift w m i" using assms(2,6) Some by (simp add: folder_ok_def member_ok_def)
  then show ?thesis
    using overlooking_is_stale [OF assms(1,4,5) _ _ assms(7), of m] assms(3,8) Some by (simp add: m all_timed_def)
qed

lemma session_result:
  assumes "margin_ok drift" "folder_ok drift w" "all_timed drift w"
    and "session drift d c w w'"
  shows "folder_ok drift w' \<and> (\<forall>i \<in> buried w - spoiled w'. recs w' i = recs w i \<and>
    (\<exists>m'. members w' d = Some m' \<and> known (mb_view m') i \<noteq> Some False))"
  using assms(4)
proof (cases rule: session.cases)
  case (session t m ts ls r a R)
  let ?A = "absent (ts @ ls) r"
  let ?r = "rejoin_view a ?A r"
  let ?m = "\<lparr>mb_view = ?r, mb_clock = absorb_all d c (ts @ ls) (mb_clock m), mb_seen = in_secs c, mb_synced = t\<rparr>"
  have l: "listings_ok w" using assms(2) by (simp add: folder_ok_def)
  have v: "view_ok w (mb_view m)" unfolding session(4) by (rule member_at_view [OF assms(2)])
  have purged: "known ?r i \<noteq> Some False" if "i \<in> buried w - spoiled w'" for i
    by (rule session_purges [OF l session(5-7)])
      (use that member_at_stale [OF assms(1-3) session(3,2)] in \<open>auto simp: session(1,4,8)\<close>)
  have unwritten: "R i = None" if "i \<in> buried w - spoiled w'" for i
    using session(9) purged [OF that] by (cases a; cases "R i") (auto simp: absent_def)
  have used: "i \<in> used w" if "known r i \<noteq> None" for i
    using listed_ids(2) [OF l session(5,6), of i] pulls_other [OF session(7), of i] v that
    unfolding view_ok_def by metis
  have "known ?r i \<noteq> None \<Longrightarrow> known r i \<noteq> None" for i by (cases a) (auto simp: absent_def split: if_splits)
  then have view: "view_ok w ?r"
    using used rejoin_well_formed merge.pulls_mono(3) [OF session(7)] v by (simp add: view_ok_def)
  have "up_to_date drift w' ?m i" if i: "i \<in> buried w - spoiled w'" for i
  proof (cases "tombs w i")
    case None
    with purged [OF i] show ?thesis by (simp add: up_to_date_def session(1))
  next
    case (Some h)
    then have "known r i = Some True" using i by (auto simp: session(1) missed_def)
    then have "known ?r i = Some True" by (cases a) (simp_all add: absent_def)
    then show ?thesis by (intro up_to_date_deleted) simp
  qed
  with view have "member_ok drift w' ?m"
    by (auto simp: member_ok_def session(1) view_ok_def simp del: rejoin_view.simps)
  moreover have "member_ok drift w' n" if "member_ok drift w n" for n
    by (rule bystander_ok [OF that]) (simp_all add: session(1,2))
  moreover have "listings_ok w'"
  proof -
    have "\<not> deleted h \<and> record_id h = i \<and> i \<in> used w" if "R i = Some h" for i h
      using session(9) that used [of i] by (cases a) (auto simp: absent_def)
    then show ?thesis using l unwritten unfolding listings_ok_def session(1)
      by (fastforce simp: map_add_Some_iff)
  qed
  ultimately have "folder_ok drift w'" using assms(2) by (auto simp: folder_ok_def session(1))
  with purged unwritten show ?thesis by (auto simp: session(1) map_add_def simp del: rejoin_view.simps)
qed

section \<open>Reachable folders\<close>

lemma folder_okD:
  assumes "folder_ok drift w"
  shows "listings_ok w" "members w d = Some m \<Longrightarrow> member_ok drift w m"
  using assms by (simp_all add: folder_ok_def)

lemma folder_okI:
  assumes "listings_ok w'" "member_ok drift w' m'" "members w' = (members w)(d \<mapsto> m')"
    and "\<And>n. member_ok drift w n \<Longrightarrow> member_ok drift w' n" "folder_ok drift w"
  shows "folder_ok drift w'"
  using assms by (auto simp: folder_ok_def)

lemma copy_ok:
  assumes "folder_ok drift w" "fd_time w \<le> t" "members w d = Some m" "\<not> deleted h"
    and "record_id h \<notin> used w" "sync_hash h \<notin> live_content (mb_view m)"
    and "w' = (set_member d (m\<lparr>mb_view := effect ApplyRemote h (mb_view m), mb_clock := s\<rparr>) t w)
      \<lparr>recs := (recs w)(record_id h \<mapsto> h), used := insert (record_id h) (used w)\<rparr>"
  shows "folder_ok drift w'"
proof (rule folder_okI [OF _ _ _ _ assms(1)])
  let ?m = "m\<lparr>mb_view := effect ApplyRemote h (mb_view m), mb_clock := s\<rparr>"
  note l = folder_okD(1) [OF assms(1)] and m = folder_okD(2) [OF assms(1,3)]
  show "listings_ok w'" using l assms(4,5) by (auto simp: assms(7) listings_ok_def)
  show "members w' = (members w)(d \<mapsto> ?m)" by (simp add: assms(7) del: effect.simps)
  have new: "known (mb_view m) (record_id h) = None" using m assms(5) by (auto simp: member_ok_def view_ok_def)
  have "well_formed (effect ApplyRemote h (mb_view m))"
    using m assms(6) new by (intro well_formed_insert) (simp_all add: member_ok_def view_ok_def)
  then have v: "view_ok w' (effect ApplyRemote h (mb_view m))"
    using m by (auto simp: view_ok_def member_ok_def assms(7))
  have "record_id h \<notin> buried w" using l assms(5) by (auto simp: listings_ok_def)
  with v show "member_ok drift w' ?m"
    by (intro mover_ok [OF m, where j = "record_id h"])
      (use assms(2) in \<open>auto simp: assms(7) simp del: effect.simps\<close>, simp_all)
  show "member_ok drift w' n" if "member_ok drift w n" for n
    by (rule bystander_ok [OF that]) (use assms(2) in \<open>auto simp: assms(7)\<close>)
qed

lemma remove_ok:
  assumes "folder_ok drift w" "fd_time w \<le> t" "reads drift t c" "members w d = Some m" "deleted h"
    and "hdr_hlc h = hlc_next p c d" "(record_id h, sync_hash h) \<in> rows (mb_view m)"
    and "w' = (set_member d (m\<lparr>mb_view := effect ApplyTombstone h (mb_view m), mb_clock := s\<rparr>) t w)
      \<lparr>tombs := (tombs w)(record_id h \<mapsto> h), buried := insert (record_id h) (buried w)\<rparr>"
  shows "folder_ok drift w'"
proof (rule folder_okI [OF _ _ _ _ assms(1)])
  let ?m = "m\<lparr>mb_view := effect ApplyTombstone h (mb_view m), mb_clock := s\<rparr>"
  note l = folder_okD(1) [OF assms(1)] and m = folder_okD(2) [OF assms(1,4)]
  have wf: "well_formed (mb_view m)" using m by (simp add: member_ok_def view_ok_def)
  then have "known (mb_view m) (record_id h) = Some False" using assms(7) by (auto simp: well_formed_def)
  then have u: "record_id h \<in> used w" using m view_used by (auto simp: member_ok_def)
  show "listings_ok w'" using l assms(5) u by (auto simp: assms(8) listings_ok_def)
  show "members w' = (members w)(d \<mapsto> ?m)" by (simp add: assms(8) del: effect.simps)
  have "well_formed (effect ApplyTombstone h (mb_view m))"
    using wf by (auto simp: well_formed_def mark_deleted_def intro: inj_on_subset)
  then have "view_ok w' (effect ApplyTombstone h (mb_view m))"
    using m u by (auto simp: view_ok_def member_ok_def mark_deleted_def assms(8))
  moreover have "up_to_date drift w' ?m (record_id h)"
    by (rule up_to_date_deleted) (simp add: mark_deleted_def)
  ultimately show "member_ok drift w' ?m"
    by (intro mover_ok [OF m, where j = "record_id h"])
      (use assms(2) in \<open>auto simp: assms(8) mark_deleted_def simp del: effect.simps\<close>, simp_all add: mark_deleted_def)
  show "member_ok drift w' n" if n: "member_ok drift w n" for n
  proof (rule bystander_ok [OF n])
    have "up_to_date drift w' n (record_id h)"
      using next_wall [OF assms(3), of p d] n assms(2) by (simp add: up_to_date_def assms(6,8) member_ok_def)
    then show "(i \<in> buried w \<and> tombs w' i = tombs w i) \<or> up_to_date drift w' n i"
      if "i \<in> buried w' - spoiled w'" for i using that by (cases "i = record_id h") (auto simp: assms(8))
  qed (use assms(2) in \<open>auto simp: assms(8)\<close>)
qed

lemma receive_ok:
  assumes "folder_ok drift w" "fd_time w \<le> t" "members w d = Some m"
    and "h \<in> ran (recs w) \<union> ran (tombs w)" "takes merge_decide h (mb_view m) r"
    and "w' = set_member d (m\<lparr>mb_view := r, mb_clock := s\<rparr>) t w"
  shows "folder_ok drift w'"
proof (rule folder_okI [OF _ _ _ _ assms(1)])
  let ?m = "m\<lparr>mb_view := r, mb_clock := s\<rparr>" and ?i = "record_id h"
  note l = folder_okD(1) [OF assms(1)] and m = folder_okD(2) [OF assms(1,3)]
  show "listings_ok w'" using l by (simp add: assms(6) listings_ok_def)
  show "members w' = (members w)(d \<mapsto> ?m)" by (simp add: assms(6))
  show "member_ok drift w' n" if "member_ok drift w n" for n
    by (rule bystander_ok [OF that]) (use assms(2) in \<open>auto simp: assms(6)\<close>)
  have wf: "well_formed (mb_view m)" using m by (simp add: member_ok_def view_ok_def)
  have id: "?i \<in> used w" "recs w ?i = Some h \<or> deleted h" using l assms(4) by (auto simp: listings_ok_def ran_def)
  have k: "known r i = known (mb_view m) i" if "i \<noteq> ?i" for i by (rule take_other [OF assms(5) that])
  have "known r i \<noteq> None \<Longrightarrow> i \<in> used w" for i
    using k [of i] id(1) m by (cases "i = ?i") (auto simp: member_ok_def view_ok_def)
  then have "view_ok w' r" using merge.well_formed_take [OF wf assms(5)] by (simp add: view_ok_def assms(6))
  moreover have "up_to_date drift w' ?m ?i" if i: "?i \<in> buried w - spoiled w"
  proof (cases "deleted h \<or> known (mb_view m) ?i = Some True")
    case True
    then have "known r ?i = Some True"
      using merge.take_knows(2) [OF assms(5)] merge.take_known_deleted [OF assms(5)] by blast
    then show ?thesis by (intro up_to_date_deleted) simp
  next
    case False
    then have "tombs w ?i \<noteq> None" using collected_unlisted [OF l i] id(2) by auto
    moreover have "up_to_date drift w m ?i" using m i by (simp add: member_ok_def)
    ultimately show ?thesis using False by (auto simp: up_to_date_def assms(6))
  qed
  ultimately show "member_ok drift w' ?m"
    by (intro mover_ok [OF m, where j = ?i]) (use assms(2) k in \<open>auto simp: assms(6)\<close>)
qed

text \<open>Steps that change no device's tables.\<close>

lemma environment_ok:
  assumes "folder_ok drift w" "fd_time w \<le> fd_time w'" "used w' = used w" "buried w' = buried w"
    and "spoiled w \<subseteq> spoiled w'" "\<And>d m. members w' d = Some m \<Longrightarrow> members w d = Some m" "listings_ok w'"
    and "\<And>m i. member_ok drift w m \<Longrightarrow> i \<in> buried w - spoiled w' \<Longrightarrow>
      tombs w' i = tombs w i \<or> up_to_date drift w' m i"
  shows "folder_ok drift w'"
proof -
  have "member_ok drift w' m" if "member_ok drift w m" for m
    by (rule bystander_ok [OF that assms(2) _ assms(5)]) (use assms(3,4,8) that in auto)
  with assms(1,6,7) show ?thesis unfolding folder_ok_def by blast
qed

lemma folder_ok_step:
  assumes "folder_step drift prof w w'" "margin_ok drift" "folder_ok drift w"
    and "all_timed drift w"
  shows "folder_ok drift w'"
  using assms(1)
proof cases
  case (sync d c)
  with session_result [OF assms(2-4)] show ?thesis by blast
next
  case (copy t c d m h)
  show ?thesis by (rule copy_ok [OF assms(3) copy(2,4,5,7,8,1)])
next
  case (remove t c d m h)
  show ?thesis by (rule remove_ok [OF assms(3) remove(2-7,1)])
next
  case (receive t c d m h r)
  show ?thesis by (rule receive_ok [OF assms(3) receive(2,4-6,1)])
next
  case (collect t c i h ds)
  have "listings_ok w'" using folder_okD(1) [OF assms(3)] by (auto simp: collect(1) listings_ok_def)
  moreover have "tombs w' j = tombs w j \<or> up_to_date drift w' m j"
    if "member_ok drift w m" "j \<in> buried w - spoiled w'" for m j
  proof (cases "j = i")
    case True
    have "up_to_date drift w m i" using that True by (auto simp: member_ok_def collect(1))
    from up_to_date_collected [OF collect(6,3,4) this] True show ?thesis by (simp add: collect(1))
  qed (simp add: collect(1))
  ultimately show ?thesis using collect(2) by (intro environment_ok [OF assms(3)]) (auto simp: collect(1))
next
  case (leave t d)
  then show ?thesis using folder_okD(1) [OF assms(3)]
    by (intro environment_ok [OF assms(3)]) (auto simp: listings_ok_def split: if_splits)
next
  case (vanish t i)
  then show ?thesis using folder_okD(1) [OF assms(3)]
    by (intro environment_ok [OF assms(3)]) (auto simp: listings_ok_def split: if_splits)
next
  case (reappear t h)
  then show ?thesis using folder_okD(1) [OF assms(3)]
    by (intro environment_ok [OF assms(3)]) (auto simp: listings_ok_def split: if_splits)
next
  case (lose_tomb t i)
  then show ?thesis using folder_okD(1) [OF assms(3)]
    by (intro environment_ok [OF assms(3)]) (auto simp: listings_ok_def split: if_splits)
qed

lemma arises_ok: "arises drift prof w \<Longrightarrow> margin_ok drift \<Longrightarrow> folder_ok drift w"
proof (induction rule: arises.induct)
  case arise_new
  then show ?case by (simp add: folder_ok_def listings_ok_def new_folder_def)
next
  case (arise_step w w')
  from folder_ok_step [OF arise_step.hyps(2) arise_step.prems arise_step.IH [OF arise_step.prems]]
    arises_timed [OF arise_step.hyps(1)] show ?case .
qed

end
