(* ===== verification/Lifecycle_Properties.thy ===== *)
theory Lifecycle_Properties
  imports Sync_Lifecycle Sync_Properties
begin

text \<open>
  The properties of the life of a vault folder: with clocks that are good enough nothing deleted ever
  comes back and the rejoin decision is right, with worse clocks a deleted record can come back, and
  tombstones do not stay for ever.
\<close>

section \<open>A sample life\<close>

text \<open>
  Devices 1 and 2 join at hour 96; device 1 copies record 7, device 2 receives it, device 1 deletes
  it, the record's file is removed, and later the tombstone is collected. \<open>c1\<close> and \<open>c2\<close> are the
  readings of the two wall clocks.
\<close>

definition hour :: int where "hour = 3600000"

definition life_member :: "replica \<Rightarrow> hlc option \<Rightarrow> i64 \<Rightarrow> member" where
  "life_member r s c = \<lparr>mb_view = r, mb_clock = s, mb_seen = in_secs c, mb_synced = 96 * hour\<rparr>"

definition life_stamp :: "i64 \<Rightarrow> u32 \<Rightarrow> hlc" where
  "life_stamp c n = \<lparr>wall_millis = c, counter = n, node = 1\<rparr>"

definition life_file :: "hlc \<Rightarrow> bool \<Rightarrow> record_header" where
  "life_file s del = (vault_file 7 0 del [1])\<lparr>hdr_hlc := s\<rparr>"

definition life_row :: replica where
  "life_row = \<lparr>known = [7 \<mapsto> False], rows = {(7, [1])}, wipes = {}\<rparr>"

definition life_grave :: "i64 \<Rightarrow> replica" where
  "life_grave c = \<lparr>known = [7 \<mapsto> True], rows = {}, wipes = {(7, [1], life_stamp c 1)}\<rparr>"

definition life_folder :: "record_header option \<Rightarrow> record_header option \<Rightarrow> member \<Rightarrow> member \<Rightarrow>
    uuid set \<Rightarrow> uuid set \<Rightarrow> int \<Rightarrow> folder" where
  "life_folder r t m1 m2 U B now =
     \<lparr>fd_time = now, recs = (\<lambda>i. if i = 7 then r else None), tombs = (\<lambda>i. if i = 7 then t else None),
      members = [1 \<mapsto> m1, 2 \<mapsto> m2], used = U, buried = B, spoiled = {}\<rparr>"

definition life_joined :: "i64 \<Rightarrow> i64 \<Rightarrow> folder" where
  "life_joined c1 c2 = life_folder None None (life_member empty_replica None c1)
     (life_member empty_replica None c2) {} {} (96 * hour)"

definition life_copied :: "i64 \<Rightarrow> i64 \<Rightarrow> folder" where
  "life_copied c1 c2 = life_folder (Some (life_file (life_stamp c1 0) False)) None
     (life_member life_row (Some (life_stamp c1 0)) c1) (life_member empty_replica None c2) {7} {} (96 * hour)"

definition life_received :: "i64 \<Rightarrow> i64 \<Rightarrow> folder" where
  "life_received c1 c2 = life_folder (Some (life_file (life_stamp c1 0) False)) None
     (life_member life_row (Some (life_stamp c1 0)) c1)
     (life_member life_row (Some (hlc_receive None (life_stamp c1 0) c2 2)) c2) {7} {} (96 * hour)"

definition life_deleted :: "record_header option \<Rightarrow> i64 \<Rightarrow> i64 \<Rightarrow> folder" where
  "life_deleted r c1 c2 = life_folder r (Some (life_file (life_stamp c1 1) True))
     (life_member (life_grave c1) (Some (life_stamp c1 1)) c1)
     (life_member life_row (Some (hlc_receive None (life_stamp c1 0) c2 2)) c2) {7} {7} (96 * hour)"

definition life_collected :: "i64 \<Rightarrow> i64 \<Rightarrow> int \<Rightarrow> folder" where
  "life_collected c1 c2 t = life_folder None None
     (life_member (life_grave c1) (Some (life_stamp c1 1)) c1)
     (life_member life_row (Some (hlc_receive None (life_stamp c1 0) c2 2)) c2) {7} {7} t"

lemma life_file_simps [simp]:
  "record_id (life_file s del) = 7" "hdr_hlc (life_file s del) = s" "deleted (life_file s del) = del"
  "sync_hash (life_file s del) = [1]"
  by (simp_all add: life_file_def)

lemma step_to: "folder_step drift prof w u \<Longrightarrow> u = w' \<Longrightarrow> folder_step drift prof w w'"
  by simp

lemmas life_defs = life_joined_def life_copied_def life_received_def life_deleted_def life_collected_def
  life_folder_def life_member_def life_stamp_def set_member_def

lemma rejoin_now: "rejoin_action s s = Repush"
  by (simp add: repush_fresh device_is_stale_iff STALE_DEVICE_SECS_def)

text \<open>A session that finds two empty listings.\<close>

lemma empty_session:
  assumes "fd_time w \<le> t" "reads drift t c" "m = member_at w d c" "a = rejoin_action (mb_seen m) (in_secs c)"
    and "may_write a {i. known (mb_view m) i = Some False} R"
    and "w' = (set_member d \<lparr>mb_view = rejoin_view a {i. known (mb_view m) i = Some False} (mb_view m),
      mb_clock = mb_clock m, mb_seen = in_secs c, mb_synced = t\<rparr> t w)
      \<lparr>recs := recs w ++ R, spoiled := spoiled w \<union> missed w (mb_view m)\<rparr>"
  shows "session drift d c w w'"
proof -
  have "absent ([] @ []) (mb_view m) = {i. known (mb_view m) i = Some False}" by (simp add: absent_def)
  then show ?thesis
    using session.session [OF assms(1-3) _ _ _ assms(4), of "[]" "[]" "mb_view m" R] assms(5)
    by (simp add: assms(6) pull_done absorb_all_def)
qed

lemma first_session:
  assumes "fd_time w \<le> t" "reads drift t c" "members w d = None" "tombs w = Map.empty"
    and "w' = set_member d \<lparr>mb_view = empty_replica, mb_clock = None, mb_seen = in_secs c, mb_synced = t\<rparr> t w"
  shows "folder_step drift prof w w'"
  by (rule folder_step.sync, rule empty_session [OF assms(1,2) refl refl, where d = d and R = Map.empty])
    (simp_all add: member_at_def newcomer_def assms(3-5) rejoin_now missed_def set_member_def)

lemma life_joins:
  assumes "reads drift (96 * hour) c1" "reads drift (96 * hour) c2"
  shows "arises drift prof (life_joined c1 c2)"
proof -
  let ?m = "\<lambda>c. \<lparr>mb_view = empty_replica, mb_clock = None, mb_seen = in_secs c, mb_synced = 96 * hour\<rparr>"
  let ?w = "set_member 1 (?m c1) (96 * hour) new_folder"
  have "folder_step drift prof new_folder ?w"
    by (rule first_session [OF _ assms(1) _ _ refl]) (simp_all add: new_folder_def hour_def)
  then have "arises drift prof ?w" by (rule arise_step [OF arise_new])
  moreover have "folder_step drift prof ?w (life_joined c1 c2)"
    by (rule first_session [OF _ assms(2), where d = 2]) (simp_all add: life_defs new_folder_def)
  ultimately show ?thesis by (rule arise_step)
qed

lemma life_copies:
  assumes "reads drift (96 * hour) c1"
  shows "folder_step drift prof (life_joined c1 c2) (life_copied c1 c2)"
  by (rule folder_step.copy [where m = "life_member empty_replica None c1"
        and h = "life_file (life_stamp c1 0) False" and d = 1 and t = "96 * hour" and c = c1, THEN step_to])
    (use assms in \<open>simp_all add: life_defs life_row_def hlc_next_def empty_replica_def live_content_def fun_eq_iff\<close>)

lemma life_receives:
  assumes "reads drift (96 * hour) c2"
  shows "folder_step drift prof (life_copied c1 c2) (life_received c1 c2)"
proof -
  let ?h = "life_file (life_stamp c1 0) False"
  let ?l = "\<lparr>applied = False, applied_deleted = False, live_duplicate_sync_hash = False, tombstoned_duplicate_hlc = None\<rparr>"
  have "summarises empty_replica ?h ?l"
    by (simp add: summarises_def empty_replica_def newest_of_def other_wipes_def)
  from take_file [OF this, of merge_decide] have "takes merge_decide ?h empty_replica life_row"
    by (simp add: merge_decide_def life_row_def empty_replica_def)
  then show ?thesis
    by (intro folder_step.receive [where m = "life_member empty_replica None c2"
          and h = ?h and d = 2 and t = "96 * hour" and c = c2, THEN step_to])
      (use assms in \<open>simp_all add: life_defs fun_eq_iff ran_def\<close>)
qed

lemma next_same_wall: "hlc_next (Some \<lparr>wall_millis = c, counter = 0, node = 1\<rparr>) c 1 =
    \<lparr>wall_millis = c, counter = 1, node = 1\<rparr>"
  by (simp add: hlc_next_def i64_larger_def checked_add_u32_def Let_def)

lemma life_deletes:
  assumes "reads drift (96 * hour) c1"
  shows "folder_step drift prof (life_received c1 c2)
    (life_deleted (Some (life_file (life_stamp c1 0) False)) c1 c2)"
  by (rule folder_step.remove [where m = "life_member life_row (Some (life_stamp c1 0)) c1"
        and h = "life_file (life_stamp c1 1) True" and d = 1 and t = "96 * hour" and c = c1, THEN step_to])
    (use assms in \<open>simp_all add: life_defs life_row_def life_grave_def next_same_wall mark_deleted_def fun_eq_iff\<close>)

lemma life_removes: "folder_step drift prof (life_deleted r c1 c2) (life_deleted None c1 c2)"
  by (rule folder_step.vanish [where i = 7 and t = "96 * hour", THEN step_to])
    (simp_all add: life_defs fun_eq_iff)

lemma life_collects:
  assumes "96 * hour \<le> t" "reads drift t c"
    and "gc_eligible prof (life_stamp c1 1) [\<lparr>last_seen_secs = in_secs c1\<rparr>, \<lparr>last_seen_secs = in_secs c2\<rparr>]
      (in_secs c) = Some True"
  shows "folder_step drift prof (life_deleted None c1 c2) (life_collected c1 c2 t)"
  by (rule folder_step.collect [where i = 7 and h = "life_file (life_stamp c1 1) True"
        and t = t and c = c and ds = "[\<lparr>last_seen_secs = in_secs c1\<rparr>, \<lparr>last_seen_secs = in_secs c2\<rparr>]", THEN step_to])
    (use assms in \<open>simp_all add: life_defs presences_def fun_eq_iff\<close>)

lemma life_deleted_arises:
  assumes "reads drift (96 * hour) c1" "reads drift (96 * hour) c2"
  shows "arises drift prof (life_deleted None c1 c2)"
  by (rule arise_step [OF arise_step [OF arise_step [OF arise_step [OF life_joins [OF assms]
      life_copies [OF assms(1)]] life_receives [OF assms(2)]] life_deletes [OF assms(1)]] life_removes])

text \<open>The session of device 2 after the collection finds record 7 in neither listing.\<close>

lemma life_session:
  assumes "96 * hour \<le> t" "reads drift t c"
    and "may_write (rejoin_action (in_secs c2) (in_secs c)) {7} R"
  shows "\<exists>w'. session drift 2 c (life_collected c1 c2 t) w' \<and> recs w' = R \<and> tombs w' = Map.empty \<and>
    buried w' = {7} \<and> spoiled w' = {}"
proof -
  let ?w = "life_collected c1 c2 t" and ?m = "life_member life_row (Some (hlc_receive None (life_stamp c1 0) c2 2)) c2"
  have m: "?m = member_at ?w 2 c" by (simp add: member_at_def life_defs)
  have a: "{i. known (mb_view ?m) i = Some False} = {7}" by (auto simp: life_defs life_row_def)
  have f: "recs ?w = Map.empty" "tombs ?w = Map.empty" "buried ?w = {7}" "spoiled ?w = {}" "fd_time ?w = t"
    by (simp_all add: life_defs)
  have "fd_time ?w \<le> t" "may_write (rejoin_action (mb_seen ?m) (in_secs c)) {i. known (mb_view ?m) i = Some False} R"
    unfolding a f using assms(3) by (simp_all add: life_member_def)
  from empty_session [OF this(1) assms(2) m refl this(2) refl] show ?thesis
    by (intro exI conjI) (assumption, simp_all add: f missed_def)
qed

section \<open>Safety and liveness\<close>

text \<open>C3: nothing deleted ever comes back. Let the wall clocks of all devices be right to within
  \<open>drift\<close>, where four times the drift and a second fit into the margin between the retention and the
  staleness period (a little less than 30 hours each way), and let any number of devices join, copy, delete, receive
  single files, run sessions on complete or incomplete listings, collect tombstones and leave, while
  record files vanish and come back in any way. For every deleted record that the environment has not
  spoiled, that is unless its tombstone was lost other than by a collection, a session missed its
  tombstone, or its record file was still there at or came back after the collection: once its
  tombstone is collected there is no file of it in the folder, and every session of every device,
  however long it was away, writes no file for it and ends with no row for it in the device's tables,
  unless that session itself misses the tombstone.\<close>

theorem deleted_never_returns:
  assumes "margin_ok drift" "arises drift prof w" "i \<in> buried w - spoiled w"
  shows "(tombs w i = None \<longrightarrow> recs w i = None) \<and>
    (\<forall>d c w'. session drift d c w w' \<longrightarrow> i \<notin> spoiled w' \<longrightarrow>
      recs w' i = recs w i \<and> (\<exists>m. members w' d = Some m \<and> i \<notin> fst ` rows (mb_view m)))"
proof (intro conjI allI impI)
  have ok: "folder_ok drift w" by (rule arises_ok [OF assms(2,1)])
  show "recs w i = None" if "tombs w i = None"
    by (rule collected_unlisted [OF folder_okD(1) [OF ok] assms(3) that])
  fix d c w' assume s: "session drift d c w w'" and "i \<notin> spoiled w'"
  then have r: "folder_ok drift w'" "recs w' i = recs w i"
    "\<exists>m. members w' d = Some m \<and> known (mb_view m) i \<noteq> Some False"
    using session_result [OF assms(1) ok arises_timed [OF assms(2)] s] assms(3) by blast+
  show "recs w' i = recs w i" by (rule r(2))
  obtain m where m: "members w' d = Some m" "known (mb_view m) i \<noteq> Some False" using r(3) by blast
  have "well_formed (mb_view m)" using folder_okD(2) [OF r(1) m(1)] by (simp add: member_ok_def view_ok_def)
  then have "i \<notin> fst ` rows (mb_view m)" using m(2) by (auto simp: well_formed_def)
  with m(1) show "\<exists>m. members w' d = Some m \<and> i \<notin> fst ` rows (mb_view m)" by blast
qed

lemma right_clock: "reads 86400000 (96 * hour) (i64_of (96 * hour))"
  by (simp add: reads_def hour_def sint_i64_of i64_min_def i64_max_def)

lemma right_later: "reads 86400000 (1000 * hour) (i64_of (1000 * hour))"
  by (simp add: reads_def hour_def sint_i64_of i64_min_def i64_max_def)

lemma life_gc:
  "gc_eligible Debug (life_stamp (i64_of (96 * hour)) 1)
     [\<lparr>last_seen_secs = in_secs (i64_of (96 * hour))\<rparr>, \<lparr>last_seen_secs = in_secs (i64_of (96 * hour))\<rparr>]
     (in_secs (i64_of (1000 * hour))) = Some True"
  by code_simp

lemma good_margin: "margin_ok 86400000"
  by (simp add: margin_ok_def TOMBSTONE_RETENTION_SECS_def STALE_DEVICE_SECS_def)

lemma life_collected_arises:
  "arises 86400000 Debug (life_collected (i64_of (96 * hour)) (i64_of (96 * hour)) (1000 * hour))"
  by (rule arise_step [OF life_deleted_arises [OF right_clock right_clock] life_collects [OF _ right_later life_gc]])
    (simp add: hour_def)

theorem deleted_never_returns_witness:
  "\<exists>w m. session 86400000 2 (i64_of (1000 * hour))
     (life_collected (i64_of (96 * hour)) (i64_of (96 * hour)) (1000 * hour)) w \<and>
     recs w 7 = None \<and> members w 2 = Some m \<and> 7 \<notin> fst ` rows (mb_view m)"
proof -
  let ?c = "i64_of (96 * hour)"
  let ?w = "life_collected ?c ?c (1000 * hour)"
  have f: "7 \<in> buried ?w - spoiled ?w" "recs ?w 7 = None" by (simp_all add: life_defs)
  have "rejoin_action (in_secs ?c) (in_secs (i64_of (1000 * hour))) = DeleteLocally" by code_simp
  then obtain w where "session 86400000 2 (i64_of (1000 * hour)) ?w w" "spoiled w = {}"
    using life_session [OF _ right_later, of ?c Map.empty ?c] by (auto simp: hour_def)
  with deleted_never_returns [OF good_margin life_collected_arises f(1)] f(2) show ?thesis by auto
qed

text \<open>C7: the rejoin decision is right. Consider a device of a reachable folder that asks
  \<open>rejoin_action\<close>, with its own clock, about a record it holds for live. If the record was deleted and
  its tombstone is gone (and the environment has not spoiled it), the answer is \<open>DeleteLocally\<close>,
  provided that the clocks are good enough as in the previous property. Whatever the clocks are, the
  answer is \<open>Repush\<close> when the device's last session lies back, in true time, at most the staleness
  period less twice the drift and a second, and \<open>DeleteLocally\<close> when it lies back at least the
  staleness period and twice the drift and a second.\<close>

theorem rejoin_decides_rightly:
  assumes "arises drift prof w" "members w d = Some m" "fd_time w \<le> t" "reads drift t c"
  shows "(margin_ok drift \<longrightarrow> i \<in> buried w - spoiled w \<longrightarrow> known (mb_view m) i = Some False \<longrightarrow>
      tombs w i = None \<longrightarrow> rejoin_action (mb_seen m) (in_secs c) = DeleteLocally) \<and>
    (t - mb_synced m \<le> STALE_DEVICE_SECS * 1000 - (2 * drift + 1000) \<longrightarrow>
      rejoin_action (mb_seen m) (in_secs c) = Repush) \<and>
    (STALE_DEVICE_SECS * 1000 + (2 * drift + 1000) \<le> t - mb_synced m \<longrightarrow>
      rejoin_action (mb_seen m) (in_secs c) = DeleteLocally)"
proof (intro conjI impI)
  have m: "timed drift w m" using arises_timed [OF assms(1)] assms(2) by (simp add: all_timed_def)
  show "rejoin_action (mb_seen m) (in_secs c) = Repush"
    if "t - mb_synced m \<le> STALE_DEVICE_SECS * 1000 - (2 * drift + 1000)"
    by (rule recent_is_fresh [OF m assms(4)]) (use that in simp)
  show "rejoin_action (mb_seen m) (in_secs c) = DeleteLocally"
    if "STALE_DEVICE_SECS * 1000 + (2 * drift + 1000) \<le> t - mb_synced m"
    by (rule long_ago_is_stale [OF m assms(4)]) (use that in simp)
  assume margin: "margin_ok drift" and i: "i \<in> buried w - spoiled w" "known (mb_view m) i = Some False" "tombs w i = None"
  have "up_to_date drift w m i"
    using folder_okD(2) [OF arises_ok [OF assms(1) margin] assms(2)] i(1) by (simp add: member_ok_def)
  then show "rejoin_action (mb_seen m) (in_secs c) = DeleteLocally"
    by (rule overlooking_is_stale [OF margin assms(4,3) m _ i(3,2)])
qed

theorem rejoin_decides_rightly_witness:
  "rejoin_action (in_secs (i64_of (96 * hour))) (in_secs (i64_of (1000 * hour))) = DeleteLocally"
proof -
  let ?c = "i64_of (96 * hour)"
  let ?m = "life_member life_row (Some (hlc_receive None (life_stamp ?c 0) ?c 2)) ?c"
  have "members (life_collected ?c ?c (1000 * hour)) 2 = Some ?m" by (simp add: life_defs)
  from rejoin_decides_rightly [OF life_collected_arises this _ right_later, of 7] good_margin show ?thesis
    by (simp add: life_defs life_row_def)
qed

text \<open>C23: no tombstone stays for ever. In every run in which all clocks are right to within \<open>drift\<close>,
  whatever \<open>drift\<close> is, once the retention period, the drift and a second have passed in true time
  since the stamp of a tombstone, \<open>gc_eligible\<close> lets every device collect it, with any reading of the
  present its clock may give and any part of the device files, in either build profile, however many
  devices never came back.\<close>

theorem tombstone_is_collected:
  assumes "arises drift prof w" "tombs w i = Some h" "fd_time w \<le> t" "reads drift t c"
    and "sint (wall_millis (hdr_hlc h)) + TOMBSTONE_RETENTION_SECS * 1000 + drift + 1000 \<le> t"
    and "set ds \<subseteq> presences w"
  shows "gc_eligible prof (hdr_hlc h) ds (in_secs c) = Some True \<and>
    (\<exists>w'. folder_step drift prof w w' \<and> fd_time w' = t \<and> tombs w' i = None \<and> recs w' = recs w \<and>
      members w' = members w)"
proof -
  have "gc_eligible prof (hdr_hlc h) ds (in_secs c) = Some True"
    by (rule collectable [OF arises_timed [OF assms(1)] assms(4,6)]) (use assms(5) in \<open>simp add: collect_wait_def\<close>)
  moreover from folder_step.collect [OF assms(3,4,2,6) this] have "\<exists>w'. folder_step drift prof w w' \<and>
      fd_time w' = t \<and> tombs w' i = None \<and> recs w' = recs w \<and> members w' = members w" by force
  ultimately show ?thesis by blast
qed

theorem tombstone_is_collected_witness:
  "\<exists>w'. folder_step 86400000 Release (life_deleted None (i64_of (96 * hour)) (i64_of (96 * hour))) w' \<and>
     tombs w' 7 = None"
proof -
  let ?c = "i64_of (96 * hour)"
  let ?w = "life_deleted None ?c ?c"
  have "tombs ?w 7 = Some (life_file (life_stamp ?c 1) True)" "fd_time ?w \<le> 1000 * hour"
    by (simp_all add: life_defs hour_def)
  from tombstone_is_collected [OF life_deleted_arises [OF right_clock right_clock, of Release] this right_later,
      of "[\<lparr>last_seen_secs = in_secs ?c\<rparr>]"] show ?thesis
    by (auto simp: life_defs presences_def hour_def TOMBSTONE_RETENTION_SECS_def sint_i64_of
        i64_min_def i64_max_def)
qed

section \<open>Where the clocks are not good enough\<close>

text \<open>C40: the margin is needed. With clocks that may be wrong by 31 hours there is a run in which a
  deleted record comes back although no tombstone was lost or missed and its file was gone before the
  tombstone was collected: a device whose clock ran fast at its last session and runs slow when it
  returns takes itself for fresh after the collection, and publishes the record again.
  \<open>RETENTION > STALE\<close> alone is no guarantee.\<close>

theorem skewed_clocks_resurrect:
  "\<exists>w. arises (31 * hour) Debug w \<and> 7 \<in> buried w \<and> 7 \<notin> spoiled w \<and> tombs w 7 = None \<and> recs w 7 \<noteq> None"
proof -
  let ?slow = "i64_of (65 * hour)" and ?fast = "i64_of (127 * hour)"
  have r: "reads (31 * hour) (96 * hour) ?slow" "reads (31 * hour) (96 * hour) ?fast"
    "reads (31 * hour) (875 * hour) (i64_of (906 * hour))" "reads (31 * hour) (875 * hour) (i64_of (844 * hour))"
    by (simp_all add: reads_def hour_def sint_i64_of i64_min_def i64_max_def)
  have later: "96 * hour \<le> 875 * hour" by (simp add: hour_def)
  have "gc_eligible Debug (life_stamp ?slow 1)
     [\<lparr>last_seen_secs = in_secs ?slow\<rparr>, \<lparr>last_seen_secs = in_secs ?fast\<rparr>] (in_secs (i64_of (906 * hour))) = Some True"
    by code_simp
  from arise_step [OF life_deleted_arises [OF r(1,2)] life_collects [OF later r(3) this]]
  have gone: "arises (31 * hour) Debug (life_collected ?slow ?fast (875 * hour))" .
  let ?h = "life_file (life_stamp ?slow 0) False"
  have "rejoin_action (in_secs ?fast) (in_secs (i64_of (844 * hour))) = Repush" by code_simp
  then have "may_write (rejoin_action (in_secs ?fast) (in_secs (i64_of (844 * hour)))) {7} [7 \<mapsto> ?h]" by simp
  from life_session [OF later r(4) this, of ?slow] obtain w where
    w: "session (31 * hour) 2 (i64_of (844 * hour)) (life_collected ?slow ?fast (875 * hour)) w" "recs w = [7 \<mapsto> ?h]"
      "tombs w = Map.empty" "buried w = {7}" "spoiled w = {}"
    by blast
  have "arises (31 * hour) Debug w" by (rule arise_step [OF gone folder_step.sync [OF w(1)]])
  with w(2-5) show ?thesis by auto
qed

end
