(* ===== verification/Entropy_Bound.thy ===== *)
theory Entropy_Bound
  imports Instances
begin

text \<open>
  The reference value of the entropy heuristic. \<open>qualifies\<close> compares the entropy of a run with a
  fraction of \<open>log2\<close> of its length, \<open>the maximum entropy possible for its length\<close>; in exact
  arithmetic the entropy lies between zero and that maximum.
\<close>

lemma foldl_add: "foldl (+) a xs = a + sum_list (xs :: real list)"
  by (induction xs arbitrary: a) simp_all

lemma sum_list_bounds:
  fixes f g :: "'a \<Rightarrow> real"
  assumes "\<forall>x \<in> set xs. 0 \<le> f x \<and> f x \<le> g x"
  shows "0 \<le> sum_list (map f xs) \<and> sum_list (map f xs) \<le> sum_list (map g xs)"
  using assms by (induction xs) (auto simp: add_mono)

lemma sum_list_scaled: "sum_list (map (\<lambda>c. real (unat c) / n * k) cs) = real (sum_list (map unat cs)) / n * k"
  by (induction cs) (simp_all add: add_divide_distrib distrib_right)

lemma sum_list_filter_pos: "sum_list (map unat (filter (\<lambda>c. c > 0) cs)) = sum_list (map unat (cs :: u32 list))"
  by (induction cs) (auto simp: word_gt_0)

lemma term_bounds:
  fixes c n :: real
  assumes "1 \<le> c" "c \<le> n"
  shows "0 \<le> - (c / n) * log 2 (c / n) \<and> - (c / n) * log 2 (c / n) \<le> c / n * log 2 n"
proof -
  have split: "log 2 (c / n) = log 2 c - log 2 n" using assms by (simp add: log_divide)
  have "0 \<le> log 2 c" "log 2 c \<le> log 2 n" using assms by simp_all
  then have "0 \<le> - log 2 (c / n)" "- log 2 (c / n) \<le> log 2 n" by (simp_all add: split)
  moreover have "0 \<le> c / n" using assms by simp
  ultimately have "0 \<le> c / n * (- log 2 (c / n))" "c / n * (- log 2 (c / n)) \<le> c / n * log 2 n"
    by (simp_all only: mult_nonneg_nonneg mult_left_mono)
  then show ?thesis by simp
qed

lemma count_list_total:
  assumes "length cs = 256" "\<forall>i < 256. unat (cs ! i) = count_list (map unat bs) i"
  shows "sum_list (map unat (cs :: u32 list)) = length (bs :: bytes)"
proof -
  have "set (map unat bs) \<subseteq> {0..<256}" by auto
  then have "sum (count_list (map unat bs)) {0..<256} = length (map unat bs)"
    by (rule sum_count_set) simp
  moreover have "sum_list (map unat cs) = sum (\<lambda>i. unat (cs ! i)) {0..<256}"
    using assms(1) by (simp add: sum_list_sum_nth)
  ultimately show ?thesis using assms(2) by simp
qed

lemma shannon_entropy_bounds:
  assumes small: "length (as_bytes s) < 2 ^ 32" and ne: "s \<noteq> []"
    and h: "shannon_entropy prof real_ops s = Some h"
  shows "0 \<le> h \<and> h \<le> log 2 (real (length (as_bytes s)))"
proof -
  let ?bs = "as_bytes s" and ?n = "length (as_bytes s)"
  have n: "0 < ?n" using length_le_bytes [of s] ne by (cases s) auto
  obtain cs t where ct: "count_bytes prof (replicate 256 0) 0 ?bs = Some (cs, t)" "length cs = 256"
    "unat t = ?n" "\<forall>i < 256. unat (cs ! i) = count_list (map unat ?bs) i"
    using count_bytes_exact [of "replicate 256 0" 0 ?bs prof] small by auto
  let ?cs = "filter (\<lambda>c. c > 0) cs"
  let ?f = "\<lambda>c. - (real (unat c) / real ?n) * log 2 (real (unat c) / real ?n)"
  have t: "t \<noteq> 0" using ct(3) n by auto
  have rt: "(unsigned t :: real) = real ?n" unfolding ct(3) [symmetric] by simp
  have hs: "h = sum_list (map ?f ?cs)"
    using h by (simp add: shannon_entropy_def ct(1) rt t real_ops_def foldl_add Let_def)
  have total: "sum_list (map unat ?cs) = ?n"
    unfolding sum_list_filter_pos by (rule count_list_total [OF ct(2,4)])
  have "\<forall>c \<in> set ?cs. 0 \<le> ?f c \<and> ?f c \<le> real (unat c) / real ?n * log 2 (real ?n)"
  proof
    fix c assume c: "c \<in> set ?cs"
    then have "unat c \<le> sum_list (map unat ?cs)" by (intro member_le_sum_list) auto
    then have "real (unat c) \<le> real ?n" by (simp only: total of_nat_le_iff)
    moreover have "1 \<le> unat c" using c by (simp add: Suc_le_eq unat_gt_0 word_gt_0)
    then have "real 1 \<le> real (unat c)" by (rule of_nat_mono)
    then have "1 \<le> real (unat c)" by (simp only: of_nat_1)
    ultimately show "0 \<le> ?f c \<and> ?f c \<le> real (unat c) / real ?n * log 2 (real ?n)"
      by (intro term_bounds)
  qed
  from sum_list_bounds [OF this] have "0 \<le> h \<and> h \<le> real (sum_list (map unat ?cs)) / real ?n * log 2 (real ?n)"
    unfolding hs sum_list_scaled .
  then show ?thesis using n by (simp only: total) simp
qed

end
