(* ===== verification/Redact_Keyvalue.thy ===== *)
theory Redact_Keyvalue
  imports Redact_Detector
begin

text \<open>
  Preferred matches. The value that a gated pattern captures depends on which of several possible
  matches the engine reports; \<open>leftmost_first\<close> is the documented rule of the \<open>regex\<close> crate.
  \<open>first_step\<close> computes the preferred match of an expression piece by piece.
\<close>

section \<open>The preferred match\<close>

text \<open>Of all matches the one that starts first is reported, and of those the preferred one.\<close>

definition leftmost_first :: "rx_classes \<Rightarrow> regex_engine \<Rightarrow> bool" where
  "leftmost_first C E \<longleftrightarrow>
     (\<forall>r s i j c qs. i \<le> length s \<longrightarrow> (\<forall>k < i. rx_steps C s r False (k, None) = []) \<longrightarrow>
        rx_steps C s r False (i, None) = (j, c) # qs \<longrightarrow>
        (span_of s i j, map_option (\<lambda>(a, b). span_of s a b) c) \<in> set (captures_iter E r s))"

lemma rx_scan_first:
  assumes "k \<le> i" "i \<le> length s" "\<forall>n. k \<le> n \<longrightarrow> n < i \<longrightarrow> rx_steps C s r False (n, None) = []"
    and "rx_steps C s r False (i, None) = (j, c) # qs"
  shows "(i, j, c) \<in> set (rx_scan C r s k)"
  using assms
proof (induction "i - k" arbitrary: k)
  case 0
  then show ?case by (subst rx_scan.simps) simp
next
  case (Suc d)
  then have k: "k < i" by simp
  have "(i, j, c) \<in> set (rx_scan C r s (Suc k))" using Suc.hyps(2) Suc.prems k by (intro Suc.hyps(1)) auto
  moreover have "rx_steps C s r False (k, None) = []" using Suc.prems(3) k by simp
  ultimately show ?case using k assms(2) by (subst rx_scan.simps) simp
qed

lemma reference_leftmost_first: "leftmost_first C (reference_engine C parse)"
  unfolding leftmost_first_def
proof (intro allI impI)
  fix r s i j c qs
  assume "i \<le> length s" "\<forall>k < i. rx_steps C s r False (k, None) = []"
    "rx_steps C s r False (i, None) = (j, c) # qs"
  then have "(i, j, c) \<in> set (rx_scan C r s 0)" by (intro rx_scan_first) simp_all
  then show "(span_of s i j, map_option (\<lambda>(a, b). span_of s a b) c)
      \<in> set (captures_iter (reference_engine C parse) r s)"
    by (force simp: reference_engine_def rx_captures_def)
qed

definition first_step :: "rx_classes \<Rightarrow> str \<Rightarrow> bool \<Rightarrow> rx \<Rightarrow> rx_pos \<Rightarrow> rx_pos \<Rightarrow> bool" where
  "first_step C s ci r p q \<longleftrightarrow> (\<exists>qs. rx_steps C s r ci p = q # qs)"

lemma first_Empty: "first_step C s ci Empty p p"
  by (simp add: first_step_def)

lemma first_Seq: "first_step C s ci a p k \<Longrightarrow> first_step C s ci b k q \<Longrightarrow> first_step C s ci (Seq a b) p q"
  by (auto simp: first_step_def)

lemma first_seq:
  "first_step C s ci (rx_seq []) p p"
  "first_step C s ci r p k \<Longrightarrow> first_step C s ci (rx_seq rs) k q \<Longrightarrow>
   first_step C s ci (rx_seq (r # rs)) p q"
  by (auto simp: rx_seq_def intro: first_Empty first_Seq)

lemma first_Alt: "first_step C s ci a p q \<Longrightarrow> first_step C s ci (Alt a b) p q"
  by (auto simp: first_step_def)

lemma first_Val: "first_step C s ci r (i, v) (j, w) \<Longrightarrow> first_step C s ci (Val r) (i, v) (j, Some (i, j))"
  by (auto simp: first_step_def)

lemma first_Ch: "i < length s \<Longrightarrow> s ! i = c \<Longrightarrow> first_step C s ci (Ch c) (i, v) (Suc i, v)"
  by (simp add: first_step_def class_mem_def)

text \<open>A greedy run of a class takes all it can.\<close>

definition in_class :: "rx_classes \<Rightarrow> str \<Rightarrow> bool \<Rightarrow> bool \<Rightarrow> class_item list \<Rightarrow> nat \<Rightarrow> bool" where
  "in_class C s ci n items i \<longleftrightarrow> i < length s \<and> class_mem C ci n items (s ! i)"

lemma cls_steps:
  "rx_steps C s (Cls n items) ci (i, v) = (if in_class C s ci n items i then [(Suc i, v)] else [])"
  by (simp add: in_class_def)

lemma first_run:
  assumes "\<forall>d < k. in_class C s ci n items (i + d)" "\<not> in_class C s ci n items (i + k)"
    and "lo \<le> k" "k < fuel"
  shows "\<exists>qs. rx_rep (rx_steps C s (Cls n items) ci) fuel lo None (i, v) = (i + k, v) # qs"
  using assms
proof (induction k arbitrary: i fuel lo)
  case 0
  then obtain fu where "fuel = Suc fu" by (cases fuel) auto
  with 0 show ?case by (simp add: cls_steps del: rx_steps.simps)
next
  case (Suc k)
  then obtain fu where fu: "fuel = Suc fu" by (cases fuel) auto
  have c: "in_class C s ci n items i" using Suc.prems(1) by (metis add_0_right zero_less_Suc)
  have "\<forall>d < k. in_class C s ci n items (Suc i + d)" using Suc.prems(1) by (metis Suc_less_eq add_Suc_shift)
  moreover have "\<not> in_class C s ci n items (Suc i + k)" using Suc.prems(2) by simp
  moreover have "lo - 1 \<le> k" "k < fu" using Suc.prems(3,4) fu by simp_all
  ultimately obtain qs where
    "rx_rep (rx_steps C s (Cls n items) ci) fu (lo - 1) None (Suc i, v) = (Suc i + k, v) # qs"
    using Suc.IH by blast
  with c show ?case by (simp add: fu cls_steps del: rx_steps.simps)
qed

lemma first_class_run:
  assumes "\<forall>d < k. in_class C s ci n items (i + d)" "\<not> in_class C s ci n items (i + k)" "lo \<le> k" "i + k \<le> length s"
  shows "first_step C s ci (Rep (Cls n items) lo None) (i, v) (i + k, v)"
  unfolding first_step_def rx_steps.simps(6) by (rule first_run) (use assms in auto)

lemma first_word:
  assumes "slice s i (i + length w) = lit w" "i + length w \<le> length s"
  shows "first_step C s ci (rx_str w) (i, v) (i + length w, v)"
  using assms
proof (induction w arbitrary: i)
  case (Cons c w)
  have "s ! i # slice s (Suc i) (Suc i + length w) = of_char c # lit w"
    using Cons.prems slice_Cons [of i s "length w"] by (simp add: lit_def)
  then have c: "s ! i = of_char c" "slice s (Suc i) (Suc i + length w) = lit w" by simp_all
  have "first_step C s ci (rx_str w) (Suc i, v) (Suc i + length w, v)"
    using c(2) Cons.prems(2) by (intro Cons.IH) simp_all
  moreover have "first_step C s ci (Ch (of_char c)) (i, v) (Suc i, v)"
    using c(1) Cons.prems(2) by (intro first_Ch) simp_all
  ultimately show ?case by (auto simp: rx_str_def lit_def intro: first_seq(2))
qed (simp add: rx_str_def lit_def first_seq(1))

section \<open>Case folding and the characters of a value\<close>

text \<open>
  Unicode facts about ASCII: which characters are white space, that only letters have case variants,
  that a variant is no white space, and that the ASCII variant of a letter is the letter in the other
  case.
\<close>

definition fold_ok :: "rx_classes \<Rightarrow> bool" where
  "fold_ok C \<longleftrightarrow> (\<forall>c < 128. space_char C c \<longleftrightarrow> c = 32 \<or> 9 \<le> c \<and> c \<le> 13) \<and>
     (\<forall>c < 128. \<forall>d \<in> set (variants C c). 65 \<le> d \<and> \<not> space_char C d \<and>
        (is_ascii_uppercase c \<or> is_ascii_lowercase c) \<and> (d < 128 \<longrightarrow> d = c + 32 \<or> c = d + 32))"

definition value_char :: "nat \<Rightarrow> bool" where
  "value_char c \<longleftrightarrow> 33 \<le> c \<and> c \<le> 126 \<and> c \<noteq> 34 \<and> c \<noteq> 39"

definition value_end :: "nat \<Rightarrow> bool" where
  "value_end c \<longleftrightarrow> c = 32 \<or> 9 \<le> c \<and> c \<le> 13 \<or> c = 34 \<or> c = 39"

lemma fold_okD:
  assumes "fold_ok C" "c < 128"
  shows "space_char C c \<longleftrightarrow> c = 32 \<or> 9 \<le> c \<and> c \<le> 13"
    "d \<in> set (variants C c) \<Longrightarrow> 65 \<le> d \<and> \<not> space_char C d"
    "d \<in> set (variants C c) \<Longrightarrow> is_ascii_uppercase c \<or> is_ascii_lowercase c"
    "d \<in> set (variants C c) \<Longrightarrow> d < 128 \<Longrightarrow> d = c + 32 \<or> c = d + 32"
  using assms unfolding fold_ok_def by blast+

lemma visible_no_space:
  assumes "fold_ok C" "33 \<le> c" "c \<le> 126"
  shows "\<not> class_mem C True False [Space] c"
proof -
  have "\<not> space_char C c" "\<forall>d \<in> set (variants C c). \<not> space_char C d"
    using fold_okD [OF assms(1), of c] assms(2,3) by auto
  then show ?thesis by (simp add: class_mem_def list_ex_iff)
qed

lemma value_char_class:
  assumes "fold_ok C" "value_char c"
  shows "class_mem C True True (Space # quote_items) c" "\<not> class_mem C True False quote_items c"
proof -
  have c: "33 \<le> c" "c \<le> 126" "c \<noteq> 34" "c \<noteq> 39" using assms(2) by (simp_all add: value_char_def)
  have no: "\<not> space_char C c" "\<forall>d \<in> set (variants C c). \<not> space_char C d \<and> d \<noteq> 34 \<and> d \<noteq> 39"
    using fold_okD [OF assms(1), of c] c by fastforce+
  show "\<not> class_mem C True False quote_items c"
    using no c by (auto simp: class_mem_def quote_items_def one_def rng_def list_ex_iff)
  show "class_mem C True True (Space # quote_items) c"
    using no c by (auto simp: class_mem_def quote_items_def one_def rng_def list_ex_iff)
qed

lemma value_end_class:
  assumes "fold_ok C" "value_end c"
  shows "\<not> class_mem C True True (Space # quote_items) c"
  using assms by (auto simp: fold_ok_def value_end_def class_mem_def quote_items_def)

text \<open>The capture of the value is the value.\<close>

lemma prefix_char_boundary:
  assumes "valid_str (a @ b)"
  shows "is_char_boundary (a @ b) (length (as_bytes a))"
proof (cases b)
  case (Cons c b')
  have "is_scalar c" using assms by (simp add: Cons valid_str_def)
  then have "\<not> is_cont (utf8_char c ! 0)" by (rule utf8_char_first)
  then show ?thesis
    using length_utf8_char_pos [of c] by (simp add: Cons is_char_boundary_def nth_append Let_def)
qed (simp add: is_char_boundary_def)

lemma str_slice_mid:
  assumes "valid_str (a @ m @ b)"
  shows "str_slice (a @ m @ b) (length (as_bytes a)) (length (as_bytes (a @ m))) = Some m"
proof -
  have "is_char_boundary (a @ m @ b) (length (as_bytes a))"
    "is_char_boundary (a @ m @ b) (length (as_bytes (a @ m)))"
    using prefix_char_boundary [of a "m @ b"] prefix_char_boundary [of "a @ m" b] assms by simp_all
  moreover have "slice (as_bytes (a @ m @ b)) (length (as_bytes a)) (length (as_bytes (a @ m))) = as_bytes m"
    by (simp add: slice_def)
  moreover have "valid_str m" using assms by (simp add: valid_str_def)
  ultimately show ?thesis by (simp add: str_slice_def from_utf8_as_bytes)
qed

lemma capture_mid:
  assumes "valid_str (a @ m @ b)"
  shows "capture_str (a @ m @ b) (Some (span_of (a @ m @ b) (length a) (length a + length m))) = m"
  using str_slice_mid [OF assms] by (simp add: capture_str_def span_of_def byte_at_def)

lemma gated_found:
  assumes "(w, v) \<in> set (captures_iter E r text)" "looks_like_secret_value (capture_str text v)"
  shows "\<exists>m \<in> set (push_gated E r text kind out). raw_span m = w"
  using assms by (cases w) (force simp: push_gated_def raw_span_def)

lemma long_secret_value: "looks_like_secret_value v \<Longrightarrow> 8 \<le> length v"
proof -
  have "length (trim_matches (\<lambda>c. c = 34 \<or> c = 39) v) \<le> length v"
    unfolding trim_matches_def by (metis length_dropWhile_le length_rev le_trans)
  then show "looks_like_secret_value v \<Longrightarrow> 8 \<le> length v"
    by (auto simp: looks_like_secret_value_def Let_def split: if_splits)
qed

text \<open>A match of the key/value pattern is reported, or its span overlaps a reported URL.\<close>

lemma kv_literal:
  assumes "m \<in> set (kv_matches E text [])"
  shows "literal_matches E text config \<noteq> []"
proof -
  let ?urls = "url_matches E text []" and ?ms = "gated_literal_matches E text (provider_matches E text [])"
  let ?kv = "filter (\<lambda>m. \<not> overlaps_any (rm_start m) (rm_end m) (map raw_span ?urls)) (kv_matches E text [])"
  have "?urls @ ?kv \<noteq> []"
  proof (cases ?urls)
    case Nil
    with assms have "m \<in> set ?kv" by (simp add: overlaps_any_def)
    then show ?thesis by (cases ?kv) simp_all
  qed simp
  moreover have "set (?ms @ ?urls @ ?kv) \<subseteq> set (literal_matches E text config)"
    unfolding literal_matches_def by (rule user_matches_subset)
  ultimately show ?thesis by (cases "?urls @ ?kv") auto
qed

lemma literal_is_secret:
  assumes "engine_ok C E" "valid_str text" "length (as_bytes text) < 2 ^ 32"
    and "literal_matches E text config \<noteq> []"
  shows "is_secret prof F E text config = Some True"
proof -
  obtain raws where "collect_raw prof F E text config = Some raws"
    "set (literal_matches E text config) \<subseteq> set raws"
    using collect_raw_exact [OF assms(1-3)] by metis
  with assms(4) show ?thesis by (auto simp: is_secret_def)
qed

text \<open>The first place where a provider pattern matches lies in a reported span.\<close>

lemma provider_token_covered_at:
  assumes "engine_ok C E" "leftmost_first C E" "valid_str text" "length (as_bytes text) < 2 ^ 32"
    and "(r, k) \<in> set provider_patterns" "n \<le> length text" "rx_match C r text n q"
    and "\<And>l p. l < n \<Longrightarrow> \<not> rx_match C r text l p"
  shows "\<exists>ms. detect_secrets prof F E text config = Some ms \<and>
    (\<exists>s \<in> set ms. unat (sm_start s) \<le> n \<and> n < unat (sm_end s))"
proof -
  have none: "\<forall>l < n. rx_steps C text r False (l, None) = []"
  proof (intro allI impI)
    fix l assume "l < n"
    then show "rx_steps C text r False (l, None) = []"
    proof (cases "rx_steps C text r False (l, None)")
      case (Cons p ps)
      then have "rx_match C r text l p" by (simp add: rx_match_def)
      with assms(8) [OF \<open>l < n\<close>] show ?thesis by blast
    qed
  qed
  obtain j c qs where "rx_steps C text r False (n, None) = (j, c) # qs"
    using assms(7) unfolding rx_match_def by (cases "rx_steps C text r False (n, None)") auto
  with assms(2,6) none have "(span_of text n j, map_option (\<lambda>(a, b). span_of text a b) c) \<in> set (captures_iter E r text)"
    unfolding leftmost_first_def by blast
  then have "span_of text n j \<in> set (map fst (captures_iter E r text))" by force
  then have "(byte_at text n, byte_at text j) \<in> set (find_iter E r text)"
    by (simp only: engine_find_eq [OF assms(1)] span_of_def)
  note pushed = provider_span_pushed [OF assms(1,5) this, of "[]"]
  obtain raws where raws: "collect_raw prof F E text config = Some raws"
    "set (literal_matches E text config) \<subseteq> set raws"
    using collect_raw_exact [OF assms(1,3,4)] by metis
  with pushed have "\<lparr>rm_start = byte_at text n, rm_end = byte_at text j, rm_kind = k, rm_confidence = High\<rparr> \<in> set raws"
    using provider_matches_literal by blast
  from raw_match_covered [OF assms(1,3,4) raws(1) this _ assms(6)] show ?thesis by simp
qed

end
