(* ===== verification/Redact_Precision.thy ===== *)
theory Redact_Precision
  imports Redact_Mask Redact_Keyvalue
begin

text \<open>
  What a match cannot do without: the fixed beginnings of the provider tokens and the signs of the
  structural patterns; and which runs of characters the entropy heuristic lets pass.
\<close>

section \<open>Pieces of a match\<close>

lemma rx_seq_piece:
  assumes "q \<in> set (rx_steps C s (rx_seq rs) ci p)" "fst p \<le> length s" "r \<in> set rs"
  shows "\<exists>p' q'. fst p' \<le> length s \<and> q' \<in> set (rx_steps C s r ci p')"
  using assms
proof (induction rs arbitrary: p)
  case (Cons a rs)
  from Cons.prems(1) obtain k where k: "k \<in> set (rx_steps C s a ci p)"
    "q \<in> set (rx_steps C s (rx_seq rs) ci k)" by auto
  have le: "fst k \<le> length s" by (rule step_ok_bound [OF rx_steps_ok [OF Cons.prems(2) k(1)]])
  show ?case
  proof (cases "r = a")
    case True
    with k(1) Cons.prems(2) show ?thesis by blast
  next
    case False
    with Cons.prems(3) have "r \<in> set rs" by simp
    with k(2) le show ?thesis by (rule Cons.IH)
  qed
qed simp

lemma slice_contains: "slice s i j = w \<Longrightarrow> contains_str s w"
  unfolding contains_str_iff slice_def by (metis append_take_drop_id)

lemma rx_str_exact:
  assumes "q \<in> set (rx_steps C s (rx_str w) False p)" "fst p \<le> length s"
  shows "fst q = fst p + length w \<and> fst q \<le> length s \<and> slice s (fst p) (fst q) = lit w"
  using assms
proof (induction w arbitrary: p)
  case Nil
  then show ?case by (simp add: rx_str_def lit_def slice_def)
next
  case (Cons c w)
  let ?k = "(Suc (fst p), snd p)"
  have here: "fst p < length s" "s ! fst p = of_char c" "q \<in> set (rx_steps C s (rx_str w) False ?k)"
    using Cons.prems(1) by (auto simp: rx_str_def lit_def class_mem_def split: if_splits)
  have "fst ?k \<le> length s" using here(1) by simp
  note rest = Cons.IH [OF here(3) this]
  have "slice s (fst p) (Suc (fst p)) @ slice s (Suc (fst p)) (fst q) = slice s (fst p) (fst q)"
    using rest by (intro slice_slice_append) simp_all
  moreover have "slice s (Suc (fst p)) (fst q) = lit w" using rest unfolding fst_conv by blast
  ultimately have "slice s (fst p) (fst q) = lit (c # w)"
    using here(2) slice_Suc [OF here(1)] by (simp add: lit_def del: slice_slice_append)
  with rest show ?case by simp
qed

lemma rx_strD:
  assumes "q \<in> set (rx_steps C s (rx_str w) False p)" "fst p \<le> length s"
  shows "fst q = fst p + length w" "fst q \<le> length s" "slice s (fst p) (fst q) = lit w"
  using rx_str_exact [OF assms] by blast+

lemma rx_strs_exact:
  assumes "q \<in> set (rx_steps C s (rx_strs ws) False p)" "fst p \<le> length s"
  shows "\<exists>w \<in> set ws. fst q = fst p + length w \<and> fst q \<le> length s \<and> slice s (fst p) (fst q) = lit w"
proof -
  from assms(1) obtain w where "w \<in> set ws" "q \<in> set (rx_steps C s (rx_str w) False p)"
    by (auto simp: rx_strs_def rx_alt_steps)
  with rx_str_exact [OF this(2) assms(2)] show ?thesis by blast
qed

lemma contains_str_piece:
  assumes "rx_match C (rx_seq rs) s i q" "i \<le> length s" "rx_str w \<in> set rs"
  shows "contains_str s (lit w)"
proof -
  have m: "q \<in> set (rx_steps C s (rx_seq rs) False (i, None))" "fst (i, None :: (nat \<times> nat) option) \<le> length s"
    using assms(1,2) by (simp_all add: rx_match_def)
  obtain p' q' where "fst p' \<le> length s" "q' \<in> set (rx_steps C s (rx_str w) False p')"
    using rx_seq_piece [OF m assms(3)] by blast
  then show ?thesis using rx_str_exact slice_contains by blast
qed

text \<open>A character that every match has to contain, up to its case.\<close>

definition has_char :: "rx_classes \<Rightarrow> nat list \<Rightarrow> str \<Rightarrow> bool" where
  "has_char C cs s \<longleftrightarrow> (\<exists>d \<in> set s. d \<in> set cs \<or> (\<exists>e \<in> set (variants C d). e \<in> set cs))"

lemma char_piece:
  assumes "q \<in> set (rx_steps C s (Ch c) ci p)"
  shows "has_char C [c] s"
  using assms by (auto simp: has_char_def class_mem_def list_ex_iff intro!: bexI [of _ "s ! fst p"] split: if_splits)

lemma str_char_piece:
  assumes "q \<in> set (rx_steps C s (rx_str w) ci p)" "fst p \<le> length s" "c \<in> set w"
  shows "has_char C [of_char c] s"
proof -
  have "Ch (of_char c) \<in> set (map Ch (lit w))" using assms(3) by (simp add: lit_def)
  with assms(1,2) obtain p' q' where "q' \<in> set (rx_steps C s (Ch (of_char c)) ci p')"
    using rx_seq_piece [of q C s "map Ch (lit w)"] unfolding rx_str_def by blast
  then show ?thesis by (rule char_piece)
qed

lemma ones_step:
  "q \<in> set (rx_steps C s (Cls False (map one w)) False p) \<Longrightarrow>
   \<exists>c \<in> set w. fst p < length s \<and> s ! fst p = of_char c \<and> q = (Suc (fst p), snd p)"
  by (auto simp: class_mem_def list_ex_iff one_def rng_def split: if_splits)

section \<open>The beginnings of the provider tokens\<close>

definition token_beginnings :: "str list" where
  "token_beginnings = map lit (map (\<lambda>k. ''gh'' @ k # ''_'') ''posru'' @
     [''github_pat_'', ''sk-'', ''sk_'', ''rk_'', ''glpat-'', ''AKIA'', ''ASIA'', ''AGPA'', ''AIDA'', ''AROA'',
      ''AIPA'', ''ANPA'', ''ANVA'', ''eyJ'', ''xox'', ''xapp'', ''https://hooks.slack.com/services/T'', ''AIza'',
      ''GOCSPX-'', ''SG.'', ''npm_'', ''-----BEGIN ''])"

lemma contains_joined:
  "slice s i j = a \<Longrightarrow> slice s j k = b \<Longrightarrow> i \<le> j \<Longrightarrow> j \<le> k \<Longrightarrow> contains_str s (a @ b)"
  using slice_slice_append [of i j k s] slice_contains by metis

lemma github_beginning:
  assumes "rx_match C GITHUB_TOKEN s i q" "i \<le> length s"
  shows "\<exists>k \<in> set ''posru''. contains_str s (lit (''gh'' @ k # ''_''))"
proof -
  obtain k1 k2 k3 where k: "k1 \<in> set (rx_steps C s (rx_str ''gh'') False (i, None))"
    "k2 \<in> set (rx_steps C s (Cls False (map one ''posru'')) False k1)"
    "k3 \<in> set (rx_steps C s (rx_str ''_'') False k2)"
    using assms(1) unfolding rx_match_def GITHUB_TOKEN_def rx_seq_steps
    by (auto simp del: rx_steps.simps(2,3,6) simp: rx_steps.simps(7) split: if_splits)
  have a: "fst k1 = i + 2" "fst k1 \<le> length s" "slice s i (fst k1) = lit ''gh''"
    using rx_strD [OF k(1)] assms(2) by simp_all
  obtain c where c: "c \<in> set ''posru''" "fst k1 < length s" "s ! fst k1 = of_char c" "k2 = (Suc (fst k1), snd k1)"
    using ones_step [OF k(2)] by blast
  have b: "fst k3 = Suc (fst k2)" "slice s (fst k2) (fst k3) = lit ''_''"
    using rx_strD [OF k(3)] c(2,4) by simp_all
  have "slice s (fst k1) (fst k2) @ slice s (fst k2) (fst k3) = slice s (fst k1) (fst k3)"
    using b(1) c(4) by (intro slice_slice_append) simp_all
  then have "slice s (fst k1) (fst k3) = lit (c # ''_'')"
    using b(2) c(3,4) slice_Suc [OF c(2)] by (simp add: lit_def)
  from contains_joined [OF a(3) this] a(1) b(1) c(4) have "contains_str s (lit (''gh'' @ c # ''_''))"
    by (simp add: lit_def)
  with c(1) show ?thesis by blast
qed

lemma stripe_beginning:
  assumes "rx_match C STRIPE_KEY s i q" "i \<le> length s"
  shows "contains_str s (lit ''sk_'') \<or> contains_str s (lit ''rk_'')"
proof -
  obtain k1 k2 where k: "k1 \<in> set (rx_steps C s (rx_strs [''sk'', ''rk'']) False (i, None))"
    "k2 \<in> set (rx_steps C s (rx_str ''_'') False k1)"
    using assms(1) unfolding rx_match_def STRIPE_KEY_def rx_seq_steps
    by (auto simp del: rx_steps.simps(2,3,6) simp: rx_steps.simps(7) split: if_splits)
  have a: "fst k1 = i + 2" "fst k1 \<le> length s" "slice s i (fst k1) = lit ''sk'' \<or> slice s i (fst k1) = lit ''rk''"
    using rx_strs_exact [OF k(1)] assms(2) by auto
  have "fst k2 = Suc (fst k1)" "slice s (fst k1) (fst k2) = lit ''_''"
    using rx_strD [OF k(2) a(2)] by simp_all
  with a contains_joined [of s i "fst k1" _ "fst k2" "lit ''_''"] show ?thesis by (auto simp: lit_def)
qed

lemma aws_beginning:
  assumes "rx_match C AWS_ACCESS_KEY_ID s i q" "i \<le> length s"
  shows "\<exists>w \<in> {''AKIA'', ''ASIA'', ''AGPA'', ''AIDA'', ''AROA'', ''AIPA'', ''ANPA'', ''ANVA''}. contains_str s (lit w)"
proof -
  obtain k where "k \<in> set (rx_steps C s
      (rx_strs [''AKIA'', ''ASIA'', ''AGPA'', ''AIDA'', ''AROA'', ''AIPA'', ''ANPA'', ''ANVA'']) False (i, None))"
    using assms(1) unfolding rx_match_def AWS_ACCESS_KEY_ID_def rx_seq_steps
    by (auto simp del: rx_steps.simps(2,3,6) simp: rx_steps.simps(7) split: if_splits)
  from rx_strs_exact [OF this] assms(2) slice_contains show ?thesis by fastforce
qed

lemma slack_beginning:
  assumes "rx_match C SLACK_TOKEN s i q" "i \<le> length s"
  shows "contains_str s (lit ''xox'') \<or> contains_str s (lit ''xapp'')"
proof -
  obtain k where "k \<in> set (rx_steps C s (rx_seq [rx_str ''xox'', Cls False (map one ''baprse'')]) False (i, None)) \<or>
      k \<in> set (rx_steps C s (rx_str ''xapp'') False (i, None))"
  proof -
    obtain k0 k where "k0 \<in> set (rx_steps C s Word_Boundary False (i, None))"
      "k \<in> set (rx_steps C s (Alt (rx_seq [rx_str ''xox'', Cls False (map one ''baprse'')]) (rx_str ''xapp'')) False k0)"
      using assms(1) unfolding rx_match_def SLACK_TOKEN_def rx_seq_steps rx_alt.simps by blast
    then show thesis using that unfolding rx_steps.simps(5,7) by (auto simp del: rx_steps.simps rx_seq_steps split: if_splits)
  qed
  then show ?thesis
  proof
    assume "k \<in> set (rx_steps C s (rx_seq [rx_str ''xox'', Cls False (map one ''baprse'')]) False (i, None))"
    then have "rx_match C (rx_seq [rx_str ''xox'', Cls False (map one ''baprse'')]) s i k" by (simp only: rx_match_def)
    from contains_str_piece [OF this assms(2)] show ?thesis by simp
  next
    assume "k \<in> set (rx_steps C s (rx_str ''xapp'') False (i, None))"
    from rx_str_exact [OF this] assms(2) slice_contains show ?thesis by fastforce
  qed
qed

lemma provider_beginning:
  assumes "(r, k) \<in> set provider_patterns" "rx_match C r s i q" "i \<le> length s"
  shows "\<exists>t \<in> set token_beginnings. contains_str s t"
proof -
  have found: ?thesis if "contains_str s (lit w)" "lit w \<in> set token_beginnings" for w using that by blast
  have piece: ?thesis if "r = rx_seq rs" "rx_str w \<in> set rs" "lit w \<in> set token_beginnings" for w rs
    using contains_str_piece [OF _ assms(3) that(2)] assms(2) that(1,3) by blast
  note known = token_beginnings_def
  from assms(1) consider "r = GITHUB_TOKEN" | "r = STRIPE_KEY" | "r = AWS_ACCESS_KEY_ID" | "r = SLACK_TOKEN"
    | "r = GITHUB_PAT" | "r = OPENAI_KEY" | "r = GITLAB_TOKEN" | "r = JWT" | "r = SLACK_WEBHOOK"
    | "r = GOOGLE_API_KEY" | "r = GOOGLE_OAUTH_SECRET" | "r = SENDGRID_KEY" | "r = NPM_TOKEN"
    | "r = PRIVATE_KEY_BLOCK"
    unfolding provider_patterns_def by (simp only: set_simps insert_iff prod.inject empty_iff) blast
  then show ?thesis
  proof cases
    case 1
    from github_beginning [OF assms(2) [unfolded 1] assms(3)] show ?thesis
      by (rule bexE) (rule found, assumption, simp add: known, blast)
  next
    case 2
    from stripe_beginning [OF assms(2) [unfolded 2] assms(3)] show ?thesis
      by (rule disjE) (erule found, simp add: known)+
  next
    case 3
    from aws_beginning [OF assms(2) [unfolded 3] assms(3)] show ?thesis
      by (rule bexE) (rule found, assumption, simp add: known, blast)
  next
    case 4
    from slack_beginning [OF assms(2) [unfolded 4] assms(3)] show ?thesis
      by (rule disjE) (erule found, simp add: known)+
  next
    case 5
    then show ?thesis unfolding GITHUB_PAT_def by (rule piece [where w = "''github_pat_''"]) (simp_all add: known)
  next
    case 6
    then show ?thesis unfolding OPENAI_KEY_def by (rule piece [where w = "''sk-''"]) (simp_all add: known)
  next
    case 7
    then show ?thesis unfolding GITLAB_TOKEN_def by (rule piece [where w = "''glpat-''"]) (simp_all add: known)
  next
    case 8
    then show ?thesis unfolding JWT_def by (rule piece [where w = "''eyJ''"]) (simp_all add: known)
  next
    case 9
    then show ?thesis unfolding SLACK_WEBHOOK_def by (rule piece [where w = "''https://hooks.slack.com/services/T''"]) (simp_all add: known)
  next
    case 10
    then show ?thesis unfolding GOOGLE_API_KEY_def by (rule piece [where w = "''AIza''"]) (simp_all add: known)
  next
    case 11
    then show ?thesis unfolding GOOGLE_OAUTH_SECRET_def by (rule piece [where w = "''GOCSPX-''"]) (simp_all add: known)
  next
    case 12
    then show ?thesis unfolding SENDGRID_KEY_def by (rule piece [where w = "''SG.''"]) (simp_all add: known)
  next
    case 13
    then show ?thesis unfolding NPM_TOKEN_def by (rule piece [where w = "''npm_''"]) (simp_all add: known)
  next
    case 14
    then show ?thesis unfolding PRIVATE_KEY_BLOCK_def by (rule piece [where w = "''-----BEGIN ''"]) (simp_all add: known)
  qed
qed

lemma nothing_found:
  assumes "engine_ok C E" "\<And>i q. i \<le> length s \<Longrightarrow> \<not> rx_match C r s i q"
  shows "find_iter E r s = []" "captures_iter E r s = []"
proof -
  show c: "captures_iter E r s = []"
  proof (rule ccontr)
    assume "captures_iter E r s \<noteq> []"
    then obtain w v where "(w, v) \<in> set (captures_iter E r s)" by (cases "captures_iter E r s") auto
    with assms(1) show False by (rule engine_capture) (use assms(2) in blast)
  qed
  show "find_iter E r s = []" using engine_find_eq [OF assms(1), of r s] c by simp
qed

lemma no_provider_matches:
  assumes "engine_ok C E" "\<forall>t \<in> set token_beginnings. \<not> contains_str s t"
  shows "provider_matches E s [] = []"
proof -
  have "find_iter E r s = []" if "(r, k) \<in> set provider_patterns" for r k
    using provider_beginning [OF that] assms(2) by (intro nothing_found(1) [OF assms(1)]) blast
  moreover have "fold (\<lambda>(r, kind). push_all (find_iter E r s) kind) ps [] = []"
    if "\<forall>(r, k) \<in> set ps. find_iter E r s = []" for ps
    using that by (induction ps) (auto simp: push_all_def)
  ultimately show ?thesis unfolding provider_matches_def by blast
qed

section \<open>The signs of the structural patterns\<close>

text \<open>A Unicode fact: an ASCII character that is no letter is no case variant of any character.\<close>

definition signs_ok :: "rx_classes \<Rightarrow> bool" where
  "signs_ok C \<longleftrightarrow> (\<forall>c. \<forall>d \<in> set (variants C c). d < 128 \<longrightarrow> is_ascii_uppercase d \<or> is_ascii_lowercase d)"

lemma has_sign:
  assumes "signs_ok C" "has_char C cs s" "\<forall>c \<in> set cs. c < 128 \<and> \<not> is_ascii_uppercase c \<and> \<not> is_ascii_lowercase c"
  shows "\<exists>c \<in> set cs. c \<in> set s"
  using assms unfolding has_char_def signs_ok_def by blast

lemma nocase_char:
  assumes "rx_match C (NoCase (rx_seq rs)) s i q" "i \<le> length s" "rx_str w \<in> set rs" "c \<in> set w"
  shows "has_char C [of_char c] s"
proof -
  have m: "q \<in> set (rx_steps C s (rx_seq rs) True (i, None))" "fst (i, None :: (nat \<times> nat) option) \<le> length s"
    using assms(1,2) by (simp_all add: rx_match_def)
  from rx_seq_piece [OF m assms(3)] str_char_piece assms(4) show ?thesis by blast
qed

lemma key_value_sign:
  assumes "rx_match C KEY_VALUE_SECRET s i q" "i \<le> length s"
  shows "has_char C [58, 61] s"
proof -
  have m: "q \<in> set (rx_steps C s (rx_seq [rx_alt [Text_Start, Cls True upper_lower_digit],
      rx_alt [rx_strs [''password'', ''passwd'', ''pwd'', ''secret''], api_key_name,
        rx_strs [''client_secret'', ''secret_key'', ''access_key'', ''aws_secret_access_key'',
          ''private_key'', ''auth_token'']],
      rx_star (Cls False [Space]), Cls False [one CHR '':'', one CHR ''=''],
      rx_star (Cls False [Space]), rx_opt (Cls False quote_items),
      Val (rx_least (Cls True (Space # quote_items)) 4)]) True (i, None))"
    using assms(1) by (simp add: rx_match_def KEY_VALUE_SECRET_def del: rx_seq_steps)
  have "\<exists>p' q'. fst p' \<le> length s \<and> q' \<in> set (rx_steps C s (Cls False [one CHR '':'', one CHR ''='']) True p')"
    by (rule rx_seq_piece [OF m]) (use assms(2) in simp_all)
  then obtain p' q' where "q' \<in> set (rx_steps C s (Cls False [one CHR '':'', one CHR ''='']) True p')" by blast
  then have "s ! fst p' \<in> set s" "class_mem C True False [Range 58 58, Range 61 61] (s ! fst p')"
    by (simp_all add: one_def rng_def split: if_splits)
  then show ?thesis unfolding has_char_def
    by (intro bexI [of _ "s ! fst p'"]) (auto simp: class_mem_def list_ex_iff)
qed

lemma structural_sign:
  assumes "signs_ok C" "i \<le> length s" "rx_match C r s i q"
    and "r \<in> {CONNECTION_STRING, AUTHZ_BEARER, URL_EMBEDDED_SECRET, KEY_VALUE_SECRET, DATA_URI}"
  shows "58 \<in> set s \<or> 61 \<in> set s"
proof -
  have at: ?thesis if "has_char C cs s" "set cs \<subseteq> {58, 61}" for cs
    using has_sign [OF assms(1) that(1)] that(2) by (fastforce simp: ascii_defs)
  have piece: ?thesis if "r = NoCase (rx_seq rs)" "rx_str w \<in> set rs" "c \<in> set w" "of_char c \<in> {58, 61 :: nat}" for rs w c
    using at [OF nocase_char [OF assms(3) [unfolded that(1)] assms(2) that(2,3)]] that(4) by simp
  from assms(4) consider "r = KEY_VALUE_SECRET" | "r = CONNECTION_STRING" | "r = AUTHZ_BEARER"
    | "r = URL_EMBEDDED_SECRET" | "r = DATA_URI" by blast
  then show ?thesis
  proof cases
    case 1
    show ?thesis by (rule at [OF key_value_sign [OF assms(3) [unfolded 1] assms(2)]]) simp
  next
    case 2
    then show ?thesis unfolding CONNECTION_STRING_def
      by (rule piece [where w = "''://''" and c = "CHR '':''"]) simp_all
  next
    case 3
    then show ?thesis unfolding AUTHZ_BEARER_def
      by (rule piece [where w = "'':''" and c = "CHR '':''"]) simp_all
  next
    case 4
    then show ?thesis unfolding URL_EMBEDDED_SECRET_def
      by (rule piece [where w = "''=''" and c = "CHR ''=''"]) simp_all
  next
    case 5
    then show ?thesis unfolding DATA_URI_def
      by (rule piece [where w = "''data:''" and c = "CHR '':''"]) simp_all
  qed
qed

section \<open>The words that the entropy heuristic looks at\<close>

definition token_char :: "nat \<Rightarrow> bool" where
  "token_char c \<longleftrightarrow> is_ascii_alphanumeric c \<or> c = 43 \<or> c = 61"

definition plain_word :: "'f mask_config \<Rightarrow> str \<Rightarrow> bool" where
  "plain_word config w \<longleftrightarrow>
     as_u32 (length w) < min_entropy_len config \<or> is_plain_hex w \<or> class_count w < 3"

lemma plain_word_qualifies: "plain_word config w \<Longrightarrow> qualifies prof F w config = Some False"
  by (auto simp: plain_word_def qualifies_def Let_def)

lemma split_on_head:
  assumes "\<forall>c \<in> set r. \<not> P c" "b = [] \<or> P (hd b)"
  shows "hd (split_on P (r @ b)) = r"
  using assms(1)
proof (induction r)
  case Nil
  then show ?case using assms(2) by (cases b) auto
qed (auto split: list.splits)

lemma split_on_word:
  assumes "\<forall>c \<in> set r. \<not> P c" "b = [] \<or> P (hd b)" "a = [] \<or> P (last a)"
  shows "r \<in> set (split_on P (a @ r @ b))"
proof -
  have tail: "r \<in> set (tl (split_on P (a @ r @ b)))" if "a \<noteq> []" "P (last a)" for a
    using that
  proof (induction a)
    case (Cons c a)
    show ?case
    proof (cases "a = []")
      case True
      with Cons.prems show ?thesis
        using split_on_head [OF assms(1,2)] hd_in_set [OF split_on_nonempty [of P "r @ b"]] by simp
    next
      case False
      with Cons have "r \<in> set (tl (split_on P (a @ r @ b)))" by simp
      then show ?thesis by (cases "split_on P (a @ r @ b)") (auto dest: list.set_sel(2))
    qed
  qed simp
  show ?thesis
  proof (cases "a = []")
    case True
    then show ?thesis
      using split_on_head [OF assms(1,2)] hd_in_set [OF split_on_nonempty [of P "r @ b"]] by simp
  next
    case False
    with tail assms(3) show ?thesis by (metis list.set_sel(2) split_on_nonempty)
  qed
qed

lemma token_byte_char: "c < 128 \<Longrightarrow> is_token_byte (b8 c) \<longleftrightarrow> token_char c"
  by (simp add: is_token_byte_def token_char_def unat_b8)

lemma token_char_ascii: "token_char c \<Longrightarrow> c < 128"
  by (auto simp: token_char_def ascii_defs)

text \<open>The maximal runs of the scan are words of the text.\<close>

lemma token_run_word:
  assumes "valid_str text" "token_run (as_bytes text) i j"
  shows "\<exists>w \<in> set (split_on (\<lambda>c. \<not> token_char c) text). str_slice text i j = Some w"
proof -
  let ?bs = "as_bytes text"
  have ij: "i < j" "j \<le> length ?bs" "\<And>k. i \<le> k \<Longrightarrow> k < j \<Longrightarrow> is_token_byte (?bs ! k)"
    "0 < i \<Longrightarrow> \<not> is_token_byte (?bs ! (i - 1))" "j < length ?bs \<Longrightarrow> \<not> is_token_byte (?bs ! j)"
    using assms(2) by (simp_all add: token_run_def)
  then obtain a r b where r: "text = a @ r @ b" "length (as_bytes a) = i" "length r = j - i"
    "\<forall>c \<in> set r. c < 128" "as_bytes r = slice ?bs i j"
    using ascii_run_split [OF assms(1) ij(1,2)] is_token_byte_ascii by blast
  have bytes: "as_bytes r = map b8 r" by (rule as_bytes_ascii [OF r(4)])
  have j: "j = length (as_bytes (a @ r))" using r(2,3) ij(1) by (simp add: bytes)
  have slice: "str_slice text i j = Some r"
    using str_slice_mid [of a r b] assms(1) unfolding r(1) [symmetric] j r(2) by blast
  have "token_char c" if "c \<in> set r" for c
  proof -
    have "\<exists>k < length r. r ! k = c" using that by (simp only: in_set_conv_nth)
    then obtain k where k: "k < length r" "c = r ! k" by blast
    then have "?bs ! (i + k) = b8 c" using r(2) by (simp add: r(1) nth_append bytes)
    moreover have "is_token_byte (?bs ! (i + k))" using k(1) r(3) by (intro ij(3)) simp_all
    ultimately show ?thesis using r(4) that by (simp add: token_byte_char)
  qed
  moreover have "\<not> token_char (hd b)" if "b \<noteq> []"
  proof
    assume t: "token_char (hd b)"
    obtain c b' where b: "b = c # b'" using \<open>b \<noteq> []\<close> by (cases b) auto
    have c: "utf8_char c = [b8 c]" using t b by (intro utf8_char_ascii token_char_ascii) simp
    have "?bs ! j = b8 c" by (simp add: r(1) j b c nth_append)
    moreover have "j < length ?bs" by (simp add: r(1) j b c)
    ultimately show False using ij(5) t b by (simp add: token_byte_char token_char_ascii)
  qed
  moreover have "\<not> token_char (last a)" if "a \<noteq> []"
  proof
    assume t: "token_char (last a)"
    obtain a' c where a: "a = a' @ [c]" using \<open>a \<noteq> []\<close> by (cases a rule: rev_cases) auto
    have c: "utf8_char c = [b8 c]" using t a by (intro utf8_char_ascii token_char_ascii) simp
    have i: "i = Suc (length (as_bytes a'))" using r(2) by (simp add: a c)
    then have "?bs ! (i - 1) = b8 c" by (simp add: r(1) a c nth_append)
    with i show False using ij(4) t a by (simp add: token_byte_char token_char_ascii)
  qed
  ultimately have "r \<in> set (split_on (\<lambda>c. \<not> token_char c) (a @ r @ b))" by (intro split_on_word) auto
  with slice show ?thesis by (simp add: r(1))
qed

section \<open>Texts in which nothing is collected\<close>

lemma no_entropy_matches:
  assumes "valid_str text" "length (as_bytes text) < 2 ^ 32"
    and "\<And>i j. token_run (as_bytes text) i j \<Longrightarrow> \<not> overlaps_any i j occupied \<Longrightarrow>
      \<exists>w. plain_word config w \<and> str_slice text i j = Some w"
  shows "high_entropy_matches prof F text config occupied out = Some out"
proof -
  obtain ms where ms: "high_entropy_matches prof F text config occupied out = Some (out @ ms)"
    "\<forall>m. m \<in> set ms \<longleftrightarrow> (\<exists>a b. entropy_hit prof F text config occupied a b \<and> m = entropy_match a b)"
    by (rule high_entropy_matches_exact [OF assms(1,2)])
  have "\<not> entropy_hit prof F text config occupied a b" for a b
    using assms(3) [of a b] plain_word_qualifies by (fastforce simp: entropy_hit_def)
  with ms show ?thesis by (cases ms) auto
qed

lemma ordinary_untouched:
  assumes "collect_raw prof F E text config = Some []"
  shows "is_secret prof F E text config = Some False" "detect_secrets prof F E text config = Some []"
    "evaluate prof F E text config = Some \<lparr>me_is_secret = False, me_display = text\<rparr>"
    "mask prof F E text config = Some text"
proof -
  show s: "is_secret prof F E text config = Some False" by (simp add: is_secret_def assms)
  show "detect_secrets prof F E text config = Some []"
    by (simp add: detect_secrets_def assms merge_non_overlapping_def)
  show e: "evaluate prof F E text config = Some \<lparr>me_is_secret = False, me_display = text\<rparr>"
    by (simp add: evaluate_eq s)
  show "mask prof F E text config = Some text" by (simp add: mask_def e)
qed

end
