(* ===== verification/Redact_Structural.thy ===== *)
theory Redact_Structural
  imports Redact_Precision
begin

text \<open>
  What the value-gated patterns for assignments, connection strings and authorization headers find.
  The proofs rest on the sign that each pattern asks for: where it comes first in the text fixes where
  a match can be, and the value after it is the preferred capture.
\<close>

section \<open>Sequences\<close>

lemma rx_seq_append:
  "rx_steps C s (rx_seq (as @ bs)) ci p =
     concat (map (rx_steps C s (rx_seq bs) ci) (rx_steps C s (rx_seq as) ci p))"
proof (induction as arbitrary: p)
  case (Cons a as)
  have "concat (map (\<lambda>k. concat (map f (g k))) ks) = concat (map f (concat (map g ks)))"
    for f :: "rx_pos \<Rightarrow> rx_pos list" and g :: "rx_pos \<Rightarrow> rx_pos list" and ks
    by (induction ks) simp_all
  moreover have "rx_steps C s (rx_seq (as @ bs)) ci =
      (\<lambda>p. concat (map (rx_steps C s (rx_seq bs) ci) (rx_steps C s (rx_seq as) ci p)))"
    by (rule ext) (rule Cons)
  moreover have "rx_steps C s (rx_seq ((a # as) @ bs)) ci p =
      concat (map (rx_steps C s (rx_seq (as @ bs)) ci) (rx_steps C s a ci p))"
    "rx_steps C s (rx_seq (a # as)) ci p = concat (map (rx_steps C s (rx_seq as) ci) (rx_steps C s a ci p))"
    by (simp_all add: rx_seq_def)
  ultimately show ?case by simp
qed (simp add: rx_seq_def)

lemma rx_seq_split:
  assumes "x \<in> set (rx_steps C s (rx_seq (as @ bs)) ci p)"
  obtains k where "k \<in> set (rx_steps C s (rx_seq as) ci p)" "x \<in> set (rx_steps C s (rx_seq bs) ci k)"
  using assms by (auto simp: rx_seq_append)

lemma first_nonempty:
  assumes "\<And>x. x \<in> set xs \<Longrightarrow> f x = [] \<or> (\<exists>t. f x = h # t)" "concat (map f xs) \<noteq> []"
  shows "\<exists>t. concat (map f xs) = h # t"
  using assms
proof (induction xs)
  case (Cons x xs)
  show ?case
  proof (cases "f x")
    case Nil
    then show ?thesis using Cons by simp
  next
    case (Cons y t)
    then show ?thesis using Cons.prems(1) [of x] by auto
  qed
qed simp

text \<open>
  The leftmost match captures what is preferred from \<open>b\<close> on when every way to get through the first
  pieces ends at \<open>b\<close> or leads nowhere.
\<close>

lemma leftmost_capture:
  assumes "leftmost_first C E" "k0 \<le> n" "n \<le> length s"
    and "(b, w) \<in> set (rx_steps C s (rx_seq as) True (k0, None))"
    and "\<And>v. first_step C s True (rx_seq bs) (b, v) (j, Some (c, e))"
    and "\<And>k x. k \<le> n \<Longrightarrow> x \<in> set (rx_steps C s (rx_seq as) True (k, None)) \<Longrightarrow>
      fst x = b \<or> rx_steps C s (rx_seq bs) True x = []"
  shows "\<exists>i. (span_of s i j, Some (span_of s c e)) \<in> set (captures_iter E (NoCase (rx_seq (as @ bs))) s)"
proof -
  let ?st = "\<lambda>k. rx_steps C s (NoCase (rx_seq (as @ bs))) False (k, None)"
  let ?g = "rx_steps C s (rx_seq bs) True"
  have st: "?st k = concat (map ?g (rx_steps C s (rx_seq as) True (k, None)))" for k
    by (simp add: rx_seq_append)
  obtain t where "?g (b, w) = (j, Some (c, e)) # t" using assms(5) unfolding first_step_def by blast
  then have ne: "?st k0 \<noteq> []" unfolding st using assms(4) by force
  define i where "i = (LEAST k. ?st k \<noteq> [])"
  have i: "?st i \<noteq> []" "\<forall>k < i. ?st k = []" "i \<le> k0"
    unfolding i_def using LeastI [of "\<lambda>k. ?st k \<noteq> []", OF ne] not_less_Least [of _ "\<lambda>k. ?st k \<noteq> []"]
      Least_le [of "\<lambda>k. ?st k \<noteq> []", OF ne] by blast+
  have "\<exists>t. concat (map ?g (rx_steps C s (rx_seq as) True (i, None))) = (j, Some (c, e)) # t"
  proof (rule first_nonempty)
    fix x assume x: "x \<in> set (rx_steps C s (rx_seq as) True (i, None))"
    obtain y v where xy: "x = (y, v)" by (cases x)
    have "i \<le> n" using i(3) assms(2) by simp
    from assms(6) [OF this x] show "?g x = [] \<or> (\<exists>t. ?g x = (j, Some (c, e)) # t)"
      using assms(5) [of v] by (auto simp: xy first_step_def)
  qed (use i(1) st in simp)
  then obtain t where "?st i = (j, Some (c, e)) # t" unfolding st by blast
  moreover have "i \<le> length s" using i(3) assms(2,3) by simp
  ultimately have "(span_of s i j, Some (span_of s c e)) \<in> set (captures_iter E (NoCase (rx_seq (as @ bs))) s)"
    using assms(1) i(2) unfolding leftmost_first_def by fastforce
  then show ?thesis by blast
qed

lemma captured_value:
  assumes "(span_of text i j, Some (span_of text (length a) (length (a @ v)))) \<in> set (captures_iter E r text)"
    and "text = a @ v @ b" "valid_str text" "looks_like_secret_value v"
  shows "\<exists>m. m \<in> set (push_gated E r text k out)"
proof -
  have "capture_str text (Some (span_of text (length a) (length (a @ v)))) = v"
    using capture_mid [of a v b] assms(2,3) by simp
  with gated_found [OF assms(1)] assms(4) show ?thesis by metis
qed

section \<open>What a piece can consume\<close>

primrec rx_only :: "rx_classes \<Rightarrow> (nat \<Rightarrow> bool) \<Rightarrow> bool \<Rightarrow> rx \<Rightarrow> bool" where
  "rx_only C P ci Empty = True"
| "rx_only C P ci (Ch c) = (\<forall>x. class_mem C ci False [Range c c] x \<longrightarrow> P x)"
| "rx_only C P ci (Cls negated items) = (\<forall>x. class_mem C ci negated items x \<longrightarrow> P x)"
| "rx_only C P ci (Seq a b) = (rx_only C P ci a \<and> rx_only C P ci b)"
| "rx_only C P ci (Alt a b) = (rx_only C P ci a \<and> rx_only C P ci b)"
| "rx_only C P ci (Rep r lo hi) = rx_only C P ci r"
| "rx_only C P ci Word_Boundary = True"
| "rx_only C P ci Text_Start = True"
| "rx_only C P ci (Val r) = rx_only C P ci r"
| "rx_only C P ci (NoCase r) = rx_only C P True r"

lemma rx_rep_only:
  assumes "\<And>p q d. q \<in> set (f p) \<Longrightarrow> fst p \<le> d \<Longrightarrow> d < fst q \<Longrightarrow> P (s ! d)"
  shows "q \<in> set (rx_rep f fuel lo hi p) \<Longrightarrow> fst p \<le> d \<Longrightarrow> d < fst q \<Longrightarrow> P (s ! d)"
proof (induction fuel arbitrary: lo hi p)
  case (Suc fuel)
  show ?case
  proof (cases "q = p")
    case False
    with Suc.prems(1) obtain k where k: "k \<in> set (f p)"
      "q \<in> set (rx_rep f fuel (lo - 1) (map_option (\<lambda>h. h - 1) hi) k)" by (auto split: if_splits)
    show ?thesis
    proof (cases "d < fst k")
      case True
      with assms k(1) Suc.prems(2) show ?thesis by blast
    next
      case False
      with Suc.IH [OF k(2)] Suc.prems(3) show ?thesis by simp
    qed
  qed (use Suc.prems in simp)
qed (auto split: if_splits)

lemma rx_only_steps:
  "q \<in> set (rx_steps C s r ci p) \<Longrightarrow> rx_only C P ci r \<Longrightarrow> fst p \<le> d \<Longrightarrow> d < fst q \<Longrightarrow> P (s ! d)"
proof (induction r arbitrary: ci p q d)
  case (Seq a b)
  from Seq.prems(1) obtain k where k: "k \<in> set (rx_steps C s a ci p)" "q \<in> set (rx_steps C s b ci k)" by auto
  show ?case
  proof (cases "d < fst k")
    case True
    with Seq.IH(1) [OF k(1)] Seq.prems(2,3) show ?thesis by simp
  next
    case False
    with Seq.IH(2) [OF k(2)] Seq.prems(2,4) show ?thesis by simp
  qed
next
  case (Rep r lo hi)
  have "P (s ! d)" if "q \<in> set (rx_steps C s r ci p)" "fst p \<le> d" "d < fst q" for p q d
    using Rep.IH [OF that(1) _ that(2,3)] Rep.prems(2) by simp
  moreover have "q \<in> set (rx_rep (rx_steps C s r ci) (Suc (length s) + lo) lo hi p)" using Rep.prems(1) by simp
  ultimately show ?case using Rep.prems(3,4) by (rule rx_rep_only)
next
  case (Ch c)
  then have "d = fst p" "class_mem C ci False [Range c c] (s ! fst p)" by (auto split: if_splits)
  with Ch.prems(2) show ?case by simp
next
  case (Cls n items)
  then have "d = fst p" "class_mem C ci n items (s ! fst p)" by (auto split: if_splits)
  with Cls.prems(2) show ?case by simp
next
  case (Val r)
  from Val.prems(1) obtain k where "k \<in> set (rx_steps C s r ci p)" "fst q = fst k" by auto
  with Val.IH [of k] Val.prems(2-4) show ?case by simp
qed (auto split: if_splits)

lemma rx_only_sugar [simp]:
  "rx_only C P ci (rx_seq rs) \<longleftrightarrow> (\<forall>r \<in> set rs. rx_only C P ci r)"
  "rx_only C P ci (rx_str w) \<longleftrightarrow> (\<forall>c \<in> set w. rx_only C P ci (Ch (of_char c)))"
  "rx_only C P ci (rx_alt rs) \<longleftrightarrow> (\<forall>r \<in> set rs. rx_only C P ci r)"
  "rx_only C P ci (rx_opt r) \<longleftrightarrow> rx_only C P ci r"
  "rx_only C P ci (rx_star r) \<longleftrightarrow> rx_only C P ci r"
  "rx_only C P ci (rx_plus r) \<longleftrightarrow> rx_only C P ci r"
proof -
  show seq: "rx_only C P ci (rx_seq rs) \<longleftrightarrow> (\<forall>r \<in> set rs. rx_only C P ci r)" for rs
    by (induction rs) (simp_all add: rx_seq_def)
  show "rx_only C P ci (rx_str w) \<longleftrightarrow> (\<forall>c \<in> set w. rx_only C P ci (Ch (of_char c)))"
    by (simp add: rx_str_def seq lit_def)
  show "rx_only C P ci (rx_alt rs) \<longleftrightarrow> (\<forall>r \<in> set rs. rx_only C P ci r)"
    by (induction rs rule: rx_alt.induct) (simp_all add: class_mem_def list_ex_iff)
qed (simp_all add: rx_opt_def rx_star_def rx_plus_def)

section \<open>Case folding\<close>

text \<open>An upper-case ASCII letter folds to its lower-case letter.\<close>

definition case_ok :: "rx_classes \<Rightarrow> bool" where
  "case_ok C \<longleftrightarrow> (\<forall>c. is_ascii_uppercase c \<longrightarrow> c + 32 \<in> set (variants C c))"

text \<open>White space as the ASCII part of \<open>\s\<close>.\<close>

definition blank :: "nat \<Rightarrow> bool" where
  "blank c \<longleftrightarrow> c = 32 \<or> 9 \<le> c \<and> c \<le> 13"

definition sign :: "nat \<Rightarrow> bool" where
  "sign c \<longleftrightarrow> c < 128 \<and> \<not> is_ascii_uppercase c \<and> \<not> is_ascii_lowercase c"

lemma nocase_class:
  assumes "fold_ok C" "sign c"
  shows "class_mem C True n items c \<longleftrightarrow> class_mem C False n items c"
proof -
  have "variants C c = []" using fold_okD(3) [OF assms(1), of c] assms(2)
    by (cases "variants C c") (auto simp: sign_def)
  then show ?thesis by (simp add: class_mem_def)
qed

lemma sign_simps [simp]: "sign 58" "sign 61" "blank c \<Longrightarrow> sign c" "c = 34 \<or> c = 39 \<Longrightarrow> sign c"
  by (auto simp: sign_def blank_def ascii_defs)

lemma space_class: "fold_ok C \<Longrightarrow> c < 128 \<Longrightarrow> class_mem C False False [Space] c \<longleftrightarrow> blank c"
  using fold_okD(1) [of C c] by (simp add: class_mem_def blank_def)

lemma blank_class: "fold_ok C \<Longrightarrow> blank c \<Longrightarrow> class_mem C True False [Space] c"
  using nocase_class [of C c] space_class [of C c] sign_simps(3) [of c] by (auto simp: sign_def)

text \<open>A piece that names no sign of \<open>S\<close> consumes none.\<close>

lemma only_letter:
  assumes "fold_ok C" "\<forall>x \<in> S. sign x" "c \<notin> S"
  shows "rx_only C (\<lambda>x. x \<notin> S) True (Ch c)"
proof -
  have "\<not> class_mem C True False [Range c c] x" if "x \<in> S" for x
  proof -
    have "sign x" "x \<noteq> c" using that assms(2,3) by auto
    then show ?thesis unfolding nocase_class [OF assms(1) \<open>sign x\<close>] by (auto simp: class_mem_def)
  qed
  then show ?thesis by auto
qed

lemma only_class:
  assumes "fold_ok C" "\<forall>x \<in> S. sign x \<and> \<not> class_mem C False n items x"
  shows "rx_only C (\<lambda>x. x \<notin> S) True (Cls n items)"
  using nocase_class [OF assms(1)] assms(2) by auto

lemma nth_mid:
  assumes "s = x @ y @ z" "length x \<le> d" "d < length (x @ y)"
  shows "s ! d \<in> set y"
proof -
  have "d - length x < length y" using assms(2,3) by simp
  then show ?thesis using assms(2) by (simp add: assms(1) nth_append)
qed

text \<open>Two places of the same kind, each the first from \<open>i\<close> on, are one.\<close>

lemma same_place:
  "(\<And>d. i \<le> d \<Longrightarrow> d < n \<Longrightarrow> s ! d \<notin> S) \<Longrightarrow> s ! n \<in> S \<Longrightarrow> (\<And>d. i \<le> d \<Longrightarrow> d < j \<Longrightarrow> s ! d \<notin> S) \<Longrightarrow>
   s ! j \<in> S \<Longrightarrow> i \<le> n \<Longrightarrow> i \<le> j \<Longrightarrow> j = n"
  by (meson linorder_neqE_nat)

lemma rx_str_nocase:
  assumes "q \<in> set (rx_steps C s (rx_str w) True p)"
  shows "fst q = fst p + length w \<and>
    (\<forall>d < length w. fst p + d < length s \<and> class_mem C True False [Range (of_char (w ! d)) (of_char (w ! d))] (s ! (fst p + d)))"
  using assms
proof (induction w arbitrary: p)
  case (Cons c w)
  have here: "fst p < length s" "class_mem C True False [Range (of_char c) (of_char c)] (s ! fst p)"
    "q \<in> set (rx_steps C s (rx_str w) True (Suc (fst p), snd p))"
    using Cons.prems by (auto simp: rx_str_def lit_def split: if_splits)
  show ?case using Cons.IH [OF here(3)] here(1,2) by (auto simp: nth_Cons' less_Suc_eq_0_disj)
qed (simp add: rx_str_def lit_def)

lemma folded_word:
  assumes "case_ok C" "text = pre @ u @ post" "to_ascii_lowercase u = lit w"
  shows "(length (pre @ u), v) \<in> set (rx_steps C text (rx_str w) True (length pre, v))"
  using assms(2,3)
proof (induction w arbitrary: pre u)
  case Nil
  then show ?case by (simp add: rx_str_def lit_def to_ascii_lowercase_def)
next
  case (Cons c w)
  obtain x u' where u: "u = x # u'" "to_ascii_lowercase u' = lit w"
    "(if is_ascii_uppercase x then x + 32 else x) = of_char c"
    using Cons.prems(2) by (cases u) (auto simp: to_ascii_lowercase_def lit_def)
  have "class_mem C True False [Range (of_char c) (of_char c)] x"
    using u(3) assms(1) by (auto simp: class_mem_def list_ex_iff case_ok_def split: if_splits)
  then have "(Suc (length pre), v) \<in> set (rx_steps C text (Ch (of_char c)) True (length pre, v))"
    using Cons.prems(1) u(1) by (simp add: nth_append)
  moreover have "(length ((pre @ [x]) @ u'), v) \<in> set (rx_steps C text (rx_str w) True (length (pre @ [x]), v))"
    by (rule Cons.IH [OF _ u(2)]) (simp add: Cons.prems(1) u(1))
  ultimately show ?case by (auto simp: rx_str_def lit_def u(1))
qed

lemma folded_words:
  "case_ok C \<Longrightarrow> text = pre @ u @ post \<Longrightarrow> to_ascii_lowercase u \<in> set (map lit ws) \<Longrightarrow>
   (length (pre @ u), v) \<in> set (rx_steps C text (rx_strs ws) True (length pre, v))"
  using folded_word by (fastforce simp: rx_strs_def rx_alt_steps)

lemma run_at:
  assumes "text = pre @ run @ post" "\<forall>c \<in> set run. class_mem C ci n items c" "lo \<le> length run"
    "\<forall>h. hi = Some h \<longrightarrow> length run \<le> h"
  shows "(length (pre @ run), v) \<in> set (rx_steps C text (Rep (Cls n items) lo hi) ci (length pre, v))"
proof -
  have "\<forall>d < length run. class_mem C ci n items (text ! (length pre + d))"
    using assms(1,2) by (simp add: nth_append)
  from rx_class_run [OF this _ assms(3,4)] show ?thesis by (simp add: assms(1))
qed

lemma blanks_at:
  "fold_ok C \<Longrightarrow> text = pre @ run @ post \<Longrightarrow> \<forall>c \<in> set run. blank c \<Longrightarrow>
   (length (pre @ run), v) \<in> set (rx_steps C text (rx_star (Cls False [Space])) True (length pre, v))"
  unfolding rx_star_def by (rule run_at) (simp_all add: blank_class)

lemma class_fails:
  "\<not> in_class C s ci n items (fst x) \<Longrightarrow> 0 < lo \<Longrightarrow> rx_steps C s (Rep (Cls n items) lo hi) ci x = []"
  unfolding rx_steps.simps(6) by (cases x) (simp add: cls_steps del: rx_steps.simps)

section \<open>Assignments\<close>

lemma lower_split:
  assumes "to_ascii_lowercase u = lit (a @ b)"
  shows "\<exists>x y. u = x @ y \<and> to_ascii_lowercase x = lit a \<and> to_ascii_lowercase y = lit b"
proof -
  have "take (length a) (to_ascii_lowercase u) = lit a" "drop (length a) (to_ascii_lowercase u) = lit b"
    unfolding assms by (simp_all add: lit_def)
  then have "to_ascii_lowercase (take (length a) u) = lit a" "to_ascii_lowercase (drop (length a) u) = lit b"
    by (simp_all add: to_ascii_lowercase_def take_map drop_map)
  then show ?thesis by (metis append_take_drop_id)
qed

lemma lower_range:
  assumes "\<forall>c \<in> set (to_ascii_lowercase u). 45 \<le> c \<and> c \<le> 122"
  shows "\<forall>c \<in> set u. 33 \<le> c \<and> c \<le> 126"
proof
  fix c assume "c \<in> set u"
  then have "(if is_ascii_uppercase c then c + 32 else c) \<in> set (to_ascii_lowercase u)"
    unfolding to_ascii_lowercase_def set_map by (rule imageI)
  with assms have "45 \<le> (if is_ascii_uppercase c then c + 32 else c) \<and>
      (if is_ascii_uppercase c then c + 32 else c) \<le> 122" by blast
  then show "33 \<le> c \<and> c \<le> 126" by (auto simp: is_ascii_uppercase_def split: if_splits)
qed

lemma lower_sign:
  "to_ascii_lowercase u = lit [c] \<Longrightarrow> sign (of_char c) \<Longrightarrow> u = [of_char c]"
  by (cases u) (auto simp: to_ascii_lowercase_def lit_def sign_def ascii_defs split: if_splits)

lemma api_key_found:
  assumes "case_ok C" "text = pre @ u @ post" "to_ascii_lowercase u = lit (''api'' @ m @ ''key'')"
    and "m \<in> {[], ''_'', ''-''}"
  shows "(length (pre @ u), v) \<in> set (rx_steps C text api_key_name True (length pre, v))"
proof -
  obtain x y where x: "u = x @ y" "to_ascii_lowercase x = lit ''api''" "to_ascii_lowercase y = lit (m @ ''key'')"
    using lower_split [OF assms(3)] by blast
  obtain n z where n: "y = n @ z" "to_ascii_lowercase n = lit m" "to_ascii_lowercase z = lit ''key''"
    using lower_split [OF x(3)] by blast
  have nm: "n = lit m"
    using assms(4) n(2) lower_sign [of n "CHR ''_''"] lower_sign [of n "CHR ''-''"]
    by (auto simp: sign_def ascii_defs to_ascii_lowercase_def lit_def)
  have a: "(length (pre @ x), v) \<in> set (rx_steps C text (rx_str ''api'') True (length pre, v))"
    by (rule folded_word [OF assms(1) _ x(2)]) (simp add: assms(2) x(1))
  have b: "(length ((pre @ x) @ n), v) \<in>
      set (rx_steps C text (rx_opt (Cls False [one CHR ''_'', one CHR ''-''])) True (length (pre @ x), v))"
    unfolding rx_opt_def
    by (rule run_at [where post = "z @ post"])
      (use assms(2,4) x(1) n(1) nm in \<open>auto simp: class_mem_def one_def rng_def lit_def\<close>)
  have c: "(length (((pre @ x) @ n) @ z), v) \<in>
      set (rx_steps C text (rx_str ''key'') True (length ((pre @ x) @ n), v))"
    by (rule folded_word [OF assms(1) _ n(3)]) (simp add: assms(2) x(1) n(1))
  have u: "length (pre @ u) = length (((pre @ x) @ n) @ z)" by (simp add: x(1) n(1))
  show ?thesis unfolding api_key_name_def u
    by (intro rx_seq_intro [OF a] rx_seq_intro [OF b] rx_seq_intro [OF c]) simp
qed

text \<open>Both patterns name their keys in two lists with \<open>api[_-]?key\<close> between them.\<close>

definition name_piece :: "string list \<Rightarrow> string list \<Rightarrow> rx" where
  "name_piece as bs = rx_alt [rx_strs as, api_key_name, rx_strs bs]"

definition names :: "string list \<Rightarrow> string list \<Rightarrow> string list" where
  "names as bs = as @ map (\<lambda>m. ''api'' @ m @ ''key'') [[], ''_'', ''-''] @ bs"

lemma name_found:
  assumes "case_ok C" "text = pre @ u @ post" "to_ascii_lowercase u \<in> set (map lit (names as bs))"
  shows "(length (pre @ u), v) \<in> set (rx_steps C text (name_piece as bs) True (length pre, v))"
proof -
  let ?m = "map (\<lambda>m. ''api'' @ m @ ''key'') [[], ''_'', ''-'']"
  have "to_ascii_lowercase u \<in> lit ` set as \<union> (lit ` set ?m \<union> lit ` set bs)"
    using assms(3) unfolding names_def set_map [of lit] set_append image_Un .
  then consider "to_ascii_lowercase u \<in> set (map lit as)" | "to_ascii_lowercase u \<in> set (map lit bs)"
    | "to_ascii_lowercase u \<in> lit ` set ?m" unfolding set_map [of lit] by blast
  then have "\<exists>r \<in> {rx_strs as, api_key_name, rx_strs bs}.
      (length (pre @ u), v) \<in> set (rx_steps C text r True (length pre, v))"
  proof cases
    case 1
    from folded_words [OF assms(1,2) 1] show ?thesis by blast
  next
    case 2
    from folded_words [OF assms(1,2) 2] show ?thesis by blast
  next
    case 3
    then obtain m where "m \<in> set [[], ''_'', ''-'']" "to_ascii_lowercase u = lit (''api'' @ m @ ''key'')"
      unfolding set_map by blast
    then have "m \<in> {[], ''_'', ''-''}" "to_ascii_lowercase u = lit (''api'' @ m @ ''key'')" by simp_all
    from api_key_found [OF assms(1,2) this(2,1)] show ?thesis by blast
  qed
  then show ?thesis unfolding name_piece_def rx_alt_steps by simp
qed

lemma no_sign_in_word:
  assumes "to_ascii_lowercase u \<in> set (map lit ws)" "\<forall>w \<in> set ws. of_char c \<notin> set (lit w)" "sign (of_char c)"
  shows "of_char c \<notin> set u"
proof
  assume "of_char c \<in> set u"
  then have "of_char c \<in> set (to_ascii_lowercase u)" using assms(3) by (force simp: to_ascii_lowercase_def sign_def)
  with assms(1,2) show False by auto
qed

definition secret_keys :: "string list" where
  "secret_keys = names [''password'', ''passwd'', ''pwd'', ''secret'']
     [''client_secret'', ''secret_key'', ''access_key'', ''aws_secret_access_key'', ''private_key'', ''auth_token'']"

definition key_piece :: rx where
  "key_piece = name_piece [''password'', ''passwd'', ''pwd'', ''secret'']
     [''client_secret'', ''secret_key'', ''access_key'', ''aws_secret_access_key'', ''private_key'', ''auth_token'']"

lemma key_found:
  "case_ok C \<Longrightarrow> text = pre @ u @ post \<Longrightarrow> to_ascii_lowercase u \<in> set (map lit secret_keys) \<Longrightarrow>
   (length (pre @ u), v) \<in> set (rx_steps C text key_piece True (length pre, v))"
  unfolding key_piece_def secret_keys_def by (rule name_found)

definition lead_piece :: rx where
  "lead_piece = rx_alt [Text_Start, Cls True upper_lower_digit]"

definition equals_piece :: rx where
  "equals_piece = Cls False [one CHR '':'', one CHR ''='']"

lemma KEY_VALUE_SECRET_pieces:
  "KEY_VALUE_SECRET = NoCase (rx_seq (([lead_piece, key_piece, rx_star (Cls False [Space])] @ [equals_piece] @
     [rx_star (Cls False [Space]), rx_opt (Cls False quote_items)]) @
     [Val (rx_least (Cls True (Space # quote_items)) 4)]))"
  by (simp add: KEY_VALUE_SECRET_def lead_piece_def key_piece_def name_piece_def equals_piece_def)

lemma key_letters:
  assumes "to_ascii_lowercase u \<in> set (map lit secret_keys)"
  shows "u \<noteq> []" "58 \<notin> set u" "61 \<notin> set u"
proof -
  obtain w where w: "w \<in> set secret_keys" "to_ascii_lowercase u = lit w" using assms by auto
  have "\<forall>w \<in> set secret_keys. lit w \<noteq> [] \<and> 58 \<notin> set (lit w) \<and> 61 \<notin> set (lit w)"
    by (simp add: secret_keys_def names_def lit_def)
  then have "lit w \<noteq> []" "58 \<notin> set (lit w)" "61 \<notin> set (lit w)" using w(1) by blast+
  moreover have "x \<in> set u \<Longrightarrow> sign x \<Longrightarrow> x \<in> set (lit w)" for x
    unfolding w(2) [symmetric] by (force simp: to_ascii_lowercase_def sign_def)
  ultimately show "u \<noteq> []" "58 \<notin> set u" "61 \<notin> set u"
    using w(2) by (auto simp: to_ascii_lowercase_def)
qed

lemma sign_place:
  assumes "fold_ok C" "signs_ok C" "text = a @ c # post" "c \<in> S" "\<forall>x \<in> set a. x \<notin> S"
    and "i \<le> length a" "i \<le> j" "text ! j \<in> S" "\<And>d. i \<le> d \<Longrightarrow> d < j \<Longrightarrow> text ! d \<notin> S"
  shows "j = length a"
proof (rule same_place [where i = i and s = "text" and S = S])
  show "text ! d \<notin> S" if "i \<le> d" "d < length a" for d using that assms(3,5) by (simp add: nth_append)
qed (use assms in \<open>simp_all add: nth_append\<close>)

lemma exact_sign:
  assumes "signs_ok C" "sign c" "class_mem C True False [Range c c] x"
  shows "x = c"
proof -
  have "c \<notin> set (variants C x)" using assms(1,2) unfolding signs_ok_def sign_def by blast
  with assms(3) show ?thesis by (auto simp: class_mem_def list_ex_iff)
qed

lemma equals_exact:
  assumes "signs_ok C" "q \<in> set (rx_steps C s equals_piece True p)"
  shows "fst p < length s" "s ! fst p \<in> {58, 61}" "fst q = Suc (fst p)"
proof -
  have "fst p < length s \<and> class_mem C True False [Range 58 58, Range 61 61] (s ! fst p) \<and> fst q = Suc (fst p)"
    using assms(2) by (auto simp: equals_piece_def one_def rng_def split: if_splits)
  moreover from this have "class_mem C True False [Range 58 58] (s ! fst p) \<or> class_mem C True False [Range 61 61] (s ! fst p)"
    by (auto simp: class_mem_def list_ex_iff)
  ultimately show "fst p < length s" "s ! fst p \<in> {58, 61}" "fst q = Suc (fst p)"
    using exact_sign [OF assms(1)] by auto
qed

lemma lead_step: "q \<in> set (rx_steps C s lead_piece ci p) \<Longrightarrow> fst p \<le> fst q \<and> fst q \<le> Suc (fst p)"
  by (auto simp: lead_piece_def split: if_splits)

lemma space_only:
  assumes "fold_ok C" "\<forall>x \<in> S. sign x \<and> \<not> blank x"
  shows "rx_only C (\<lambda>x. x \<notin> S) True (Cls False [Space])"
  using space_class [OF assms(1)] assms(2) by (intro only_class [OF assms(1)]) (auto simp: sign_def)

lemma words_only:
  assumes "fold_ok C" "\<forall>x \<in> S. sign x" "\<forall>w \<in> set ws. list_all (\<lambda>c. of_char c \<notin> S) w"
  shows "rx_only C (\<lambda>x. x \<notin> S) True (rx_strs ws)"
proof -
  have "rx_only C (\<lambda>x. x \<notin> S) True (rx_str w)" if "w \<in> set ws" for w
    unfolding rx_only_sugar(2)
    using assms(3) that only_letter [OF assms(1,2)] by (auto simp: list_all_iff simp del: rx_only.simps)
  then show ?thesis by (simp add: rx_strs_def)
qed

lemma word_only:
  "fold_ok C \<Longrightarrow> \<forall>x \<in> S. sign x \<Longrightarrow> list_all (\<lambda>c. of_char c \<notin> S) w \<Longrightarrow> rx_only C (\<lambda>x. x \<notin> S) True (rx_str w)"
  using words_only [of C S "[w]"] by (simp add: rx_strs_def)

lemma name_only:
  assumes "fold_ok C" "\<forall>x \<in> S. sign x \<and> x \<noteq> 45 \<and> x \<noteq> 95"
    and "\<forall>w \<in> set (as @ bs). list_all (\<lambda>c. of_char c \<notin> S) w"
  shows "rx_only C (\<lambda>x. x \<notin> S) True (name_piece as bs)"
proof -
  have S: "\<forall>x \<in> S. sign x" using assms(2) by blast
  have letters: "list_all (\<lambda>c. of_char c \<notin> S) ''apikey''" using S by (auto simp: sign_def ascii_defs)
  have "rx_only C (\<lambda>x. x \<notin> S) True (Cls False [one CHR ''_'', one CHR ''-''])"
    by (rule only_class [OF assms(1)]) (use assms(2) in \<open>auto simp: class_mem_def one_def rng_def\<close>)
  moreover have "rx_only C (\<lambda>x. x \<notin> S) True (rx_str ''api'')" "rx_only C (\<lambda>x. x \<notin> S) True (rx_str ''key'')"
    by (rule word_only [OF assms(1) S], use letters in simp)+
  moreover have "rx_only C (\<lambda>x. x \<notin> S) True (rx_strs as)" "rx_only C (\<lambda>x. x \<notin> S) True (rx_strs bs)"
    by (rule words_only [OF assms(1) S], use assms(3) in simp)+
  ultimately show ?thesis
    unfolding name_piece_def api_key_name_def by (simp del: rx_only.simps(2,3) rx_only_sugar(2))
qed

lemma key_only:
  assumes "fold_ok C"
  shows "rx_only C (\<lambda>x. x \<notin> {58, 61}) True (rx_seq [key_piece, rx_star (Cls False [Space])])"
proof -
  define S where "S = {58, 61 :: nat}"
  have "rx_only C (\<lambda>x. x \<notin> S) True (Cls False [Space])"
    by (rule space_only [OF assms]) (simp add: S_def blank_def)
  moreover have "rx_only C (\<lambda>x. x \<notin> S) True key_piece"
    unfolding key_piece_def by (rule name_only [OF assms]) (simp_all add: S_def)
  ultimately show ?thesis unfolding S_def [symmetric] by (simp del: rx_only.simps(2,3) rx_only_sugar(2))
qed

text \<open>Where an assignment can get as far as its value.\<close>

lemma assignment_place:
  assumes "fold_ok C" "signs_ok C" "text = a @ sep # gap @ quote @ v @ rest" "sep \<in> {58, 61}"
    and "58 \<notin> set a" "61 \<notin> set a" "k < length a" "\<forall>c \<in> set gap. blank c" "quote \<in> {[], [34], [39]}"
    and "v \<noteq> []" "value_char (hd v)"
    and "x \<in> set (rx_steps C text (rx_seq ([lead_piece, key_piece, rx_star (Cls False [Space])] @ [equals_piece] @
      [rx_star (Cls False [Space]), rx_opt (Cls False quote_items)])) True (k, None))"
  shows "fst x = length (a @ [sep] @ gap @ quote) \<or>
    rx_steps C text (rx_seq [Val (rx_least (Cls True (Space # quote_items)) 4)]) True x = []"
proof -
  let ?b = "length (a @ [sep] @ gap @ quote)"
  obtain k3 k4 where k: "k3 \<in> set (rx_steps C text (rx_seq [lead_piece, key_piece, rx_star (Cls False [Space])]) True (k, None))"
    "k4 \<in> set (rx_steps C text (rx_seq [equals_piece]) True k3)"
    "x \<in> set (rx_steps C text (rx_seq [rx_star (Cls False [Space]), rx_opt (Cls False quote_items)]) True k4)"
    using assms(12) by (elim rx_seq_split)
  obtain k1 where k1: "k1 \<in> set (rx_steps C text lead_piece True (k, None))"
    "k3 \<in> set (rx_steps C text (rx_seq [key_piece, rx_star (Cls False [Space])]) True k1)"
    using k(1) unfolding rx_seq_steps(2) by blast
  have k1_le: "fst k1 \<le> length a" using lead_step [OF k1(1)] assms(7) by simp
  then have in_text: "fst k1 \<le> length text" by (simp add: assms(3))
  have k3_ge: "fst k1 \<le> fst k3" using rx_steps_ok [OF in_text k1(2)] by (simp add: step_ok_def)
  have "k4 \<in> set (rx_steps C text equals_piece True k3)" using k(2) by simp
  note sep = equals_exact [OF assms(2) this]
  have "fst k3 = length a"
    by (rule sign_place [OF assms(1,2,3,4) _ k1_le k3_ge sep(2)])
      (use assms(5,6) rx_only_steps [OF k1(2) key_only [OF assms(1)]] in auto)
  then have k4: "fst k4 = Suc (length a)" using sep(3) by simp
  let ?P = "\<lambda>c. class_mem C True False [Space] c \<or> class_mem C True False quote_items c"
  have "rx_only C ?P True (rx_seq [rx_star (Cls False [Space]), rx_opt (Cls False quote_items)])" by simp
  note gap = rx_only_steps [OF k(3) this, unfolded k4]
  have no_value: "\<not> ?P (hd v)" using visible_no_space [OF assms(1)] value_char_class(2) [OF assms(1)] assms(11)
    by (simp add: value_char_def)
  have at_b: "text ! ?b = hd v" using assms(10) by (simp add: assms(3) nth_append hd_conv_nth)
  have ge: "Suc (length a) \<le> fst x"
    using rx_steps_ok [OF _ k(3)] k4 by (simp add: assms(3) step_ok_def)
  show ?thesis
  proof (cases "fst x < ?b")
    case False
    moreover have "\<not> ?b < fst x" using gap [of ?b] at_b no_value by auto
    ultimately show ?thesis by simp
  next
    case True
    then have "text ! fst x \<in> set (gap @ quote)" using ge
      by (auto simp: assms(3) nth_append nth_Cons' intro!: nth_mem)
    then have "text ! fst x \<in> set gap \<or> text ! fst x = 34 \<or> text ! fst x = 39" using assms(9) by auto
    then have "sign (text ! fst x)" "\<not> class_mem C False True (Space # quote_items) (text ! fst x)"
      using assms(8) space_class [OF assms(1), of "text ! fst x"] sign_simps(3,4)
      by (auto simp: class_mem_def quote_items_def blank_def)
    then have "\<not> in_class C text True True (Space # quote_items) (fst x)"
      using nocase_class [OF assms(1)] by (simp add: in_class_def)
    from class_fails [OF this] show ?thesis by (simp add: rx_least_def rx_seq_def del: rx_steps.simps(6))
  qed
qed

lemma assignment_reached:
  assumes "fold_ok C" "case_ok C" "text = pre @ key @ gap @ sep # gap' @ quote @ v @ rest" "sep \<in> {58, 61}"
    and "to_ascii_lowercase key \<in> set (map lit secret_keys)"
    and "pre = [] \<or> last pre < 128 \<and> \<not> is_ascii_alphanumeric (last pre)"
    and "\<forall>c \<in> set gap. blank c" "\<forall>c \<in> set gap'. blank c" "quote \<in> {[], [34], [39]}"
  shows "(length ((pre @ key @ gap) @ [sep] @ gap' @ quote), None) \<in>
    set (rx_steps C text (rx_seq ([lead_piece, key_piece, rx_star (Cls False [Space])] @ [equals_piece] @
      [rx_star (Cls False [Space]), rx_opt (Cls False quote_items)])) True (length pre - 1, None))"
proof -
  have lead: "(length pre, None) \<in> set (rx_steps C text lead_piece True (length pre - 1, None))"
  proof (cases "pre = []")
    case False
    then have l: "text ! (length pre - 1) = last pre" by (simp add: assms(3) nth_append last_conv_nth)
    have c: "last pre < 128" "\<not> is_ascii_alphanumeric (last pre)" using assms(6) False by simp_all
    then have "sign (last pre)" by (simp add: sign_def is_ascii_alphanumeric_def)
    have "\<not> class_mem C False False upper_lower_digit (last pre)" using c(2) alnum_class [of "last pre" C] by simp
    then have "class_mem C True True upper_lower_digit (last pre)"
      unfolding nocase_class [OF assms(1) \<open>sign (last pre)\<close>] by (simp add: class_mem_def)
    with l False show ?thesis by (cases pre) (simp_all add: lead_piece_def assms(3))
  qed (simp add: lead_piece_def)
  have key: "(length (pre @ key), None) \<in> set (rx_steps C text key_piece True (length pre, None))"
    by (rule key_found [OF assms(2) _ assms(5)]) (simp add: assms(3))
  have gap: "(length ((pre @ key) @ gap), None) \<in>
      set (rx_steps C text (rx_star (Cls False [Space])) True (length (pre @ key), None))"
    by (rule blanks_at [OF assms(1) _ assms(7)]) (simp add: assms(3))
  let ?a = "(pre @ key) @ gap"
  have sep: "(length (?a @ [sep]), None) \<in> set (rx_steps C text equals_piece True (length ?a, None))"
    using assms(4) by (auto simp: assms(3) equals_piece_def class_mem_def one_def rng_def nth_append)
  have gap': "(length ((?a @ [sep]) @ gap'), None) \<in>
      set (rx_steps C text (rx_star (Cls False [Space])) True (length (?a @ [sep]), None))"
    by (rule blanks_at [OF assms(1) _ assms(8)]) (simp add: assms(3))
  have quote: "(length (((?a @ [sep]) @ gap') @ quote), None) \<in>
      set (rx_steps C text (rx_opt (Cls False quote_items)) True (length ((?a @ [sep]) @ gap'), None))"
    unfolding rx_opt_def
    by (rule run_at [where post = "v @ rest"])
      (use assms(9) in \<open>auto simp: assms(3) class_mem_def quote_items_def\<close>)
  have "length ((pre @ key @ gap) @ [sep] @ gap' @ quote) = length (((?a @ [sep]) @ gap') @ quote)" by simp
  then show ?thesis unfolding append.simps
    by (simp only:) (intro rx_seq_intro [OF lead] rx_seq_intro [OF key] rx_seq_intro [OF gap]
        rx_seq_intro [OF sep] rx_seq_intro [OF gap'] rx_seq_intro [OF quote], simp)
qed

lemma first_word_at:
  assumes "text = pre @ lit w @ post"
  shows "first_step C text ci (rx_str w) (length pre, v) (length (pre @ lit w), v)"
proof -
  have "length (pre @ lit w) = length pre + length w" by (simp add: lit_def)
  moreover have "slice text (length pre) (length pre + length w) = lit w"
    using slice_append [of pre "lit w" post] by (simp add: assms lit_def)
  ultimately show ?thesis using first_word [of "text" "length pre" w] by (simp add: assms lit_def)
qed

lemma first_run_at:
  assumes "text = pre @ run @ post" "\<forall>c \<in> set run. class_mem C ci n items c"
    and "post = [] \<or> \<not> class_mem C ci n items (hd post)" "lo \<le> length run"
  shows "first_step C text ci (Rep (Cls n items) lo None) (length pre, v) (length (pre @ run), v)"
proof -
  have "first_step C text ci (Rep (Cls n items) lo None) (length pre, v) (length pre + length run, v)"
  proof (rule first_class_run)
    show "\<forall>d < length run. in_class C text ci n items (length pre + d)"
      using assms(2) by (simp add: in_class_def assms(1) nth_append)
    show "\<not> in_class C text ci n items (length pre + length run)"
      using assms(3) by (cases post) (auto simp: in_class_def assms(1) nth_append)
  qed (use assms(4) in \<open>simp_all add: assms(1)\<close>)
  then show ?thesis by simp
qed

lemma first_plus_at:
  "text = pre @ run @ post \<Longrightarrow> \<forall>c \<in> set run. class_mem C ci n items c \<Longrightarrow>
   post = [] \<or> \<not> class_mem C ci n items (hd post) \<Longrightarrow> run \<noteq> [] \<Longrightarrow>
   first_step C text ci (rx_plus (Cls n items)) (length pre, v) (length (pre @ run), v)"
  unfolding rx_plus_def by (rule first_run_at) (simp_all add: Suc_le_eq)

lemma value_first:
  assumes "fold_ok C" "text = a @ v @ rest" "\<forall>c \<in> set v. value_char c" "4 \<le> length v"
    and "rest = [] \<or> value_end (hd rest)"
  shows "first_step C text True (rx_seq [Val (rx_least (Cls True (Space # quote_items)) 4)])
    (length a, w) (length (a @ v), Some (length a, length (a @ v)))"
proof -
  have "first_step C text True (Rep (Cls True (Space # quote_items)) 4 None) (length a, w) (length (a @ v), w)"
    by (rule first_run_at [OF assms(2)])
      (use assms(3-5) value_char_class(1) [OF assms(1)] value_end_class [OF assms(1)] in auto)
  then have "first_step C text True (Val (rx_least (Cls True (Space # quote_items)) 4))
      (length a, w) (length (a @ v), Some (length a, length (a @ v)))"
    unfolding rx_least_def by (rule first_Val)
  then show ?thesis by (rule first_seq(2)) (rule first_seq(1))
qed

lemma assignment_captured:
  assumes "leftmost_first C E" "fold_ok C" "signs_ok C" "case_ok C"
    and "text = pre @ key @ gap @ sep # gap' @ quote @ v @ rest" "sep \<in> {58, 61}"
    and "to_ascii_lowercase key \<in> set (map lit secret_keys)" "58 \<notin> set pre" "61 \<notin> set pre"
    and "pre = [] \<or> last pre < 128 \<and> \<not> is_ascii_alphanumeric (last pre)"
    and "\<forall>c \<in> set gap. blank c" "\<forall>c \<in> set gap'. blank c" "quote \<in> {[], [34], [39]}"
    and "\<forall>c \<in> set v. value_char c" "rest = [] \<or> value_end (hd rest)"
    and "valid_str text" "looks_like_secret_value v"
  shows "\<exists>m. m \<in> set (kv_matches E text [])"
proof -
  let ?a = "(pre @ key @ gap) @ [sep] @ gap' @ quote"
  have split: "text = ?a @ v @ rest" by (simp add: assms(5))
  have long: "8 \<le> length v" by (rule long_secret_value [OF assms(17)])
  have v: "v \<noteq> []" "value_char (hd v)" using long assms(14) by (cases v; simp)+
  note key = key_letters [OF assms(7)]
  have no_sign: "58 \<notin> set (pre @ key @ gap)" "61 \<notin> set (pre @ key @ gap)"
    using key assms(8,9,11) by (auto simp: blank_def)
  have "\<exists>i. (span_of text i (length (?a @ v)), Some (span_of text (length ?a) (length (?a @ v)))) \<in>
      set (captures_iter E KEY_VALUE_SECRET text)"
    unfolding KEY_VALUE_SECRET_pieces
  proof (rule leftmost_capture [OF assms(1)])
    show "length pre - 1 \<le> length pre" "length pre \<le> length text" by (simp_all add: assms(5))
    show "(length ?a, None) \<in> set (rx_steps C text (rx_seq ([lead_piece, key_piece, rx_star (Cls False [Space])] @
        [equals_piece] @ [rx_star (Cls False [Space]), rx_opt (Cls False quote_items)])) True (length pre - 1, None))"
      by (rule assignment_reached [OF assms(2,4,5,6,7,10-13)])
    show "first_step C text True (rx_seq [Val (rx_least (Cls True (Space # quote_items)) 4)])
        (length ?a, w) (length (?a @ v), Some (length ?a, length (?a @ v)))" for w
      by (rule value_first [OF assms(2) split assms(14) _ assms(15)]) (use long in simp)
    show "fst x = length ?a \<or> rx_steps C text (rx_seq [Val (rx_least (Cls True (Space # quote_items)) 4)]) True x = []"
      if "k \<le> length pre" "x \<in> set (rx_steps C text (rx_seq ([lead_piece, key_piece, rx_star (Cls False [Space])] @
        [equals_piece] @ [rx_star (Cls False [Space]), rx_opt (Cls False quote_items)])) True (k, None))" for k x
    proof (rule assignment_place [OF assms(2,3) _ assms(6) no_sign _ assms(12,13) v that(2)])
      show "text = (pre @ key @ gap) @ sep # gap' @ quote @ v @ rest" by (simp add: assms(5))
      show "k < length (pre @ key @ gap)" using that(1) key(1) by (cases key) simp_all
    qed
  qed
  then obtain i where "(span_of text i (length (?a @ v)), Some (span_of text (length ?a) (length (?a @ v)))) \<in>
      set (captures_iter E KEY_VALUE_SECRET text)" by blast
  from captured_value [OF this split assms(16,17)] show ?thesis unfolding kv_matches_def .
qed

section \<open>Connection strings\<close>

definition schemes :: "string list" where
  "schemes = [''http'', ''https''] @
     [''postgres'', ''postgresql'', ''mysql'', ''mariadb'', ''mongodb'', ''mongodb+srv'',
      ''redis'', ''rediss'', ''amqp'', ''amqps'', ''ftp'', ''ftps'', ''sftp'', ''ssh'', ''smtp'',
      ''smtps'', ''imap'', ''imaps'', ''ldap'', ''ldaps'', ''kafka'', ''nats'', ''mqtt'', ''mqtts'']"

definition scheme_piece :: rx where
  "scheme_piece = rx_alt [rx_seq [rx_str ''http'', rx_opt (rx_str ''s'')],
     rx_strs [''postgres'', ''postgresql'', ''mysql'', ''mariadb'', ''mongodb'', ''mongodb+srv'',
       ''redis'', ''rediss'', ''amqp'', ''amqps'', ''ftp'', ''ftps'', ''sftp'', ''ssh'', ''smtp'',
       ''smtps'', ''imap'', ''imaps'', ''ldap'', ''ldaps'', ''kafka'', ''nats'', ''mqtt'', ''mqtts'']]"

lemma CONNECTION_STRING_pieces:
  "CONNECTION_STRING = NoCase (rx_seq (([Word_Boundary, scheme_piece] @ [rx_str ''://''] @
     [rx_star (Cls True no_authority), rx_str '':'']) @ [Val (rx_plus (Cls True no_authority)), rx_str ''@'']))"
  by (simp add: CONNECTION_STRING_def scheme_piece_def)

definition authority_char :: "nat \<Rightarrow> bool" where
  "authority_char c \<longleftrightarrow> 33 \<le> c \<and> c \<le> 126 \<and> c \<noteq> 47 \<and> c \<noteq> 58 \<and> c \<noteq> 64"

lemma authority_class:
  assumes "fold_ok C" "authority_char c"
  shows "class_mem C True True no_authority c"
proof -
  have c: "33 \<le> c" "c \<le> 126" "c \<noteq> 47" "c \<noteq> 58" "c \<noteq> 64" using assms(2) by (simp_all add: authority_char_def)
  have "\<not> space_char C c" "\<forall>d \<in> set (variants C c). \<not> space_char C d \<and> d \<noteq> 47 \<and> d \<noteq> 58 \<and> d \<noteq> 64"
    using fold_okD(1,2) [OF assms(1), of c] c by fastforce+
  then show ?thesis using c by (auto simp: class_mem_def no_authority_def one_def rng_def list_ex_iff)
qed

lemma authority_only: "fold_ok C \<Longrightarrow> rx_only C (\<lambda>x. x \<notin> {58}) True (rx_star (Cls True no_authority))"
  using only_class [of C "{58}" True no_authority]
  by (simp add: class_mem_def no_authority_def one_def rng_def del: rx_only.simps(3))

lemma scheme_only:
  assumes "fold_ok C"
  shows "rx_only C (\<lambda>x. x \<notin> {58}) True (rx_seq [Word_Boundary, scheme_piece])"
proof -
  define S where "S = {58 :: nat}"
  have S: "\<forall>x \<in> S. sign x" by (simp add: S_def)
  have "rx_only C (\<lambda>x. x \<notin> S) True (rx_str ''http'')" "rx_only C (\<lambda>x. x \<notin> S) True (rx_str ''s'')"
    by (rule word_only [OF assms S], simp add: S_def)+
  moreover have "rx_only C (\<lambda>x. x \<notin> S) True (rx_strs [''postgres'', ''postgresql'', ''mysql'', ''mariadb'',
      ''mongodb'', ''mongodb+srv'', ''redis'', ''rediss'', ''amqp'', ''amqps'', ''ftp'', ''ftps'', ''sftp'',
      ''ssh'', ''smtp'', ''smtps'', ''imap'', ''imaps'', ''ldap'', ''ldaps'', ''kafka'', ''nats'', ''mqtt'', ''mqtts''])"
    by (rule words_only [OF assms S], simp add: S_def)
  ultimately have "rx_only C (\<lambda>x. x \<notin> S) True (rx_seq [Word_Boundary, scheme_piece])"
    unfolding scheme_piece_def by (simp del: rx_only.simps(2,3) rx_only_sugar(2))
  then show ?thesis unfolding S_def .
qed

lemma boundary_between:
  assumes "classes_ok C" "is_ascii_alphanumeric c"
    and "pre = [] \<or> last pre < 128 \<and> \<not> is_ascii_alphanumeric (last pre) \<and> last pre \<noteq> 95"
  shows "at_word_boundary C (pre @ c # post) (length pre)"
proof -
  have "word_char C c" using assms(1,2) by (auto simp: classes_ok_def ascii_defs)
  moreover have "\<not> word_char C (last pre)" if "pre \<noteq> []" using assms(1,3) that by (auto simp: classes_ok_def)
  ultimately show ?thesis
    by (cases "pre = []") (auto simp: at_word_boundary_def word_at_def nth_append last_conv_nth)
qed

lemma lower_head:
  assumes "to_ascii_lowercase u = lit w" "w \<noteq> []" "is_ascii_lowercase (of_char (hd w))"
  shows "\<exists>c u'. u = c # u' \<and> is_ascii_alphanumeric c"
  using assms by (cases u; cases w) (auto simp: to_ascii_lowercase_def lit_def ascii_defs split: if_splits)

lemma opt_taken:
  assumes "q \<in> set (rx_steps C s r ci p)" "fst p < fst q"
  shows "q \<in> set (rx_steps C s (rx_opt r) ci p)"
proof -
  let ?g = "rx_rep (rx_steps C s r ci) (length s) 0 (Some 0)"
  have "?g q = [q]" by (cases "length s") simp_all
  moreover have "q \<in> set (filter (\<lambda>q. fst p < fst q) (rx_steps C s r ci p))" using assms by simp
  ultimately have "q \<in> set (concat (map ?g (filter (\<lambda>q. fst p < fst q) (rx_steps C s r ci p))))"
    unfolding set_concat set_map image_image by (intro UN_I [of q]) simp_all
  then show ?thesis by (simp add: rx_opt_def del: set_concat set_map set_filter)
qed

lemma http_found:
  assumes "case_ok C" "text = pre @ u @ post" "to_ascii_lowercase u \<in> {lit ''http'', lit ''https''}"
  shows "(length (pre @ u), v) \<in> set (rx_steps C text (rx_seq [rx_str ''http'', rx_opt (rx_str ''s'')]) True (length pre, v))"
proof (cases "to_ascii_lowercase u = lit ''http''")
  case True
  then have "(length (pre @ u), v) \<in> set (rx_steps C text (rx_str ''http'') True (length pre, v))"
    by (rule folded_word [OF assms(1,2)])
  then show ?thesis by (rule rx_seq_intro) (simp add: rx_opt_def)
next
  case False
  then have "to_ascii_lowercase u = lit (''http'' @ ''s'')" using assms(3) by simp
  then obtain x y where x: "u = x @ y" "to_ascii_lowercase x = lit ''http''" "to_ascii_lowercase y = lit ''s''"
    using lower_split by blast
  have a: "(length (pre @ x), v) \<in> set (rx_steps C text (rx_str ''http'') True (length pre, v))"
    by (rule folded_word [OF assms(1) _ x(2)]) (simp add: assms(2) x(1))
  have b: "(length ((pre @ x) @ y), v) \<in> set (rx_steps C text (rx_str ''s'') True (length (pre @ x), v))"
    by (rule folded_word [OF assms(1) _ x(3)]) (simp add: assms(2) x(1))
  have "y \<noteq> []" using x(3) by (auto simp: to_ascii_lowercase_def lit_def)
  then show ?thesis using opt_taken [OF b] by (intro rx_seq_intro [OF a]) (simp add: x(1))
qed

lemma scheme_found:
  assumes "case_ok C" "text = pre @ u @ post" "to_ascii_lowercase u \<in> set (map lit schemes)"
  shows "(length (pre @ u), v) \<in> set (rx_steps C text scheme_piece True (length pre, v))"
proof -
  let ?b = "[''postgres'', ''postgresql'', ''mysql'', ''mariadb'', ''mongodb'', ''mongodb+srv'',
      ''redis'', ''rediss'', ''amqp'', ''amqps'', ''ftp'', ''ftps'', ''sftp'', ''ssh'', ''smtp'',
      ''smtps'', ''imap'', ''imaps'', ''ldap'', ''ldaps'', ''kafka'', ''nats'', ''mqtt'', ''mqtts'']"
  have "to_ascii_lowercase u \<in> lit ` set [''http'', ''https''] \<union> lit ` set ?b"
    using assms(3) unfolding schemes_def set_map set_append image_Un .
  then consider "to_ascii_lowercase u \<in> {lit ''http'', lit ''https''}"
    | "to_ascii_lowercase u \<in> set (map lit ?b)" unfolding set_map by force
  then have "\<exists>r \<in> {rx_seq [rx_str ''http'', rx_opt (rx_str ''s'')], rx_strs ?b}.
      (length (pre @ u), v) \<in> set (rx_steps C text r True (length pre, v))"
  proof cases
    case 1
    from http_found [OF assms(1,2) 1] show ?thesis by blast
  next
    case 2
    from folded_words [OF assms(1,2) 2] show ?thesis by blast
  qed
  then show ?thesis unfolding scheme_piece_def rx_alt_steps by simp
qed

lemma scheme_letters:
  assumes "to_ascii_lowercase u \<in> set (map lit schemes)"
  shows "\<exists>c u'. u = c # u' \<and> is_ascii_alphanumeric c" "58 \<notin> set u"
proof -
  obtain w where w: "w \<in> set schemes" "to_ascii_lowercase u = lit w" using assms by auto
  have "\<forall>w \<in> set schemes. w \<noteq> [] \<and> is_ascii_lowercase (of_char (hd w)) \<and> 58 \<notin> set (lit w)"
    by (simp add: schemes_def lit_def is_ascii_lowercase_def)
  then have h: "w \<noteq> []" "is_ascii_lowercase (of_char (hd w))" "58 \<notin> set (lit w)" using w(1) by blast+
  from lower_head [OF w(2) h(1,2)] show "\<exists>c u'. u = c # u' \<and> is_ascii_alphanumeric c" .
  show "58 \<notin> set u" using h(3) unfolding w(2) [symmetric] by (force simp: to_ascii_lowercase_def ascii_defs)
qed

lemma sign_word:
  assumes "signs_ok C" "sign (of_char c)" "q \<in> set (rx_steps C s (rx_str (c # w)) True p)"
  shows "s ! fst p = of_char c" "fst p < length s" "fst q = Suc (fst p + length w)"
proof -
  note q = rx_str_nocase [OF assms(3)]
  then have at: "fst p + 0 < length s" "class_mem C True False [Range (of_char c) (of_char c)] (s ! (fst p + 0))" by force+
  with exact_sign [OF assms(1,2)] show "s ! fst p = of_char c" by simp
  show "fst p < length s" using at(1) by simp
  show "fst q = Suc (fst p + length w)" using q by simp
qed

lemma colon_word:
  assumes "signs_ok C" "q \<in> set (rx_steps C s (rx_str (CHR '':'' # w)) True p)"
  shows "s ! fst p = 58" "fst q = Suc (fst p + length w)"
  using sign_word [OF assms(1) _ assms(2)] by simp_all

lemma connection_place:
  assumes "fold_ok C" "signs_ok C" "text = a @ lit ''://'' @ user @ lit '':'' @ v @ lit ''@'' @ rest"
    and "58 \<notin> set a" "58 \<notin> set user" "k \<le> length a"
    and "x \<in> set (rx_steps C text (rx_seq ([Word_Boundary, scheme_piece] @ [rx_str ''://''] @
      [rx_star (Cls True no_authority), rx_str '':''])) True (k, None))"
  shows "fst x = length (a @ lit ''://'' @ user @ lit '':'')"
proof -
  obtain k2 k3 k4 where k: "k2 \<in> set (rx_steps C text (rx_seq [Word_Boundary, scheme_piece]) True (k, None))"
    "k3 \<in> set (rx_steps C text (rx_str ''://'') True k2)"
    "k4 \<in> set (rx_steps C text (rx_star (Cls True no_authority)) True k3)"
    "x \<in> set (rx_steps C text (rx_str '':'') True k4)"
  proof -
    obtain k2 k3 where k2: "k2 \<in> set (rx_steps C text (rx_seq [Word_Boundary, scheme_piece]) True (k, None))"
      and "k3 \<in> set (rx_steps C text (rx_seq [rx_str ''://'']) True k2)"
      "x \<in> set (rx_steps C text (rx_seq [rx_star (Cls True no_authority), rx_str '':'']) True k3)"
      using assms(7) by (elim rx_seq_split)
    then obtain k4 where "k3 \<in> set (rx_steps C text (rx_str ''://'') True k2)"
      "k4 \<in> set (rx_steps C text (rx_star (Cls True no_authority)) True k3)"
      "x \<in> set (rx_steps C text (rx_str '':'') True k4)" by (simp only: rx_seq_steps) blast
    with k2 show thesis by (rule that)
  qed
  have in_text: "fst (k, None :: (nat \<times> nat) option) \<le> length text" using assms(6) by (simp add: assms(3))
  have ge: "k \<le> fst k2" "fst k2 \<le> length text" using rx_steps_ok [OF in_text k(1)] by (simp_all add: step_ok_def)
  note c1 = colon_word [OF assms(2) k(2)] and c2 = colon_word [OF assms(2) k(4)]
  have "fst k2 = length a"
    by (rule sign_place [where c = 58 and S = "{58}", OF assms(1,2) _ _ _ assms(6) ge(1)])
      (use assms(4) c1(1) rx_only_steps [OF k(1) scheme_only [OF assms(1)]] in \<open>auto simp: assms(3) lit_def\<close>)
  then have k3: "fst k3 = length (a @ lit ''://'')" using c1(2) by (simp add: lit_def)
  then have "fst k3 \<le> length text" by (simp add: assms(3))
  then have ge3: "fst k3 \<le> fst k4" using rx_steps_ok [OF _ k(3)] by (simp add: step_ok_def)
  have "fst k4 = length (a @ lit ''://'' @ user)"
  proof (rule same_place [where S = "{58}" and i = "fst k3" and s = "text"])
    show "text ! d \<notin> {58}" if "fst k3 \<le> d" "d < length (a @ lit ''://'' @ user)" for d
    proof -
      have "text ! d \<in> set user"
        by (rule nth_mid [where x = "a @ lit ''://''" and z = "lit '':'' @ v @ lit ''@'' @ rest"])
          (use that k3 in \<open>simp_all add: assms(3)\<close>)
      then show ?thesis using assms(5) by auto
    qed
    show "text ! length (a @ lit ''://'' @ user) \<in> {58}" by (simp add: assms(3) nth_append lit_def)
    show "text ! d \<notin> {58}" if "fst k3 \<le> d" "d < fst k4" for d
      by (rule rx_only_steps [OF k(3) authority_only [OF assms(1)] that])
  qed (use c2(1) k3 ge3 in simp_all)
  then show ?thesis using c2(2) by (simp add: lit_def)
qed

lemma connection_reached:
  assumes "fold_ok C" "case_ok C" "classes_ok C"
    and "text = pre @ scheme @ lit ''://'' @ user @ lit '':'' @ v @ lit ''@'' @ rest"
    and "to_ascii_lowercase scheme \<in> set (map lit schemes)"
    and "pre = [] \<or> last pre < 128 \<and> \<not> is_ascii_alphanumeric (last pre) \<and> last pre \<noteq> 95"
    and "\<forall>c \<in> set user. authority_char c"
  shows "(length ((pre @ scheme) @ lit ''://'' @ user @ lit '':''), None) \<in>
    set (rx_steps C text (rx_seq ([Word_Boundary, scheme_piece] @ [rx_str ''://''] @
      [rx_star (Cls True no_authority), rx_str '':''])) True (length pre, None))"
proof -
  let ?p = "pre @ scheme" and ?a = "(pre @ scheme) @ lit ''://'' @ user @ lit '':''"
  obtain c u' where scheme: "scheme = c # u'" "is_ascii_alphanumeric c" using scheme_letters [OF assms(5)] by blast
  have "(length pre, None) \<in> set (rx_steps C text Word_Boundary True (length pre, None))"
    using boundary_between [OF assms(3) scheme(2) assms(6)] by (simp add: assms(4) scheme(1))
  moreover have "(length ?p, None) \<in> set (rx_steps C text scheme_piece True (length pre, None))"
    by (rule scheme_found [OF assms(2) _ assms(5)]) (simp add: assms(4))
  moreover have "(length (?p @ lit ''://''), None) \<in> set (rx_steps C text (rx_str ''://'') True (length ?p, None))"
    by (rule folded_word [OF assms(2)]) (simp_all add: assms(4) to_ascii_lowercase_def lit_def ascii_defs)
  moreover have "(length ((?p @ lit ''://'') @ user), None) \<in>
      set (rx_steps C text (rx_star (Cls True no_authority)) True (length (?p @ lit ''://''), None))"
    unfolding rx_star_def
    by (rule run_at) (use assms(7) authority_class [OF assms(1)] in \<open>simp_all add: assms(4)\<close>)
  moreover have "(length (((?p @ lit ''://'') @ user) @ lit '':''), None) \<in>
      set (rx_steps C text (rx_str '':'') True (length ((?p @ lit ''://'') @ user), None))"
    by (rule folded_word [OF assms(2)]) (simp_all add: assms(4) to_ascii_lowercase_def lit_def ascii_defs)
  moreover have "length (((?p @ lit ''://'') @ user) @ lit '':'') = length ?a" by simp
  ultimately show ?thesis
    unfolding append.simps by (simp only: rx_seq_steps) blast
qed

lemma connection_captured:
  assumes "leftmost_first C E" "fold_ok C" "signs_ok C" "case_ok C" "classes_ok C"
    and "text = pre @ scheme @ lit ''://'' @ user @ lit '':'' @ v @ lit ''@'' @ rest"
    and "to_ascii_lowercase scheme \<in> set (map lit schemes)" "58 \<notin> set pre"
    and "pre = [] \<or> last pre < 128 \<and> \<not> is_ascii_alphanumeric (last pre) \<and> last pre \<noteq> 95"
    and "\<forall>c \<in> set user. authority_char c" "\<forall>c \<in> set v. authority_char c"
    and "valid_str text" "looks_like_secret_value v"
  shows "\<exists>m. m \<in> set (push_gated E CONNECTION_STRING text kind out)"
proof -
  let ?p = "pre @ scheme" and ?a = "(pre @ scheme) @ lit ''://'' @ user @ lit '':''"
  have split: "text = ?a @ v @ lit ''@'' @ rest" by (simp add: assms(6))
  have ne: "v \<noteq> []" using long_secret_value [OF assms(13)] by auto
  have user: "58 \<notin> set user" using assms(10) by (auto simp: authority_char_def)
  obtain c u' where scheme: "scheme = c # u'" "is_ascii_alphanumeric c" "58 \<notin> set scheme"
    using scheme_letters [OF assms(7)] by blast
  have stop: "\<not> class_mem C True True no_authority 58" "\<not> class_mem C True True no_authority 64"
    by (simp_all add: class_mem_def no_authority_def one_def rng_def)
  have "\<exists>i. (span_of text i (length ((?a @ v) @ lit ''@'')), Some (span_of text (length ?a) (length (?a @ v)))) \<in>
      set (captures_iter E CONNECTION_STRING text)"
    unfolding CONNECTION_STRING_pieces
  proof (rule leftmost_capture [OF assms(1)])
    show "length pre \<le> length pre" "length pre \<le> length text" by (simp_all add: assms(6))
    show "(length ?a, None) \<in> set (rx_steps C text (rx_seq ([Word_Boundary, scheme_piece] @ [rx_str ''://''] @
        [rx_star (Cls True no_authority), rx_str '':''])) True (length pre, None))"
      by (rule connection_reached [OF assms(2,4,5,6,7,9,10)])
    show "first_step C text True (rx_seq [Val (rx_plus (Cls True no_authority)), rx_str ''@''])
        (length ?a, w) (length ((?a @ v) @ lit ''@''), Some (length ?a, length (?a @ v)))" for w
    proof (rule first_seq(2) [OF first_Val first_seq(2) [OF _ first_seq(1)]])
      show "first_step C text True (rx_plus (Cls True no_authority)) (length ?a, w) (length (?a @ v), w)"
        by (rule first_plus_at [where post = "lit ''@'' @ rest"])
          (use ne assms(11) authority_class [OF assms(2)] stop in \<open>simp_all add: assms(6) lit_def\<close>)
      show "first_step C text True (rx_str ''@'') (length (?a @ v), Some (length ?a, length (?a @ v)))
          (length ((?a @ v) @ lit ''@''), Some (length ?a, length (?a @ v)))"
        by (rule first_word_at) (simp add: assms(6))
    qed
    show "fst x = length ?a \<or> rx_steps C text (rx_seq [Val (rx_plus (Cls True no_authority)), rx_str ''@'']) True x = []"
      if "k \<le> length pre" "x \<in> set (rx_steps C text (rx_seq ([Word_Boundary, scheme_piece] @ [rx_str ''://''] @
        [rx_star (Cls True no_authority), rx_str '':''])) True (k, None))" for k x
    proof -
      have "58 \<notin> set ?p" "k \<le> length ?p" using scheme(3) assms(8) that(1) by simp_all
      moreover have "text = ?p @ lit ''://'' @ user @ lit '':'' @ v @ lit ''@'' @ rest" by (simp add: assms(6))
      ultimately have "fst x = length ?a" using connection_place [OF assms(2,3) _ _ user _ that(2)] by blast
      then show ?thesis by (rule disjI1)
    qed
  qed
  then obtain i where "(span_of text i (length ((?a @ v) @ lit ''@'')), Some (span_of text (length ?a) (length (?a @ v)))) \<in>
      set (captures_iter E CONNECTION_STRING text)" by blast
  from captured_value [OF this split assms(12,13)] show ?thesis .
qed

section \<open>Authorization headers\<close>

definition bearer_items :: "class_item list" where
  "bearer_items = upper_lower_digit @ [one CHR ''.'', one CHR ''_'', one CHR ''~'', one CHR ''+'', one CHR ''/'',
     one CHR ''='', one CHR ''-'']"

definition bearer_char :: "nat \<Rightarrow> bool" where
  "bearer_char c \<longleftrightarrow> is_ascii_alphanumeric c \<or> c \<in> set (lit ''._~+/=-'')"

lemma bearer_class:
  "bearer_char c \<Longrightarrow> class_mem C True False bearer_items c"
  by (auto simp: bearer_char_def bearer_items_def class_mem_def upper_lower_digit_def one_def rng_def lit_def ascii_defs)

lemma bearer_stop:
  assumes "fold_ok C" "value_end c"
  shows "\<not> class_mem C True False bearer_items c"
proof -
  have "sign c" "c \<le> 39" using assms(2) by (auto simp: value_end_def sign_def ascii_defs)
  then show ?thesis unfolding nocase_class [OF assms(1) \<open>sign c\<close>]
    by (simp add: bearer_items_def class_mem_def upper_lower_digit_def one_def rng_def)
qed

lemma bearer_visible: "bearer_char c \<Longrightarrow> 33 \<le> c \<and> c \<le> 126"
  by (auto simp: bearer_char_def lit_def ascii_defs)

definition credential_kinds :: "string list" where
  "credential_kinds = [''bearer'', ''basic'', ''token'']"

lemma AUTHZ_BEARER_pieces:
  "AUTHZ_BEARER = NoCase (rx_seq (([Word_Boundary, rx_opt (rx_str ''proxy-''), rx_str ''authorization'',
     rx_star (Cls False [Space])] @ [rx_str '':''] @
     [rx_star (Cls False [Space]), rx_strs credential_kinds, rx_plus (Cls False [Space])]) @
     [Val (rx_least (Cls False bearer_items) 8)]))"
  by (simp add: AUTHZ_BEARER_def bearer_items_def credential_kinds_def)

lemma header_only:
  assumes "fold_ok C"
  shows "rx_only C (\<lambda>x. x \<notin> {58}) True (rx_seq [Word_Boundary, rx_opt (rx_str ''proxy-''), rx_str ''authorization'',
     rx_star (Cls False [Space])])"
proof -
  define S where "S = {58 :: nat}"
  have S: "\<forall>x \<in> S. sign x" by (simp add: S_def)
  have "rx_only C (\<lambda>x. x \<notin> S) True (rx_str ''proxy-'')" "rx_only C (\<lambda>x. x \<notin> S) True (rx_str ''authorization'')"
    by (rule word_only [OF assms S], simp add: S_def)+
  moreover have "rx_only C (\<lambda>x. x \<notin> S) True (Cls False [Space])"
    by (rule space_only [OF assms]) (simp add: S_def blank_def)
  ultimately have "rx_only C (\<lambda>x. x \<notin> S) True (rx_seq [Word_Boundary, rx_opt (rx_str ''proxy-''),
      rx_str ''authorization'', rx_star (Cls False [Space])])"
    by (simp del: rx_only.simps(2,3) rx_only_sugar(2))
  then show ?thesis unfolding S_def .
qed

lemma kinds_only: "fold_ok C \<Longrightarrow> rx_only C (\<lambda>x. x \<notin> {x. blank x}) True (rx_strs credential_kinds)"
  by (rule words_only) (simp_all add: sign_simps(3) credential_kinds_def blank_def)

text \<open>The end of a run of blanks.\<close>

lemma blanks_end:
  assumes "fold_ok C" "\<And>d. i \<le> d \<Longrightarrow> d < j \<Longrightarrow> class_mem C True False [Space] (s ! d)" "i \<le> n"
    and "\<not> class_mem C True False [Space] (s ! n)"
  shows "j \<le> n"
  using assms(2) [of n] assms(3,4) by (cases "j \<le> n") auto

lemma kind_step:
  assumes "fold_ok C" "q \<in> set (rx_steps C s (rx_strs credential_kinds) True p)"
  shows "fst p < fst q" "\<not> blank (s ! fst p)"
proof -
  obtain w where w: "w \<in> set credential_kinds" "q \<in> set (rx_steps C s (rx_str w) True p)"
    using assms(2) by (auto simp: rx_strs_def rx_alt_steps)
  note q = rx_str_nocase [OF w(2)]
  have len: "0 < length w" "\<not> blank (of_char (w ! 0))" using w(1) by (auto simp: credential_kinds_def blank_def)
  show "fst p < fst q" using q len(1) by simp
  show "\<not> blank (s ! fst p)"
    using rx_only_steps [OF assms(2) kinds_only [OF assms(1)], of "fst p"] q len(1) by simp
qed

lemma plus_step:
  assumes "q \<in> set (rx_steps C s (rx_plus (Cls n items)) ci p)"
  shows "class_mem C ci n items (s ! fst p)"
proof (rule ccontr)
  assume "\<not> class_mem C ci n items (s ! fst p)"
  then have "\<not> in_class C s ci n items (fst p)" by (simp add: in_class_def)
  from class_fails [OF this, of 1 None] assms show False by (simp add: rx_plus_def del: rx_steps.simps)
qed

text \<open>From the colon to the value: the word after the blanks is the kind, and more blanks follow it.\<close>

lemma credential_place:
  assumes "fold_ok C" "text = a @ gap @ kind @ gap' @ v @ rest" "fst k2 = length a"
    and "\<forall>c \<in> set gap. blank c" "\<forall>c \<in> set gap'. blank c" "gap' \<noteq> []"
    and "\<forall>c \<in> set kind. 33 \<le> c \<and> c \<le> 126" "kind \<noteq> []" "v \<noteq> []" "33 \<le> hd v \<and> hd v \<le> 126"
    and k3: "k3 \<in> set (rx_steps C text (rx_star (Cls False [Space])) True k2)"
    and k4: "k4 \<in> set (rx_steps C text (rx_strs credential_kinds) True k3)"
    and x: "x \<in> set (rx_steps C text (rx_plus (Cls False [Space])) True k4)"
  shows "fst x = length (a @ gap @ kind @ gap') \<or> blank (text ! fst x)"
proof -
  let ?S = "class_mem C True False [Space]"
  let ?n = "length (a @ gap)" and ?m = "length (a @ gap @ kind)" and ?b = "length (a @ gap @ kind @ gap')"
  have "text ! d \<in> set kind" if "?n \<le> d" "d < ?m" for d
    by (rule nth_mid [where x = "a @ gap" and z = "gap' @ v @ rest"]) (use that in \<open>simp_all add: assms(2)\<close>)
  then have kind_no: "\<not> ?S (text ! d)" if "?n \<le> d" "d < ?m" for d
    using that assms(7) visible_no_space [OF assms(1)] by blast
  have "text ! d \<in> set gap" if "fst k2 \<le> d" "d < ?n" for d
    by (rule nth_mid [where x = a and z = "kind @ gap' @ v @ rest"]) (use that assms(3) in \<open>simp_all add: assms(2)\<close>)
  then have gap_at: "blank (text ! d)" if "fst k2 \<le> d" "d < ?n" for d using that assms(4) by blast
  have "text ! d \<in> set gap'" if "?m \<le> d" "d < ?b" for d
    by (rule nth_mid [where x = "a @ gap @ kind" and z = "v @ rest"]) (use that in \<open>simp_all add: assms(2)\<close>)
  then have gap'_at: "blank (text ! d)" if "?m \<le> d" "d < ?b" for d using that assms(5) by blast
  have "text ! ?b \<in> set [hd v]"
    by (rule nth_mid [where x = "a @ gap @ kind @ gap'" and z = "tl v @ rest"])
      (use assms(9) in \<open>simp_all add: assms(2)\<close>)
  then have v_at: "\<not> ?S (text ! ?b)" using assms(10) visible_no_space [OF assms(1)] by simp
  have nm: "fst k2 \<le> ?n" "?n < ?m" "?m < ?b" using assms(3,6,8) by simp_all
  have only: "rx_only C ?S True (rx_star (Cls False [Space]))" "rx_only C ?S True (rx_plus (Cls False [Space]))"
    by simp_all
  have k3_le: "fst k3 \<le> ?n"
    by (rule blanks_end [OF assms(1) rx_only_steps [OF k3 only(1)] nm(1) kind_no]) (use nm in simp_all)
  have "fst k2 \<le> fst k3" using rx_steps_ok [OF _ k3] assms(3) by (simp add: assms(2) step_ok_def)
  then have "\<not> fst k3 < ?n" using kind_step(2) [OF assms(1) k4] gap_at [of "fst k3"] by blast
  with k3_le have k3_at: "fst k3 = ?n" by (meson linorder_neqE_nat not_less)
  have "\<not> ?m < fst k4"
    using rx_only_steps [OF k4 kinds_only [OF assms(1)], of ?m] gap'_at [of ?m] k3_at nm by auto
  moreover have "\<not> fst k4 < ?m"
    using plus_step [OF x] kind_no [of "fst k4"] kind_step(1) [OF assms(1) k4] k3_at by auto
  ultimately have k4_at: "fst k4 = ?m" by simp
  have "fst x \<le> ?b"
    by (rule blanks_end [OF assms(1) rx_only_steps [OF x only(2)] less_imp_le [OF nm(3) [folded k4_at]] v_at])
  moreover have "?m \<le> fst x" using rx_steps_ok [OF _ x] k4_at by (simp add: assms(2) step_ok_def)
  ultimately show ?thesis using gap'_at [of "fst x"] by (cases "fst x = ?b") auto
qed

lemma header_place:
  assumes "fold_ok C" "signs_ok C" "text = a @ 58 # gap @ kind @ gap' @ v @ rest"
    and "58 \<notin> set a" "k \<le> length a" "\<forall>c \<in> set gap. blank c" "\<forall>c \<in> set gap'. blank c" "gap' \<noteq> []"
    and "\<forall>c \<in> set kind. 33 \<le> c \<and> c \<le> 126" "kind \<noteq> []" "v \<noteq> []" "33 \<le> hd v \<and> hd v \<le> 126"
    and "x \<in> set (rx_steps C text (rx_seq ([Word_Boundary, rx_opt (rx_str ''proxy-''), rx_str ''authorization'',
      rx_star (Cls False [Space])] @ [rx_str '':''] @
      [rx_star (Cls False [Space]), rx_strs credential_kinds, rx_plus (Cls False [Space])])) True (k, None))"
  shows "fst x = length (a @ 58 # gap @ kind @ gap') \<or>
    rx_steps C text (rx_seq [Val (rx_least (Cls False bearer_items) 8)]) True x = []"
proof -
  let ?sp = "rx_star (Cls False [Space])"
  obtain k1 k2 k3 k4 where k: "k1 \<in> set (rx_steps C text (rx_seq [Word_Boundary, rx_opt (rx_str ''proxy-''),
      rx_str ''authorization'', ?sp]) True (k, None))" "k2 \<in> set (rx_steps C text (rx_str '':'') True k1)"
    "k3 \<in> set (rx_steps C text ?sp True k2)" "k4 \<in> set (rx_steps C text (rx_strs credential_kinds) True k3)"
    "x \<in> set (rx_steps C text (rx_plus (Cls False [Space])) True k4)"
  proof -
    obtain k1 k2 where k1: "k1 \<in> set (rx_steps C text (rx_seq [Word_Boundary, rx_opt (rx_str ''proxy-''),
        rx_str ''authorization'', ?sp]) True (k, None))"
      and "k2 \<in> set (rx_steps C text (rx_seq [rx_str '':'']) True k1)"
      "x \<in> set (rx_steps C text (rx_seq [?sp, rx_strs credential_kinds, rx_plus (Cls False [Space])]) True k2)"
      using assms(13) by (elim rx_seq_split)
    then obtain k3 k4 where "k2 \<in> set (rx_steps C text (rx_str '':'') True k1)"
      "k3 \<in> set (rx_steps C text ?sp True k2)" "k4 \<in> set (rx_steps C text (rx_strs credential_kinds) True k3)"
      "x \<in> set (rx_steps C text (rx_plus (Cls False [Space])) True k4)" by (simp only: rx_seq_steps) blast
    with k1 show thesis by (rule that)
  qed
  have in_text: "fst (k, None :: (nat \<times> nat) option) \<le> length text" using assms(5) by (simp add: assms(3))
  have ge: "k \<le> fst k1" using rx_steps_ok [OF in_text k(1)] by (simp add: step_ok_def)
  note colon = colon_word [OF assms(2) k(2)]
  have "fst k1 = length a"
    by (rule sign_place [where c = 58 and S = "{58}", OF assms(1,2,3) _ _ assms(5) ge])
      (use assms(4) colon(1) rx_only_steps [OF k(1) header_only [OF assms(1)]] in auto)
  then have k2: "fst k2 = length (a @ [58])" using colon(2) by simp
  have "text = (a @ [58]) @ gap @ kind @ gap' @ v @ rest" by (simp add: assms(3))
  from credential_place [OF assms(1) this k2 assms(6-12) k(3-5)]
  have "fst x = length (a @ 58 # gap @ kind @ gap') \<or> blank (text ! fst x)" by simp
  then show ?thesis
  proof
    assume "blank (text ! fst x)"
    then have "value_end (text ! fst x)" by (auto simp: value_end_def blank_def)
    then have "\<not> in_class C text True False bearer_items (fst x)"
      using bearer_stop [OF assms(1)] by (simp add: in_class_def)
    from class_fails [OF this] show ?thesis by (simp add: rx_least_def rx_seq_def del: rx_steps.simps(6))
  qed simp
qed

lemma kind_letters:
  assumes "to_ascii_lowercase u \<in> set (map lit credential_kinds)"
  shows "u \<noteq> []" "\<forall>c \<in> set u. 33 \<le> c \<and> c \<le> 126"
proof -
  obtain w where w: "w \<in> set credential_kinds" "to_ascii_lowercase u = lit w" using assms by auto
  have "\<forall>w \<in> set credential_kinds. w \<noteq> [] \<and> list_all (\<lambda>c. 97 \<le> c \<and> c \<le> 122) (lit w)"
    by (simp add: credential_kinds_def lit_def)
  then have h: "w \<noteq> []" "\<forall>c \<in> set (to_ascii_lowercase u). 97 \<le> c \<and> c \<le> 122"
    using w by (auto simp: list_all_iff)
  show "u \<noteq> []" using w(2) h(1) by (auto simp: to_ascii_lowercase_def lit_def)
  show "\<forall>c \<in> set u. 33 \<le> c \<and> c \<le> 126" by (rule lower_range) (use h(2) in auto)
qed

lemma authorization_letters:
  assumes "to_ascii_lowercase u = lit ''authorization''"
  shows "\<exists>c u'. u = c # u' \<and> is_ascii_alphanumeric c" "58 \<notin> set u"
proof -
  show "\<exists>c u'. u = c # u' \<and> is_ascii_alphanumeric c"
    by (rule lower_head [OF assms]) (simp_all add: is_ascii_lowercase_def)
  have "58 \<notin> set (to_ascii_lowercase u)" unfolding assms by (simp add: lit_def)
  then show "58 \<notin> set u" by (force simp: to_ascii_lowercase_def ascii_defs)
qed

lemma header_reached:
  assumes "fold_ok C" "case_ok C" "classes_ok C"
    and "text = pre @ name @ gap @ 58 # gap' @ kind @ gap'' @ v @ rest"
    and "to_ascii_lowercase name = lit ''authorization''" "to_ascii_lowercase kind \<in> set (map lit credential_kinds)"
    and "pre = [] \<or> last pre < 128 \<and> \<not> is_ascii_alphanumeric (last pre) \<and> last pre \<noteq> 95"
    and "\<forall>c \<in> set gap. blank c" "\<forall>c \<in> set gap'. blank c" "\<forall>c \<in> set gap''. blank c" "gap'' \<noteq> []"
  shows "(length (((pre @ name) @ gap) @ 58 # gap' @ kind @ gap''), None) \<in>
    set (rx_steps C text (rx_seq ([Word_Boundary, rx_opt (rx_str ''proxy-''), rx_str ''authorization'',
      rx_star (Cls False [Space])] @ [rx_str '':''] @
      [rx_star (Cls False [Space]), rx_strs credential_kinds, rx_plus (Cls False [Space])])) True (length pre, None))"
proof -
  let ?sp = "rx_star (Cls False [Space])" and ?p = "(pre @ name) @ gap"
  let ?q = "((?p @ [58]) @ gap') @ kind" and ?a = "?p @ 58 # gap' @ kind @ gap''"
  obtain c u' where name: "name = c # u'" "is_ascii_alphanumeric c" using authorization_letters [OF assms(5)] by blast
  have "(length pre, None) \<in> set (rx_steps C text Word_Boundary True (length pre, None))"
    using boundary_between [OF assms(3) name(2) assms(7)] by (simp add: assms(4) name(1))
  moreover have "(length pre, None) \<in> set (rx_steps C text (rx_opt (rx_str ''proxy-'')) True (length pre, None))"
    by (simp add: rx_opt_def)
  moreover have "(length (pre @ name), None) \<in> set (rx_steps C text (rx_str ''authorization'') True (length pre, None))"
    by (rule folded_word [OF assms(2) _ assms(5)]) (simp add: assms(4))
  moreover have "(length ?p, None) \<in> set (rx_steps C text ?sp True (length (pre @ name), None))"
    by (rule blanks_at [OF assms(1) _ assms(8)]) (simp add: assms(4))
  moreover have "(length (?p @ [58]), None) \<in> set (rx_steps C text (rx_str '':'') True (length ?p, None))"
    by (rule folded_word [OF assms(2)]) (simp_all add: assms(4) to_ascii_lowercase_def lit_def ascii_defs)
  moreover have "(length ((?p @ [58]) @ gap'), None) \<in> set (rx_steps C text ?sp True (length (?p @ [58]), None))"
    by (rule blanks_at [OF assms(1) _ assms(9)]) (simp add: assms(4))
  moreover have "(length ?q, None) \<in> set (rx_steps C text (rx_strs credential_kinds) True (length ((?p @ [58]) @ gap'), None))"
    by (rule folded_words [OF assms(2) _ assms(6)]) (simp add: assms(4))
  moreover have "(length (?q @ gap''), None) \<in> set (rx_steps C text (rx_plus (Cls False [Space])) True (length ?q, None))"
    unfolding rx_plus_def
    by (rule run_at) (use assms(10,11) blank_class [OF assms(1)] in \<open>simp_all add: assms(4) Suc_le_eq\<close>)
  moreover have "length (?q @ gap'') = length ?a" by simp
  ultimately show ?thesis unfolding append.simps by (simp only: rx_seq_steps) blast
qed

lemma header_captured:
  assumes "leftmost_first C E" "fold_ok C" "signs_ok C" "case_ok C" "classes_ok C"
    and "text = pre @ name @ gap @ 58 # gap' @ kind @ gap'' @ v @ rest"
    and "to_ascii_lowercase name = lit ''authorization''" "to_ascii_lowercase kind \<in> set (map lit credential_kinds)"
    and "58 \<notin> set pre" "pre = [] \<or> last pre < 128 \<and> \<not> is_ascii_alphanumeric (last pre) \<and> last pre \<noteq> 95"
    and "\<forall>c \<in> set gap. blank c" "\<forall>c \<in> set gap'. blank c" "\<forall>c \<in> set gap''. blank c" "gap'' \<noteq> []"
    and "\<forall>c \<in> set v. bearer_char c" "rest = [] \<or> value_end (hd rest)"
    and "valid_str text" "looks_like_secret_value v"
  shows "\<exists>m. m \<in> set (push_gated E AUTHZ_BEARER text k out)"
proof -
  let ?sp = "rx_star (Cls False [Space])" and ?p = "(pre @ name) @ gap"
  let ?a = "?p @ 58 # gap' @ kind @ gap''"
  let ?as = "[Word_Boundary, rx_opt (rx_str ''proxy-''), rx_str ''authorization'', ?sp] @ [rx_str '':''] @
      [?sp, rx_strs credential_kinds, rx_plus (Cls False [Space])]"
  have split: "text = ?a @ v @ rest" by (simp add: assms(6))
  have long: "8 \<le> length v" by (rule long_secret_value [OF assms(18)])
  then have v: "v \<noteq> []" "33 \<le> hd v \<and> hd v \<le> 126" using assms(15) bearer_visible [of "hd v"] by (cases v; simp)+
  obtain c u' where name: "name = c # u'" "is_ascii_alphanumeric c" "58 \<notin> set name"
    using authorization_letters [OF assms(7)] by blast
  have "\<exists>i. (span_of text i (length (?a @ v)), Some (span_of text (length ?a) (length (?a @ v)))) \<in>
      set (captures_iter E AUTHZ_BEARER text)"
    unfolding AUTHZ_BEARER_pieces
  proof (rule leftmost_capture [OF assms(1)])
    show "length pre \<le> length pre" "length pre \<le> length text" by (simp_all add: assms(6))
    show "(length ?a, None) \<in> set (rx_steps C text (rx_seq ?as) True (length pre, None))"
      by (rule header_reached [OF assms(2,4,5,6,7,8,10-14)])
    show "first_step C text True (rx_seq [Val (rx_least (Cls False bearer_items) 8)])
        (length ?a, w) (length (?a @ v), Some (length ?a, length (?a @ v)))" for w
      unfolding rx_least_def
    proof (rule first_seq(2) [OF first_Val first_seq(1)])
      show "first_step C text True (Rep (Cls False bearer_items) 8 None) (length ?a, w) (length (?a @ v), w)"
        by (rule first_run_at [OF split])
          (use assms(15,16) long bearer_class bearer_stop [OF assms(2)] in auto)
    qed
    show "fst x = length ?a \<or> rx_steps C text (rx_seq [Val (rx_least (Cls False bearer_items) 8)]) True x = []"
      if "k \<le> length pre" "x \<in> set (rx_steps C text (rx_seq ?as) True (k, None))" for k x
    proof (rule header_place [OF assms(2,3) _ _ _ assms(12,13,14) kind_letters(2,1) [OF assms(8)] v that(2)])
      show "text = ?p @ 58 # gap' @ kind @ gap'' @ v @ rest" by (simp add: assms(6))
      show "58 \<notin> set ?p" using name(3) assms(9,11) by (auto simp: blank_def)
      show "k \<le> length ?p" using that(1) by simp
    qed
  qed
  then obtain i where "(span_of text i (length (?a @ v)), Some (span_of text (length ?a) (length (?a @ v)))) \<in>
      set (captures_iter E AUTHZ_BEARER text)" by blast
  from captured_value [OF this split assms(17,18)] show ?thesis .
qed

end
