(* ===== verification/Redact_Url.thy ===== *)
theory Redact_Url
  imports Redact_Structural
begin

text \<open>
  What the pattern for sensitive query parameters finds. Its path piece is greedy, so the last
  sensitive parameter of the URL is the one that counts, whatever parameters precede it.
\<close>

section \<open>The parameter names\<close>

abbreviation token_names :: "string list" where
  "token_names \<equiv> [''access_token'', ''refresh_token'', ''id_token'', ''auth_token'', ''token'']"

abbreviation password_names :: "string list" where
  "password_names \<equiv> [''client_secret'', ''password'', ''passwd'', ''pwd'', ''signature'']"

definition url_keys :: "string list" where "url_keys = names token_names password_names"

definition query_sign :: rx where "query_sign = Cls False [one CHR ''?'', one CHR ''&'']"

definition query_value :: rx where
  "query_value = Val (rx_least (Cls True [Space, one CHR ''&'', one CHR ''#'']) 3)"

lemma URL_EMBEDDED_SECRET_pieces:
  "URL_EMBEDDED_SECRET = NoCase (rx_seq ([Word_Boundary, rx_str ''http'', rx_opt (rx_str ''s''), rx_str ''://''] @
     [rx_star (Cls True [Space]), query_sign, name_piece token_names password_names, rx_str ''='', query_value]))"
  by (simp add: URL_EMBEDDED_SECRET_def query_sign_def query_value_def name_piece_def)

text \<open>Does a sensitive parameter follow?\<close>

fun secret_param :: "str \<Rightarrow> bool" where
  "secret_param [] = False"
| "secret_param (c # s) =
     ((c = 63 \<or> c = 38) \<and> 61 \<in> set s \<and> to_ascii_lowercase (takeWhile (\<lambda>x. x \<noteq> 61) s) \<in> set (map lit url_keys) \<or>
      secret_param s)"

lemma secret_param_split:
  assumes "c = 63 \<or> c = 38" "to_ascii_lowercase n \<in> set (map lit url_keys)" "61 \<notin> set n"
  shows "secret_param (a @ c # n @ 61 # b)"
proof (induction a)
  case Nil
  have "takeWhile (\<lambda>x. x \<noteq> 61) (n @ 61 # b) = n" using assms(3) by (simp add: takeWhile_append)
  then show ?case using assms(1,2) by simp
qed simp

lemma url_key_letters:
  assumes "to_ascii_lowercase u \<in> set (map lit url_keys)"
  shows "61 \<notin> set u" "63 \<notin> set u" "38 \<notin> set u" "\<forall>c \<in> set u. 33 \<le> c \<and> c \<le> 126"
proof -
  have no: "of_char c \<notin> set u" if "c \<in> {CHR ''='', CHR ''?'', CHR ''&''}" for c
    by (rule no_sign_in_word [OF assms]) (use that in \<open>auto simp: url_keys_def names_def lit_def sign_def ascii_defs\<close>)
  from no [of "CHR ''=''"] no [of "CHR ''?''"] no [of "CHR ''&''"]
  show "61 \<notin> set u" "63 \<notin> set u" "38 \<notin> set u" by simp_all
  have "\<forall>w \<in> set url_keys. list_all (\<lambda>c. 45 \<le> c \<and> c \<le> 122) (lit w)"
    by (simp add: url_keys_def names_def lit_def)
  then have "\<forall>c \<in> set (to_ascii_lowercase u). 45 \<le> c \<and> c \<le> 122" using assms by (auto simp: list_all_iff)
  then show "\<forall>c \<in> set u. 33 \<le> c \<and> c \<le> 126" by (rule lower_range)
qed

section \<open>What a name piece has read\<close>

lemma exact_letter:
  assumes "fold_ok C" "class_mem C True False [Range c c] x" "x < 128" "c < 128" "\<not> is_ascii_uppercase c"
  shows "(if is_ascii_uppercase x then x + 32 else x) = c"
proof -
  consider "x = c" | "c \<in> set (variants C x)" using assms(2) by (auto simp: class_mem_def list_ex_iff)
  then show ?thesis
  proof cases
    case 1
    then show ?thesis using assms(5) by simp
  next
    case 2
    then have "c = x + 32 \<or> x = c + 32" "65 \<le> c" "is_ascii_uppercase x \<or> is_ascii_lowercase x"
      using fold_okD(2-4) [OF assms(1,3), of c] assms(4) by blast+
    then show ?thesis using assms(4,5) by (auto simp: ascii_defs)
  qed
qed

lemma word_read:
  assumes "fold_ok C" "q \<in> set (rx_steps C s (rx_str w) True p)" "\<forall>c \<in> set w. of_char c < (128 :: nat) \<and> \<not> is_ascii_uppercase (of_char c)"
    and "\<forall>c \<in> set (slice s (fst p) (fst q)). c < 128"
  shows "to_ascii_lowercase (slice s (fst p) (fst q)) = lit w"
proof -
  note q = rx_str_nocase [OF assms(2)]
  have len: "length (slice s (fst p) (fst q)) = length w"
  proof (cases w)
    case (Cons c w')
    then have "length w - 1 < length w" by simp
    with q have "fst p + (length w - 1) < length s" by blast
    with Cons have "length w \<le> length s - fst p" by simp
    then show ?thesis using conjunct1 [OF q] by (simp add: slice_def)
  qed (use q in \<open>simp add: slice_def\<close>)
  show ?thesis
  proof (rule nth_equalityI)
    fix i assume "i < length (to_ascii_lowercase (slice s (fst p) (fst q)))"
    then have i: "i < length w" by (simp add: len to_ascii_lowercase_def)
    then have at: "slice s (fst p) (fst q) ! i = s ! (fst p + i)" using len q by (simp add: slice_def)
    have "s ! (fst p + i) < 128" using assms(4) i at len by (metis nth_mem)
    moreover have "class_mem C True False [Range (of_char (w ! i)) (of_char (w ! i))] (s ! (fst p + i))"
      using q i by blast
    moreover have "of_char (w ! i) < (128 :: nat)" "\<not> is_ascii_uppercase (of_char (w ! i))" using assms(3) i by auto
    ultimately have "(if is_ascii_uppercase (s ! (fst p + i)) then s ! (fst p + i) + 32 else s ! (fst p + i)) = of_char (w ! i)"
      by (intro exact_letter [OF assms(1)])
    then show "to_ascii_lowercase (slice s (fst p) (fst q)) ! i = lit w ! i"
      using i len at by (simp add: to_ascii_lowercase_def lit_def split: if_splits)
  qed (simp add: len to_ascii_lowercase_def lit_def)
qed

lemma words_read:
  assumes "fold_ok C" "q \<in> set (rx_steps C s (rx_strs ws) True p)"
    and "\<forall>w \<in> set ws. \<forall>c \<in> set w. of_char c < (128 :: nat) \<and> \<not> is_ascii_uppercase (of_char c)"
    and "\<forall>c \<in> set (slice s (fst p) (fst q)). c < 128"
  shows "to_ascii_lowercase (slice s (fst p) (fst q)) \<in> set (map lit ws)"
proof -
  obtain w where w: "w \<in> set ws" "q \<in> set (rx_steps C s (rx_str w) True p)"
    using assms(2) by (auto simp: rx_strs_def rx_alt_steps)
  have "\<forall>c \<in> set w. of_char c < (128 :: nat) \<and> \<not> is_ascii_uppercase (of_char c)" using assms(3) w(1) by blast
  from word_read [OF assms(1) w(2) this assms(4)] w(1) show ?thesis by simp
qed

lemma opt_class_read:
  assumes "q \<in> set (rx_steps C s (rx_opt (Cls n items)) ci p)"
  shows "fst q = fst p \<or> fst p < length s \<and> class_mem C ci n items (s ! fst p) \<and> fst q = Suc (fst p)"
  using assms by (cases "length s") (auto simp: rx_opt_def split: if_splits)

lemma api_key_read:
  assumes "fold_ok C" "signs_ok C" "fst p \<le> length s" "q \<in> set (rx_steps C s api_key_name True p)"
    and "\<forall>c \<in> set (slice s (fst p) (fst q)). c < 128"
  shows "\<exists>m \<in> {[], ''_'', ''-''}. to_ascii_lowercase (slice s (fst p) (fst q)) = lit (''api'' @ m @ ''key'')"
proof -
  let ?dash = "rx_opt (Cls False [one CHR ''_'', one CHR ''-''])"
  obtain k1 k2 where k: "k1 \<in> set (rx_steps C s (rx_str ''api'') True p)" "k2 \<in> set (rx_steps C s ?dash True k1)"
    "q \<in> set (rx_steps C s (rx_str ''key'') True k2)"
    using assms(4) unfolding api_key_name_def by (simp only: rx_seq_steps) blast
  have o1: "fst p \<le> fst k1" "fst k1 \<le> length s" using rx_steps_ok [OF assms(3) k(1)] by (simp_all add: step_ok_def)
  have o2: "fst k1 \<le> fst k2" "fst k2 \<le> length s" using rx_steps_ok [OF o1(2) k(2)] by (simp_all add: step_ok_def)
  have o3: "fst k2 \<le> fst q" "fst q \<le> length s" using rx_steps_ok [OF o2(2) k(3)] by (simp_all add: step_ok_def)
  have all: "slice s (fst p) (fst q) = slice s (fst p) (fst k1) @ slice s (fst k1) (fst k2) @ slice s (fst k2) (fst q)"
    using o1 o2 o3 by (simp add: slice_slice_append)
  have api: "to_ascii_lowercase (slice s (fst p) (fst k1)) = lit ''api''"
    by (rule word_read [OF assms(1) k(1)]) (use assms(5) all in \<open>simp_all add: is_ascii_uppercase_def\<close>)
  have key: "to_ascii_lowercase (slice s (fst k2) (fst q)) = lit ''key''"
    by (rule word_read [OF assms(1) k(3)]) (use assms(5) all in \<open>simp_all add: is_ascii_uppercase_def\<close>)
  have "\<exists>m \<in> {[], ''_'', ''-''}. slice s (fst k1) (fst k2) = lit m"
  proof (cases "fst k2 = fst k1")
    case False
    then have d: "fst k1 < length s" "class_mem C True False [Range 95 95, Range 45 45] (s ! fst k1)" "fst k2 = Suc (fst k1)"
      using opt_class_read [OF k(2)] by (simp_all add: one_def rng_def)
    then have "class_mem C True False [Range 95 95] (s ! fst k1) \<or> class_mem C True False [Range 45 45] (s ! fst k1)"
      by (auto simp: class_mem_def list_ex_iff)
    then have "s ! fst k1 = 95 \<or> s ! fst k1 = 45"
      using exact_sign [OF assms(2)] by (auto simp: sign_def ascii_defs)
    then show ?thesis using slice_Suc [OF d(1)] d(3) by (auto simp: lit_def)
  qed (simp add: slice_def lit_def)
  then obtain m where m: "m \<in> {[], ''_'', ''-''}" "slice s (fst k1) (fst k2) = lit m" by blast
  then have "to_ascii_lowercase (slice s (fst k1) (fst k2)) = lit m"
    by (auto simp: to_ascii_lowercase_def lit_def is_ascii_uppercase_def)
  with api key m(1) show ?thesis
    unfolding all by (intro bexI [of _ m]) (simp_all add: to_ascii_lowercase_def lit_def)
qed

lemma name_read:
  assumes "fold_ok C" "signs_ok C" "fst p \<le> length s" "q \<in> set (rx_steps C s (name_piece as bs) True p)"
    and "\<forall>w \<in> set (as @ bs). \<forall>c \<in> set w. of_char c < (128 :: nat) \<and> \<not> is_ascii_uppercase (of_char c)"
    and "\<forall>c \<in> set (slice s (fst p) (fst q)). c < 128"
  shows "to_ascii_lowercase (slice s (fst p) (fst q)) \<in> set (map lit (names as bs))"
proof -
  have as: "\<forall>w \<in> set as. \<forall>c \<in> set w. of_char c < (128 :: nat) \<and> \<not> is_ascii_uppercase (of_char c)"
    and bs: "\<forall>w \<in> set bs. \<forall>c \<in> set w. of_char c < (128 :: nat) \<and> \<not> is_ascii_uppercase (of_char c)"
    using assms(5) unfolding set_append by blast+
  consider "q \<in> set (rx_steps C s (rx_strs as) True p)" | "q \<in> set (rx_steps C s api_key_name True p)"
    | "q \<in> set (rx_steps C s (rx_strs bs) True p)"
    using assms(4) unfolding name_piece_def rx_alt_steps by auto
  then show ?thesis
  proof cases
    case 1
    from words_read [OF assms(1) 1 as assms(6)] show ?thesis by (auto simp: names_def)
  next
    case 2
    from api_key_read [OF assms(1-3) 2 assms(6)] show ?thesis by (auto simp: names_def)
  next
    case 3
    from words_read [OF assms(1) 3 bs assms(6)] show ?thesis by (auto simp: names_def)
  qed
qed

section \<open>Every way to read a run\<close>

lemma run_steps:
  assumes "\<forall>d < k. in_class C s ci n items (i + d)" "\<not> in_class C s ci n items (i + k)" "k < fuel"
  shows "rx_rep (rx_steps C s (Cls n items) ci) fuel 0 None (i, v) = map (\<lambda>d. (i + d, v)) (rev [0..<Suc k])"
  using assms
proof (induction k arbitrary: i fuel)
  case 0
  then obtain fu where "fuel = Suc fu" by (cases fuel) auto
  with 0 show ?case by (simp add: cls_steps del: rx_steps.simps)
next
  case (Suc k)
  then obtain fu where fu: "fuel = Suc fu" "k < fu" by (cases fuel) auto
  have c: "in_class C s ci n items i" using Suc.prems(1) by (metis add_0_right zero_less_Suc)
  have "\<forall>d < k. in_class C s ci n items (Suc i + d)" using Suc.prems(1) by (metis Suc_less_eq add_Suc_shift)
  moreover have "\<not> in_class C s ci n items (Suc i + k)" using Suc.prems(2) by simp
  ultimately have "rx_rep (rx_steps C s (Cls n items) ci) fu 0 None (Suc i, v) =
      map (\<lambda>d. (Suc i + d, v)) (rev [0..<Suc k])" using Suc.IH fu(2) by blast
  moreover have "[0..<Suc (Suc k)] = 0 # map Suc [0..<Suc k]"
    by (simp add: upt_conv_Cons map_Suc_upt del: upt_Suc)
  then have "rev [0..<Suc (Suc k)] = map Suc (rev [0..<Suc k]) @ [0]" by (simp add: rev_map del: upt_Suc)
  ultimately show ?case using c by (simp add: fu(1) cls_steps comp_def del: rx_steps.simps upt_Suc)
qed

lemma descending_first:
  assumes "m \<le> k" "\<And>d. m < d \<Longrightarrow> d \<le> k \<Longrightarrow> f d = []" "\<exists>t. f m = h # t"
  shows "\<exists>t. concat (map f (rev [0..<Suc k])) = h # t"
proof -
  have "[0..<Suc k] = [0..<m] @ [m..<Suc k]"
    using upt_add_eq_append [of 0 m "Suc k - m"] assms(1) by simp
  moreover have "[m..<Suc k] = m # [Suc m..<Suc k]" using assms(1) by (intro upt_conv_Cons) simp
  ultimately have "[0..<Suc k] = [0..<m] @ m # [Suc m..<Suc k]" by (simp only:)
  then have "concat (map f (rev [0..<Suc k])) =
      concat (map f (rev [Suc m..<Suc k])) @ f m @ concat (map f (rev [0..<m]))" by (simp del: upt_Suc)
  moreover have "concat (map f (rev [Suc m..<Suc k])) = []" using assms(2) by auto
  ultimately show ?thesis using assms(3) by (metis append_Cons append_Nil)
qed

section \<open>The last sensitive parameter\<close>

text \<open>
  \<open>query_at text a path q name v tail rest\<close>: after \<open>a\<close> the text has a run without blanks in which a
  sensitive name and its value \<open>v\<close> are the last sensitive parameter.
\<close>

definition query_at :: "str \<Rightarrow> str \<Rightarrow> str \<Rightarrow> nat \<Rightarrow> str \<Rightarrow> str \<Rightarrow> str \<Rightarrow> str \<Rightarrow> bool" where
  "query_at text a path q name v tail rest \<longleftrightarrow>
     text = a @ path @ q # name @ 61 # v @ tail @ rest \<and> (\<forall>c \<in> set (path @ v @ tail). 33 \<le> c \<and> c \<le> 126) \<and>
     (q = 63 \<or> q = 38) \<and> to_ascii_lowercase name \<in> set (map lit url_keys) \<and> (\<forall>c \<in> set v. c \<noteq> 38 \<and> c \<noteq> 35) \<and>
     (tail = [] \<or> hd tail = 38 \<or> hd tail = 35) \<and> \<not> secret_param (v @ tail) \<and> (rest = [] \<or> blank (hd rest))"

lemma query_sign_exact:
  assumes "signs_ok C" "q \<in> set (rx_steps C s query_sign True p)"
  shows "fst p < length s" "s ! fst p = 63 \<or> s ! fst p = 38" "fst q = Suc (fst p)"
proof -
  have "fst p < length s \<and> class_mem C True False [Range 63 63, Range 38 38] (s ! fst p) \<and> fst q = Suc (fst p)"
    using assms(2) by (auto simp: query_sign_def one_def rng_def split: if_splits)
  moreover from this have "class_mem C True False [Range 63 63] (s ! fst p) \<or> class_mem C True False [Range 38 38] (s ! fst p)"
    by (auto simp: class_mem_def list_ex_iff)
  ultimately show "fst p < length s" "s ! fst p = 63 \<or> s ! fst p = 38" "fst q = Suc (fst p)"
    using exact_sign [OF assms(1)] by (auto simp: sign_def ascii_defs)
qed

lemma split_at_two:
  assumes "i < j" "j < length u"
  shows "u = take i u @ u ! i # slice u (Suc i) j @ u ! j # drop (Suc j) u"
proof -
  have "take j u = take i (take j u) @ take j u ! i # drop (Suc i) (take j u)"
    using assms by (intro id_take_nth_drop) simp
  then have "take j u = take i u @ u ! i # slice u (Suc i) j"
    using assms(1) by (simp add: slice_def drop_take)
  then show ?thesis using id_take_nth_drop [OF assms(2)] by (metis append.assoc append_Cons)
qed

lemma slice_inner: "y \<le> length u \<Longrightarrow> slice (a @ u @ b) (length a + x) (length a + y) = slice u x y"
  by (simp add: slice_def)

lemma query_name_only:
  assumes "fold_ok C" "S = {61} \<union> {c. blank c}"
  shows "rx_only C (\<lambda>x. x \<notin> S) True (name_piece token_names password_names)"
  by (rule name_only [OF assms(1)]) (auto simp: assms(2) blank_def sign_def ascii_defs)

lemma no_later_param:
  assumes "fold_ok C" "signs_ok C" "text = a @ u @ rest" "\<forall>c \<in> set u. c < 128" "rest = [] \<or> blank (hd rest)"
    and "\<not> secret_param u" "d \<le> length u"
  shows "rx_steps C text (rx_seq ([query_sign, name_piece token_names password_names, rx_str ''=''] @ rs)) True (length a + d, w) = []"
proof (rule ccontr)
  define S where "S = {61} \<union> {c. blank c}"
  assume "\<not> ?thesis"
  then obtain x where x: "x \<in> set (rx_steps C text (rx_seq ([query_sign, name_piece token_names password_names,
      rx_str ''=''] @ rs)) True (length a + d, w))" by (meson last_in_set)
  obtain k1 k2 k3 where k: "k1 \<in> set (rx_steps C text query_sign True (length a + d, w))"
    "k2 \<in> set (rx_steps C text (name_piece token_names password_names) True k1)"
    "k3 \<in> set (rx_steps C text (rx_str ''='') True k2)"
    using x unfolding append.simps rx_seq_steps by blast
  note s1 = query_sign_exact [OF assms(2) k(1), unfolded fst_conv]
  have d: "d < length u"
  proof (rule ccontr)
    assume "\<not> ?thesis"
    then have d: "length a + d = length (a @ u)" using assms(7) by simp
    with s1(1) have "rest \<noteq> []" by (auto simp: assms(3))
    then have "blank (text ! (length a + d))" using assms(5) unfolding d by (simp add: assms(3) nth_append hd_conv_nth)
    with s1(2) show False by (auto simp: blank_def)
  qed
  have in1: "fst k1 \<le> length text" using s1(1,3) by simp
  have le: "fst k1 \<le> fst k2" using rx_steps_ok [OF in1 k(2)] by (simp add: step_ok_def)
  have s3: "text ! fst k2 = 61" "fst k2 < length text"
    using sign_word [OF assms(2) _ k(3)] by (simp_all add: sign_def ascii_defs)
  note only = rx_only_steps [OF k(2) query_name_only [OF assms(1) S_def]]
  have inside: "fst k2 < length (a @ u)"
  proof (rule ccontr)
    assume "\<not> ?thesis"
    then have far: "length (a @ u) \<le> fst k2" by simp
    with s3(2) have "rest \<noteq> []" by (auto simp: assms(3))
    then have "blank (text ! length (a @ u))" using assms(5) by (simp add: assms(3) nth_append hd_conv_nth)
    then have "text ! length (a @ u) \<in> S" "length (a @ u) \<noteq> fst k2" using s3(1) by (auto simp: S_def blank_def)
    with only [of "length (a @ u)"] far s1(3) d show False by simp
  qed
  define e where "e = fst k2 - length a"
  have e: "fst k2 = length a + e" "d < e" "e < length u" using inside le s1(3) by (simp_all add: e_def)
  have n: "slice text (fst k1) (fst k2) = slice u (Suc d) e"
    using slice_inner [of e u a rest "Suc d"] e by (simp add: assms(3) s1(3))
  have u: "u = take d u @ u ! d # slice u (Suc d) e @ 61 # drop (Suc e) u"
    using split_at_two [OF e(2,3)] s3(1) e by (simp add: assms(3) nth_append)
  have sub: "set (slice u (Suc d) e) \<subseteq> set u" unfolding slice_def by (meson set_drop_subset set_take_subset subset_trans)
  have "to_ascii_lowercase (slice text (fst k1) (fst k2)) \<in> set (map lit (names token_names password_names))"
    by (rule name_read [OF assms(1,2) in1 k(2)]) (use sub assms(4) n in \<open>auto simp: is_ascii_uppercase_def\<close>)
  then have "to_ascii_lowercase (slice u (Suc d) e) \<in> set (map lit url_keys)" by (simp only: n url_keys_def)
  moreover have "61 \<notin> set (slice u (Suc d) e)"
  proof
    assume "61 \<in> set (slice u (Suc d) e)"
    then obtain i where "i < e - Suc d" "u ! (Suc d + i) = 61"
      using e by (auto simp: in_set_conv_nth slice_def)
    with only [of "length a + (Suc d + i)"] e s1(3) show False
      by (simp add: assms(3) nth_append S_def)
  qed
  moreover have "u ! d = 63 \<or> u ! d = 38" using s1(2) d by (simp add: assms(3) nth_append)
  ultimately have "secret_param (take d u @ u ! d # slice u (Suc d) e @ 61 # drop (Suc e) u)"
    by (intro secret_param_split)
  with assms(6) u show False by simp
qed

lemma query_value_class:
  assumes "fold_ok C" "33 \<le> c" "c \<le> 126" "c \<noteq> 38" "c \<noteq> 35"
  shows "class_mem C True True [Space, one CHR ''&'', one CHR ''#''] c"
proof -
  have "\<not> space_char C c" "\<forall>d \<in> set (variants C c). \<not> space_char C d \<and> d \<noteq> 38 \<and> d \<noteq> 35"
    using fold_okD(1,2) [OF assms(1), of c] assms(2-5) by fastforce+
  then show ?thesis using assms(4,5) by (auto simp: class_mem_def one_def rng_def list_ex_iff)
qed

lemma query_value_stop:
  assumes "fold_ok C" "blank c \<or> c = 38 \<or> c = 35"
  shows "\<not> class_mem C True True [Space, one CHR ''&'', one CHR ''#''] c"
proof -
  have "sign c" "c < 128" using assms(2) by (auto simp: sign_def blank_def ascii_defs)
  then show ?thesis
    unfolding nocase_class [OF assms(1) \<open>sign c\<close>] using assms(2) space_class [OF assms(1) \<open>c < 128\<close>]
    by (auto simp: class_mem_def one_def rng_def)
qed

lemma query_value_first:
  assumes "fold_ok C" "text = a @ v @ tail @ rest" "\<forall>c \<in> set v. 33 \<le> c \<and> c \<le> 126 \<and> c \<noteq> 38 \<and> c \<noteq> 35"
    and "3 \<le> length v" "tail = [] \<or> hd tail = 38 \<or> hd tail = 35" "rest = [] \<or> blank (hd rest)"
  shows "first_step C text True (rx_seq [query_value]) (length a, w) (length (a @ v), Some (length a, length (a @ v)))"
proof -
  have "tail @ rest = [] \<or> blank (hd (tail @ rest)) \<or> hd (tail @ rest) = 38 \<or> hd (tail @ rest) = 35"
    using assms(5,6) by (cases tail) auto
  then have stop: "tail @ rest = [] \<or> \<not> class_mem C True True [Space, one CHR ''&'', one CHR ''#''] (hd (tail @ rest))"
    using query_value_stop [OF assms(1)] by blast
  have "first_step C text True (Rep (Cls True [Space, one CHR ''&'', one CHR ''#'']) 3 None) (length a, w) (length (a @ v), w)"
    by (rule first_run_at [OF assms(2) _ stop assms(4)]) (use assms(3) query_value_class [OF assms(1)] in blast)
  then have "first_step C text True query_value (length a, w) (length (a @ v), Some (length a, length (a @ v)))"
    unfolding query_value_def rx_least_def by (rule first_Val)
  then show ?thesis by (rule first_seq(2)) (rule first_seq(1))
qed

lemma param_place:
  assumes "fold_ok C" "signs_ok C" "text = a @ q # name @ 61 # post" "61 \<notin> set name"
    and "x \<in> set (rx_steps C text (rx_seq [query_sign, name_piece token_names password_names, rx_str ''='']) True (length a, w))"
  shows "fst x = length (a @ q # name @ [61])"
proof -
  obtain k1 k2 where k: "k1 \<in> set (rx_steps C text query_sign True (length a, w))"
    "k2 \<in> set (rx_steps C text (name_piece token_names password_names) True k1)"
    "x \<in> set (rx_steps C text (rx_str ''='') True k2)"
    using assms(5) unfolding rx_seq_steps by blast
  have k1: "fst k1 = Suc (length a)" using query_sign_exact [OF assms(2) k(1)] by simp
  then have le: "fst k1 \<le> fst k2" using rx_steps_ok [OF _ k(2)] by (simp add: assms(3) step_ok_def)
  have e: "text ! fst k2 = 61" "fst x = Suc (fst k2)"
    using sign_word [OF assms(2) _ k(3)] by (simp_all add: sign_def ascii_defs)
  define S where "S = {61} \<union> {c. blank c}"
  have "fst k2 = length (a @ q # name)"
  proof (rule same_place [where S = "{61}" and i = "fst k1" and s = "text"])
    show "text ! d \<notin> {61}" if "fst k1 \<le> d" "d < length (a @ q # name)" for d
    proof -
      have "text ! d \<in> set name"
        by (rule nth_mid [where x = "a @ [q]" and z = "61 # post"]) (use that k1 in \<open>simp_all add: assms(3)\<close>)
      with assms(4) show ?thesis by auto
    qed
    show "text ! length (a @ q # name) \<in> {61}" by (simp add: assms(3) nth_append)
    show "text ! d \<notin> {61}" if "fst k1 \<le> d" "d < fst k2" for d
      using rx_only_steps [OF k(2) query_name_only [OF assms(1) S_def] that] by (simp add: S_def)
  qed (use e(1) k1 le in simp_all)
  then show ?thesis using e(2) by simp
qed

lemma param_reached:
  assumes "case_ok C" "text = a @ q # name @ 61 # post" "q = 63 \<or> q = 38"
    and "to_ascii_lowercase name \<in> set (map lit url_keys)"
  shows "(length (a @ q # name @ [61]), w) \<in>
    set (rx_steps C text (rx_seq [query_sign, name_piece token_names password_names, rx_str ''='']) True (length a, w))"
proof -
  have q: "(length (a @ [q]), w) \<in> set (rx_steps C text query_sign True (length a, w))"
    using assms(3) by (auto simp: assms(2) query_sign_def class_mem_def one_def rng_def)
  have n: "(length ((a @ [q]) @ name), w) \<in> set (rx_steps C text (name_piece token_names password_names) True (length (a @ [q]), w))"
    by (rule name_found [OF assms(1)]) (use assms(4) in \<open>simp_all add: assms(2) url_keys_def\<close>)
  have e: "(length (((a @ [q]) @ name) @ [61]), w) \<in> set (rx_steps C text (rx_str ''='') True (length ((a @ [q]) @ name), w))"
    by (rule folded_word [OF assms(1)]) (simp_all add: assms(2) to_ascii_lowercase_def lit_def is_ascii_uppercase_def)
  have "length (a @ q # name @ [61]) = length (((a @ [q]) @ name) @ [61])" by simp
  then show ?thesis by (simp only:) (intro rx_seq_intro [OF q] rx_seq_intro [OF n] rx_seq_intro [OF e], simp)
qed

lemma param_first:
  assumes "fold_ok C" "signs_ok C" "case_ok C" "text = a @ q # name @ 61 # v @ tail @ rest"
    and "q = 63 \<or> q = 38" "to_ascii_lowercase name \<in> set (map lit url_keys)"
    and "\<forall>c \<in> set v. 33 \<le> c \<and> c \<le> 126 \<and> c \<noteq> 38 \<and> c \<noteq> 35" "3 \<le> length v"
    and "tail = [] \<or> hd tail = 38 \<or> hd tail = 35" "rest = [] \<or> blank (hd rest)"
  shows "first_step C text True (rx_seq ([query_sign, name_piece token_names password_names, rx_str ''=''] @ [query_value]))
    (length a, w) (length ((a @ q # name @ [61]) @ v), Some (length (a @ q # name @ [61]), length ((a @ q # name @ [61]) @ v)))"
proof -
  let ?b = "a @ q # name @ [61]" and ?ps = "[query_sign, name_piece token_names password_names, rx_str ''='']"
  let ?g = "rx_steps C text (rx_seq [query_value]) True" and ?h = "(length (?b @ v), Some (length ?b, length (?b @ v)))"
  have split: "text = ?b @ v @ tail @ rest" by (simp add: assms(4))
  have g: "\<exists>t. ?g (length ?b, u) = ?h # t" for u
    using query_value_first [OF assms(1) split assms(7-10)] unfolding first_step_def .
  have "\<exists>t. concat (map ?g (rx_steps C text (rx_seq ?ps) True (length a, w))) = ?h # t"
  proof (rule first_nonempty)
    fix x assume "x \<in> set (rx_steps C text (rx_seq ?ps) True (length a, w))"
    from param_place [OF assms(1,2,4) url_key_letters(1) [OF assms(6)] this]
    have "x = (length ?b, snd x)" by (simp add: prod_eq_iff)
    with g [of "snd x"] show "?g x = [] \<or> (\<exists>t. ?g x = ?h # t)" by metis
  next
    from param_reached [OF assms(3,4,5,6)] g [of w]
    show "concat (map ?g (rx_steps C text (rx_seq ?ps) True (length a, w))) \<noteq> []" by force
  qed
  then show ?thesis unfolding first_step_def rx_seq_append .
qed

lemma secret_param_skip: "\<forall>c \<in> set x. c \<noteq> 63 \<and> c \<noteq> 38 \<Longrightarrow> secret_param (x @ s) \<longleftrightarrow> secret_param s"
  by (induction x) simp_all

lemma visible_run_steps:
  assumes "fold_ok C" "text = a @ run @ rest" "\<forall>c \<in> set run. 33 \<le> c \<and> c \<le> 126" "rest = [] \<or> blank (hd rest)"
  shows "rx_steps C text (rx_star (Cls True [Space])) True (length a, w) =
    map (\<lambda>d. (length a + d, w)) (rev [0..<Suc (length run)])"
  unfolding rx_star_def rx_steps.simps(6)
proof (rule run_steps)
  have "class_mem C True True [Space] c" if "33 \<le> c" "c \<le> 126" for c
    using visible_no_space [OF assms(1) that] by (simp add: class_mem_def)
  then show "\<forall>d < length run. in_class C text True True [Space] (length a + d)"
    using assms(3) by (simp add: in_class_def assms(2) nth_append)
  have "\<not> class_mem C True True [Space] (hd rest)" if "rest \<noteq> []"
    using blank_class [OF assms(1)] assms(4) that by (simp add: class_mem_def)
  then show "\<not> in_class C text True True [Space] (length a + length run)"
    by (cases rest) (auto simp: in_class_def assms(2) nth_append)
qed (simp add: assms(2))

lemma query_first:
  assumes "fold_ok C" "signs_ok C" "case_ok C" "query_at text a path q name v tail rest" "3 \<le> length v"
  shows "first_step C text True (rx_seq [rx_star (Cls True [Space]), query_sign, name_piece token_names password_names,
      rx_str ''='', query_value]) (length a, w)
    (length ((a @ path @ q # name @ [61]) @ v),
     Some (length (a @ path @ q # name @ [61]), length ((a @ path @ q # name @ [61]) @ v)))"
proof -
  let ?ps = "[query_sign, name_piece token_names password_names, rx_str ''='']"
  let ?run = "path @ q # name @ 61 # v @ tail" and ?B = "a @ path @ q # name @ [61]"
  let ?f = "\<lambda>d. rx_steps C text (rx_seq (?ps @ [query_value])) True (length a + d, w)"
  let ?h = "(length (?B @ v), Some (length ?B, length (?B @ v)))"
  note at = assms(4) [unfolded query_at_def]
  have name: "to_ascii_lowercase name \<in> set (map lit url_keys)" using at by blast
  note letters = url_key_letters [OF name]
  have vis: "\<forall>c \<in> set ?run. 33 \<le> c \<and> c \<le> 126" using at letters(4) by auto
  have rest: "rest = [] \<or> blank (hd rest)" and split: "text = a @ ?run @ rest" using at by simp_all
  have here: "\<exists>t. ?f (length path) = ?h # t"
  proof -
    have "first_step C text True (rx_seq (?ps @ [query_value])) (length (a @ path), w)
        (length (((a @ path) @ q # name @ [61]) @ v),
         Some (length ((a @ path) @ q # name @ [61]), length (((a @ path) @ q # name @ [61]) @ v)))"
      by (rule param_first [OF assms(1-3) _ _ name _ assms(5) _ rest]) (use at in auto)
    then show ?thesis unfolding first_step_def by simp
  qed
  have later: "?f d = []" if "length path < d" "d \<le> length ?run" for d
  proof -
    have "\<not> secret_param (v @ tail)" using at by blast
    then have "\<not> secret_param ((name @ [61]) @ v @ tail)"
      by (subst secret_param_skip) (use letters(2,3) in auto)
    moreover have "\<forall>c \<in> set ((name @ [61]) @ v @ tail). c < 128"
    proof
      fix c assume "c \<in> set ((name @ [61]) @ v @ tail)"
      then have "c \<in> set ?run" by auto
      with vis have "c \<le> 126" by blast
      then show "c < 128" by simp
    qed
    ultimately have "rx_steps C text (rx_seq (?ps @ [query_value])) True (length (a @ path @ [q]) + (d - Suc (length path)), w) = []"
      by (intro no_later_param [OF assms(1,2) _ _ rest, where u = "(name @ [61]) @ v @ tail"])
        (use that in \<open>simp_all add: split\<close>)
    moreover have "length (a @ path @ [q]) + (d - Suc (length path)) = length a + d" using that(1) by simp
    ultimately show ?thesis by simp
  qed
  have "\<exists>t. concat (map ?f (rev [0..<Suc (length ?run)])) = ?h # t"
    by (rule descending_first [where m = "length path" and f = ?f]) (use later here in simp_all)
  moreover have "rx_steps C text (rx_seq (rx_star (Cls True [Space]) # ?ps @ [query_value])) True (length a, w) =
      concat (map ?f (rev [0..<Suc (length ?run)]))"
    using visible_run_steps [OF assms(1) split vis rest, of w]
    by (simp add: rx_seq_def comp_def del: upt_Suc rx_steps.simps(1-3,5-10))
  ultimately show ?thesis unfolding first_step_def append.simps by (simp only:)
qed

section \<open>URLs with a sensitive parameter\<close>

lemma http_only:
  assumes "fold_ok C"
  shows "rx_only C (\<lambda>x. x \<notin> {58}) True (rx_seq [Word_Boundary, rx_str ''http'', rx_opt (rx_str ''s'')])"
proof -
  define S where "S = {58 :: nat}"
  have "\<forall>x \<in> S. sign x" by (simp add: S_def)
  then have "rx_only C (\<lambda>x. x \<notin> S) True (rx_str ''http'')" "rx_only C (\<lambda>x. x \<notin> S) True (rx_str ''s'')"
    by (rule word_only [OF assms], simp add: S_def)+
  then show ?thesis unfolding S_def [symmetric] by (simp del: rx_only.simps(2,3) rx_only_sugar(2))
qed

lemma url_place:
  assumes "fold_ok C" "signs_ok C" "text = a @ lit ''://'' @ post" "58 \<notin> set a" "k \<le> length a"
    and "x \<in> set (rx_steps C text (rx_seq [Word_Boundary, rx_str ''http'', rx_opt (rx_str ''s''), rx_str ''://'']) True (k, None))"
  shows "fst x = length (a @ lit ''://'')"
proof -
  have "x \<in> set (rx_steps C text (rx_seq ([Word_Boundary, rx_str ''http'', rx_opt (rx_str ''s'')] @ [rx_str ''://''])) True (k, None))"
    using assms(6) by simp
  then obtain k2 where k: "k2 \<in> set (rx_steps C text (rx_seq [Word_Boundary, rx_str ''http'', rx_opt (rx_str ''s'')]) True (k, None))"
    and "x \<in> set (rx_steps C text (rx_seq [rx_str ''://'']) True k2)" by (rule rx_seq_split)
  then have "x \<in> set (rx_steps C text (rx_str ''://'') True k2)" by (simp only: rx_seq_steps) blast
  note colon = colon_word [OF assms(2) this]
  have "fst (k, None :: (nat \<times> nat) option) \<le> length text" using assms(5) by (simp add: assms(3))
  then have ge: "k \<le> fst k2" using rx_steps_ok [OF _ k] by (simp add: step_ok_def)
  have "fst k2 = length a"
    by (rule sign_place [where c = 58 and S = "{58}", OF assms(1,2) _ _ _ assms(5) ge])
      (use assms(4) colon(1) rx_only_steps [OF k http_only [OF assms(1)]] in \<open>auto simp: assms(3) lit_def\<close>)
  with colon(2) show ?thesis by (simp add: lit_def)
qed

lemma url_reached:
  assumes "case_ok C" "classes_ok C" "text = pre @ proto @ lit ''://'' @ post"
    and "to_ascii_lowercase proto \<in> {lit ''http'', lit ''https''}"
    and "pre = [] \<or> last pre < 128 \<and> \<not> is_ascii_alphanumeric (last pre) \<and> last pre \<noteq> 95"
  shows "(length ((pre @ proto) @ lit ''://''), None) \<in>
    set (rx_steps C text (rx_seq [Word_Boundary, rx_str ''http'', rx_opt (rx_str ''s''), rx_str ''://'']) True (length pre, None))"
proof -
  have "to_ascii_lowercase proto \<in> set (map lit schemes)" using assms(4) by (auto simp: schemes_def)
  then obtain c u' where proto: "proto = c # u'" "is_ascii_alphanumeric c" using scheme_letters(1) by blast
  have b: "(length pre, None) \<in> set (rx_steps C text Word_Boundary True (length pre, None))"
    using boundary_between [OF assms(2) proto(2) assms(5)] by (simp add: assms(3) proto(1))
  have h: "(length (pre @ proto), None) \<in>
      set (rx_steps C text (rx_seq [rx_str ''http'', rx_opt (rx_str ''s'')]) True (length pre, None))"
    by (rule http_found [OF assms(1) _ assms(4)]) (simp add: assms(3))
  have s: "(length ((pre @ proto) @ lit ''://''), None) \<in> set (rx_steps C text (rx_str ''://'') True (length (pre @ proto), None))"
    by (rule folded_word [OF assms(1)]) (simp_all add: assms(3) to_ascii_lowercase_def lit_def ascii_defs)
  from b h s show ?thesis by (simp only: rx_seq_steps) blast
qed

lemma query_captured:
  assumes "leftmost_first C E" "fold_ok C" "signs_ok C" "case_ok C" "classes_ok C"
    and "query_at text ((pre @ proto) @ lit ''://'') path q name v tail rest"
    and "to_ascii_lowercase proto \<in> {lit ''http'', lit ''https''}" "58 \<notin> set pre"
    and "pre = [] \<or> last pre < 128 \<and> \<not> is_ascii_alphanumeric (last pre) \<and> last pre \<noteq> 95"
    and "valid_str text" "looks_like_secret_value v"
  shows "\<exists>m. m \<in> set (url_matches E text out)"
proof -
  let ?a = "(pre @ proto) @ lit ''://''" and ?B = "((pre @ proto) @ lit ''://'') @ path @ q # name @ [61]"
  let ?as = "[Word_Boundary, rx_str ''http'', rx_opt (rx_str ''s''), rx_str ''://'']"
  let ?bs = "[rx_star (Cls True [Space]), query_sign, name_piece token_names password_names, rx_str ''='', query_value]"
  have split: "text = ?a @ path @ q # name @ 61 # v @ tail @ rest" using assms(6) unfolding query_at_def by blast
  have long: "3 \<le> length v" using long_secret_value [OF assms(11)] by simp
  have "to_ascii_lowercase proto \<in> set (map lit schemes)" using assms(7) by (auto simp: schemes_def)
  then have colon: "58 \<notin> set (pre @ proto)" using scheme_letters(2) assms(8) by simp
  have "\<exists>i. (span_of text i (length (?B @ v)), Some (span_of text (length ?B) (length (?B @ v)))) \<in>
      set (captures_iter E URL_EMBEDDED_SECRET text)"
    unfolding URL_EMBEDDED_SECRET_pieces
  proof (rule leftmost_capture [OF assms(1)])
    show "length pre \<le> length pre" "length pre \<le> length text" by (simp_all add: split)
    show "(length ?a, None) \<in> set (rx_steps C text (rx_seq ?as) True (length pre, None))"
      by (rule url_reached [OF assms(4,5) _ assms(7,9)]) (simp add: split)
    show "first_step C text True (rx_seq ?bs) (length ?a, w) (length (?B @ v), Some (length ?B, length (?B @ v)))" for w
      by (rule query_first [OF assms(2,3,4,6) long])
    show "fst x = length ?a \<or> rx_steps C text (rx_seq ?bs) True x = []"
      if "k \<le> length pre" "x \<in> set (rx_steps C text (rx_seq ?as) True (k, None))" for k x
      by (rule disjI1, rule url_place [OF assms(2,3) _ colon _ that(2)]) (use that(1) in \<open>simp_all add: split\<close>)
  qed
  then obtain i where "(span_of text i (length (?B @ v)), Some (span_of text (length ?B) (length (?B @ v)))) \<in>
      set (captures_iter E URL_EMBEDDED_SECRET text)" by blast
  from captured_value [OF this _ assms(10,11)] show ?thesis by (simp add: url_matches_def split)
qed

end
