(* ===== verification/Redact_Secrets.thy ===== *)
theory Redact_Secrets
  imports Redact_Url
begin

text \<open>
  Structural secrets: the shapes of text the value-gated patterns are there for, and that each of them
  is found whatever surrounds it.
\<close>

section \<open>Structural secrets\<close>

text \<open>
  The texts in question and their values: the first colon (or equals sign) of the text is the one
  after the key, the scheme or the header name, which may be spelled in any case and stand anywhere
  behind a character that is no part of a word. In a URL the value belongs to the last sensitive query
  parameter before the next blank.
\<close>

definition apart :: "str \<Rightarrow> bool" where
  "apart pre \<longleftrightarrow> pre = [] \<or> last pre < 128 \<and> \<not> is_ascii_alphanumeric (last pre)"

inductive structural_secret :: "str \<Rightarrow> str \<Rightarrow> bool" where
  assignment: "to_ascii_lowercase key \<in> set (map lit secret_keys) \<Longrightarrow> sep \<in> {58, 61} \<Longrightarrow> apart pre \<Longrightarrow>
    58 \<notin> set pre \<Longrightarrow> 61 \<notin> set pre \<Longrightarrow> \<forall>c \<in> set (gap @ gap'). blank c \<Longrightarrow> quote \<in> {[], [34], [39]} \<Longrightarrow>
    \<forall>c \<in> set v. value_char c \<Longrightarrow> rest = [] \<or> value_end (hd rest) \<Longrightarrow>
    structural_secret (pre @ key @ gap @ sep # gap' @ quote @ v @ rest) v"
| connection: "to_ascii_lowercase scheme \<in> set (map lit schemes) \<Longrightarrow> apart pre \<Longrightarrow> pre = [] \<or> last pre \<noteq> 95 \<Longrightarrow>
    58 \<notin> set pre \<Longrightarrow> \<forall>c \<in> set (user @ v). authority_char c \<Longrightarrow>
    structural_secret (pre @ scheme @ lit ''://'' @ user @ lit '':'' @ v @ lit ''@'' @ rest) v"
| header: "to_ascii_lowercase name = lit ''authorization'' \<Longrightarrow>
    to_ascii_lowercase kind \<in> set (map lit credential_kinds) \<Longrightarrow> apart pre \<Longrightarrow> pre = [] \<or> last pre \<noteq> 95 \<Longrightarrow>
    58 \<notin> set pre \<Longrightarrow> \<forall>c \<in> set (gap @ gap' @ gap''). blank c \<Longrightarrow> gap'' \<noteq> [] \<Longrightarrow>
    \<forall>c \<in> set v. bearer_char c \<Longrightarrow> rest = [] \<or> value_end (hd rest) \<Longrightarrow>
    structural_secret (pre @ name @ gap @ 58 # gap' @ kind @ gap'' @ v @ rest) v"
| query: "to_ascii_lowercase proto \<in> {lit ''http'', lit ''https''} \<Longrightarrow> apart pre \<Longrightarrow> pre = [] \<or> last pre \<noteq> 95 \<Longrightarrow>
    58 \<notin> set pre \<Longrightarrow> query_at text ((pre @ proto) @ lit ''://'') path q name v tail rest \<Longrightarrow>
    structural_secret text v"

lemma gated_literal:
  assumes "gated_literal_matches E text (provider_matches E text []) \<noteq> []"
  shows "literal_matches E text config \<noteq> []"
proof -
  have "set (gated_literal_matches E text (provider_matches E text [])) \<subseteq> set (literal_matches E text config)"
    unfolding literal_matches_def using user_matches_subset by fastforce
  with assms show ?thesis by (cases "gated_literal_matches E text (provider_matches E text [])") auto
qed

lemma url_literal:
  assumes "url_matches E text [] \<noteq> []"
  shows "literal_matches E text config \<noteq> []"
proof -
  have "set (url_matches E text []) \<subseteq> set (literal_matches E text config)"
    unfolding literal_matches_def using user_matches_subset by fastforce
  with assms show ?thesis by (cases "url_matches E text []") auto
qed

lemma push_gated_keeps: "out \<noteq> [] \<Longrightarrow> push_gated E r text k out \<noteq> []"
  by (simp add: push_gated_def)

lemma some_element: "\<exists>m. m \<in> set xs \<Longrightarrow> xs \<noteq> []"
  by auto

lemma structural_literal:
  assumes "structural_secret text v" "leftmost_first C E" "fold_ok C" "signs_ok C" "case_ok C" "classes_ok C"
    and "valid_str text" "looks_like_secret_value v"
  shows "literal_matches E text config \<noteq> []"
  using assms(1)
proof cases
  case (assignment key sep pre gap gap' quote rest)
  have "\<forall>c \<in> set gap. blank c" "\<forall>c \<in> set gap'. blank c" using assignment(7) by simp_all
  from assignment_captured [OF assms(2-5) assignment(1,3,2,5,6) assignment(4) [unfolded apart_def] this
      assignment(8-10) assms(7,8)]
  show ?thesis using kv_literal by blast
next
  case (connection scheme pre user rest)
  have "\<forall>c \<in> set user. authority_char c" "\<forall>c \<in> set v. authority_char c"
    "pre = [] \<or> last pre < 128 \<and> \<not> is_ascii_alphanumeric (last pre) \<and> last pre \<noteq> 95"
    using connection(3,4,6) by (auto simp: apart_def)
  from connection_captured [OF assms(2-6) connection(1,2,5) this(3,1,2) assms(7,8)]
  have "push_gated E CONNECTION_STRING text UrlEmbeddedSecret out \<noteq> []" for out by (rule some_element)
  then show ?thesis by (intro gated_literal) (simp add: gated_literal_matches_def push_gated_keeps)
next
  case (header name kind pre gap gap' gap'' rest)
  have "\<forall>c \<in> set gap. blank c" "\<forall>c \<in> set gap'. blank c" "\<forall>c \<in> set gap''. blank c"
    "pre = [] \<or> last pre < 128 \<and> \<not> is_ascii_alphanumeric (last pre) \<and> last pre \<noteq> 95"
    using header(4,5,7) by (auto simp: apart_def)
  from header_captured [OF assms(2-6) header(1,2,3,6) this(4,1-3) header(8-10) assms(7,8)]
  have "push_gated E AUTHZ_BEARER text BearerToken out \<noteq> []" for out by (rule some_element)
  then show ?thesis by (intro gated_literal) (simp add: gated_literal_matches_def)
next
  case (query proto pre path q name tail rest)
  have "pre = [] \<or> last pre < 128 \<and> \<not> is_ascii_alphanumeric (last pre) \<and> last pre \<noteq> 95"
    using query(2,3) by (auto simp: apart_def)
  from query_captured [OF assms(2-6) query(5,1,4) this assms(7,8)]
  have "url_matches E text [] \<noteq> []" by (rule some_element)
  then show ?thesis by (rule url_literal)
qed

end
