(* ===== verification/Redact_Ordinary.thy ===== *)
theory Redact_Ordinary
  imports Redact_Url
begin

text \<open>
  Texts that no rule looks at: a structural match reads certain words one after the other, in any
  case of their letters, and its value must give evidence of a secret, a digit, a capital letter, a
  plus or an equals sign. A text in which these do not follow each other has no reported match,
  colons and equals signs or not.
\<close>

section \<open>Things sought one after the other\<close>

datatype sought = Word str | Evidence

definition evidence :: "nat \<Rightarrow> bool" where
  "evidence c \<longleftrightarrow> is_ascii_digit c \<or> is_ascii_uppercase c \<or> c = 43 \<or> c = 61"

fun sought_at :: "sought \<Rightarrow> str \<Rightarrow> bool" where
  "sought_at (Word w) s \<longleftrightarrow> to_ascii_lowercase (take (length w) s) = w"
| "sought_at Evidence s \<longleftrightarrow> s \<noteq> [] \<and> evidence (hd s)"

fun sought_length :: "sought \<Rightarrow> nat" where
  "sought_length (Word w) = length w"
| "sought_length Evidence = 1"

text \<open>The text behind the first place where it is found.\<close>

fun rest_after :: "sought \<Rightarrow> str \<Rightarrow> str option" where
  "rest_after t [] = None"
| "rest_after t (c # s) = (if sought_at t (c # s) then Some (drop (sought_length t) (c # s)) else rest_after t s)"

primrec in_order :: "sought list \<Rightarrow> str \<Rightarrow> bool" where
  "in_order [] s = True"
| "in_order (t # ts) s = (case rest_after t s of None \<Rightarrow> False | Some r \<Rightarrow> in_order ts r)"

lemma sought_at_append:
  assumes "sought_at t u" "length u = sought_length t"
  shows "sought_at t (u @ b)"
proof (cases t)
  case Evidence
  with assms show ?thesis by (cases u) simp_all
qed (use assms in simp)

lemma rest_after_found:
  assumes "sought_at t u" "length u = sought_length t" "u \<noteq> []"
  shows "\<exists>x. rest_after t (a @ u @ b) = Some (x @ b)"
proof (induction a)
  case Nil
  obtain c u' where "u = c # u'" using assms(3) by (cases u) auto
  moreover have "drop (sought_length t) (u @ b) = [] @ b" using assms(2) by simp
  ultimately show ?case using sought_at_append [OF assms(1,2), of b] by auto
next
  case (Cons c a)
  have "drop (sought_length t) ((c # a) @ u @ b) = drop (sought_length t) ((c # a) @ u) @ b"
    unfolding append_assoc [symmetric] using assms(2) by (subst drop_append) simp
  with Cons show ?case by auto
qed

lemma rest_afterD:
  assumes "rest_after t s = Some r" "t \<noteq> Word []"
  shows "\<exists>a u. s = a @ u @ r \<and> sought_at t u \<and> length u = sought_length t \<and> u \<noteq> []"
  using assms(1)
proof (induction s)
  case (Cons c s)
  show ?case
  proof (cases "sought_at t (c # s)")
    case True
    let ?u = "take (sought_length t) (c # s)"
    have "length ?u = sought_length t"
    proof (cases t)
      case (Word w)
      with True have "length (to_ascii_lowercase (take (length w) (c # s))) = length w" by simp
      with Word show ?thesis by (simp add: to_ascii_lowercase_def)
    qed simp
    moreover from this True have "sought_at t ?u" by (cases t) auto
    moreover have "c # s = [] @ ?u @ r" using True Cons.prems by auto
    moreover have "sought_length t \<noteq> 0" using assms(2) by (cases t) auto
    ultimately show ?thesis by (intro exI [of _ "[]"] exI [of _ ?u]) auto
  next
    case False
    with Cons.prems obtain a u where "s = a @ u @ r" "sought_at t u \<and> length u = sought_length t \<and> u \<noteq> []"
      using Cons.IH by auto
    then show ?thesis by (intro exI [of _ "c # a"] exI [of _ u]) simp
  qed
qed simp

lemma in_order_later: "in_order ts s \<Longrightarrow> Word [] \<notin> set ts \<Longrightarrow> in_order ts (a @ s)"
proof (induction ts arbitrary: a s)
  case (Cons t ts)
  then obtain r where r: "rest_after t s = Some r" "in_order ts r" by (auto split: option.splits)
  have t: "t \<noteq> Word []" using Cons.prems(2) by auto
  obtain x u where s: "s = x @ u @ r" "sought_at t u" "length u = sought_length t" "u \<noteq> []"
    using rest_afterD [OF r(1) t] by blast
  obtain y where "rest_after t ((a @ x) @ u @ r) = Some (y @ r)" using rest_after_found [OF s(2-4)] by blast
  moreover have "in_order ts (y @ r)" using Cons.prems(2) by (intro Cons.IH r) auto
  ultimately show ?case by (simp add: s(1))
qed simp

section \<open>What a piece of a pattern reads\<close>

definition reads :: "sought \<Rightarrow> str \<Rightarrow> bool" where
  "reads t u \<longleftrightarrow> (case t of Word w \<Rightarrow> w \<noteq> [] \<and> to_ascii_lowercase u = w | Evidence \<Rightarrow> list_ex evidence u)"

lemma in_order_reads:
  assumes "reads t u" "in_order ts b" "Word [] \<notin> set ts"
  shows "in_order (t # ts) (u @ b)"
proof -
  obtain x v y where u: "u = x @ v @ y" "sought_at t v" "length v = sought_length t" "v \<noteq> []"
  proof (cases t)
    case (Word w)
    have len: "length u = length (to_ascii_lowercase u)" by (simp add: to_ascii_lowercase_def)
    show thesis
      by (rule that [of "[]" u "[]"]) (use Word assms(1) len in \<open>auto simp: reads_def to_ascii_lowercase_def\<close>)
  next
    case Evidence
    then obtain c where "c \<in> set u" "evidence c" using assms(1) by (auto simp: reads_def list_ex_iff)
    then obtain x y where "u = x @ c # y" by (auto simp: in_set_conv_decomp)
    with \<open>evidence c\<close> Evidence show thesis by (intro that [of x "[c]" y]) simp_all
  qed
  obtain z where "rest_after t (x @ v @ y @ b) = Some (z @ y @ b)"
    using rest_after_found [OF u(2-4)] by blast
  moreover have "in_order ts ((z @ y) @ b)" by (rule in_order_later [OF assms(2,3)])
  ultimately show ?thesis by (simp add: u(1))
qed

text \<open>Of each piece, one of the things that it is asked to read; nothing if the set is empty.\<close>

definition asks :: "rx_classes \<Rightarrow> str \<Rightarrow> rx \<Rightarrow> sought set \<Rightarrow> bool" where
  "asks C s r Q \<longleftrightarrow> (\<forall>p q. fst p \<le> length s \<longrightarrow> q \<in> set (rx_steps C s r True p) \<longrightarrow>
     Q = {} \<or> (\<exists>t \<in> Q. reads t (slice s (fst p) (fst q))))"

definition asked :: "(rx \<times> sought set) list \<Rightarrow> sought set list" where
  "asked items = filter (\<lambda>Q. Q \<noteq> {}) (map snd items)"

lemma asks_nothing: "asks C s r {}"
  by (simp add: asks_def)

lemma slice_ascii: "list_all (\<lambda>c. c < 128) s \<Longrightarrow> \<forall>c \<in> set (slice s a b). c < 128"
  unfolding slice_def list_all_iff by (meson in_set_dropD in_set_takeD)

definition low_word :: "string \<Rightarrow> bool" where
  "low_word w \<longleftrightarrow> w \<noteq> [] \<and> (\<forall>c \<in> set w. of_char c < (128 :: nat) \<and> \<not> is_ascii_uppercase (of_char c))"

lemma asks_word:
  assumes "fold_ok C" "list_all (\<lambda>c. c < 128) s" "low_word w"
  shows "asks C s (rx_str w) {Word (lit w)}"
  using word_read [OF assms(1) _ _ slice_ascii [OF assms(2)]] assms(3)
  by (simp add: asks_def reads_def low_word_def) (simp add: lit_def)

lemma asks_words:
  assumes "fold_ok C" "list_all (\<lambda>c. c < 128) s" "\<forall>w \<in> set ws. low_word w"
  shows "asks C s (rx_strs ws) ((\<lambda>w. Word (lit w)) ` set ws)"
  unfolding asks_def
proof (intro allI impI disjI2)
  fix p q assume "q \<in> set (rx_steps C s (rx_strs ws) True p)"
  from words_read [OF assms(1) this _ slice_ascii [OF assms(2)]] assms(3)
  have "to_ascii_lowercase (slice s (fst p) (fst q)) \<in> set (map lit ws)" by (simp add: low_word_def)
  then obtain w where "w \<in> set ws" "to_ascii_lowercase (slice s (fst p) (fst q)) = lit w"
    unfolding set_map image_iff by blast
  moreover from this(1) assms(3) have "lit w \<noteq> []" by (auto simp: low_word_def lit_def)
  ultimately show "\<exists>t \<in> (\<lambda>w. Word (lit w)) ` set ws. reads t (slice s (fst p) (fst q))"
    by (intro bexI [of _ "Word (lit w)"]) (simp_all add: reads_def)
qed

lemma asks_name:
  assumes "fold_ok C" "signs_ok C" "list_all (\<lambda>c. c < 128) s" "\<forall>w \<in> set (as @ bs). low_word w"
  shows "asks C s (name_piece as bs) ((\<lambda>w. Word (lit w)) ` set (names as bs))"
  unfolding asks_def
proof (intro allI impI disjI2)
  fix p q assume p: "fst p \<le> length s" and q: "q \<in> set (rx_steps C s (name_piece as bs) True p)"
  have "to_ascii_lowercase (slice s (fst p) (fst q)) \<in> set (map lit (names as bs))"
    by (rule name_read [OF assms(1,2) p q _ slice_ascii [OF assms(3)]])
      (use assms(4) in \<open>auto simp: low_word_def\<close>)
  then obtain w where "w \<in> set (names as bs)" "to_ascii_lowercase (slice s (fst p) (fst q)) = lit w"
    unfolding set_map image_iff by blast
  moreover from this(1) assms(4) have "lit w \<noteq> []" by (auto simp: names_def low_word_def lit_def)
  ultimately show "\<exists>t \<in> (\<lambda>w. Word (lit w)) ` set (names as bs). reads t (slice s (fst p) (fst q))"
    by (intro bexI [of _ "Word (lit w)"]) (simp_all add: reads_def)
qed

lemma asks_sign:
  assumes "signs_ok C"
  shows "asks C s equals_piece {Word [58], Word [61]}"
  unfolding asks_def
proof (intro allI impI disjI2)
  fix p q assume "q \<in> set (rx_steps C s equals_piece True p)"
  note e = equals_exact [OF assms this]
  then have "slice s (fst p) (fst q) = [s ! fst p]" using slice_Suc [OF e(1)] by simp
  then show "\<exists>t \<in> {Word [58], Word [61]}. reads t (slice s (fst p) (fst q))"
    using e(2) by (auto simp: reads_def to_ascii_lowercase_def is_ascii_uppercase_def)
qed

lemma seq_in_order:
  assumes "q \<in> set (rx_steps C s (rx_seq (map fst items)) True p)" "fst p \<le> length s"
    and "\<forall>(r, Q) \<in> set items. asks C s r Q"
  shows "\<exists>ts. list_all2 (\<in>) ts (asked items) \<and> Word [] \<notin> set ts \<and>
    (\<forall>ps. in_order ps (drop (fst q) s) \<longrightarrow> Word [] \<notin> set ps \<longrightarrow> in_order (ts @ ps) (drop (fst p) s))"
  using assms
proof (induction items arbitrary: p)
  case Nil
  then show ?case by (simp add: asked_def)
next
  case (Cons item items)
  obtain r Q where item: "item = (r, Q)" by (cases item)
  obtain k where k: "k \<in> set (rx_steps C s r True p)" "q \<in> set (rx_steps C s (rx_seq (map fst items)) True k)"
    using Cons.prems(1) by (auto simp: item)
  have le: "fst p \<le> fst k" "fst k \<le> length s"
    using rx_steps_ok [OF Cons.prems(2) k(1)] by (simp_all add: step_ok_def)
  have split: "drop (fst p) s = slice s (fst p) (fst k) @ drop (fst k) s"
    using le(1) by (simp add: slice_def) (metis append_take_drop_id drop_drop le_add_diff_inverse2)
  obtain ts where ts: "list_all2 (\<in>) ts (asked items)" "Word [] \<notin> set ts"
    "\<forall>ps. in_order ps (drop (fst q) s) \<longrightarrow> Word [] \<notin> set ps \<longrightarrow> in_order (ts @ ps) (drop (fst k) s)"
    using Cons.IH [OF k(2) le(2)] Cons.prems(3) by auto
  show ?case
  proof (cases "Q = {}")
    case True
    have "in_order (ts @ ps) (drop (fst p) s)" if "in_order ps (drop (fst q) s)" "Word [] \<notin> set ps" for ps
      unfolding split using ts(2,3) that by (intro in_order_later) auto
    with ts(1,2) True show ?thesis by (intro exI [of _ ts]) (simp add: asked_def item)
  next
    case False
    have "asks C s r Q" using Cons.prems(3) by (simp add: item)
    with False Cons.prems(2) k(1) obtain t where t: "t \<in> Q" "reads t (slice s (fst p) (fst k))"
      unfolding asks_def by blast
    have "in_order ((t # ts) @ ps) (drop (fst p) s)" if "in_order ps (drop (fst q) s)" "Word [] \<notin> set ps" for ps
      unfolding split append_Cons using ts(2,3) that by (intro in_order_reads [OF t(2)]) auto
    moreover have "t \<noteq> Word []" using t(2) by (auto simp: reads_def)
    ultimately show ?thesis using ts(1,2) t(1) False
      by (intro exI [of _ "t # ts"]) (simp add: asked_def item)
  qed
qed

section \<open>The value of a structural match\<close>

lemma secret_value_evidence:
  assumes "looks_like_secret_value v"
  shows "reads Evidence v"
proof -
  let ?P = "\<lambda>c. c = 34 \<or> c = 39"
  have "list_ex evidence (trim_matches ?P v)"
    using assms unfolding looks_like_secret_value_def Let_def evidence_def [abs_def]
    by (simp split: if_splits)
  moreover have "set (trim_matches ?P v) \<subseteq> set v"
    unfolding trim_matches_def by (auto dest!: set_dropWhileD)
  ultimately show ?thesis unfolding reads_def list_ex_iff by auto
qed

lemma value_in_order:
  assumes "rx_match C (NoCase (rx_seq (map fst as @ Val r # map fst bs))) s i (j, c)" "i \<le> length s"
    and "\<forall>(r, Q) \<in> set as. asks C s r Q" "\<forall>(r, Q) \<in> set bs. asks C s r Q"
    and "\<And>k q. q \<in> set (rx_steps C s (rx_seq (map fst bs)) True k) \<Longrightarrow> snd q = snd k"
  shows "\<exists>a b. c = Some (a, b) \<and> a \<le> b \<and> b \<le> length s \<and> (reads Evidence (slice s a b) \<longrightarrow>
    (\<exists>ts us. list_all2 (\<in>) ts (asked as) \<and> list_all2 (\<in>) us (asked bs) \<and> in_order (ts @ Evidence # us) s))"
proof -
  have m: "(j, c) \<in> set (rx_steps C s (rx_seq (map fst as @ (Val r # map fst bs))) True (i, None))"
    using assms(1) by (simp add: rx_match_def del: rx_seq_steps)
  obtain k1 where k1: "k1 \<in> set (rx_steps C s (rx_seq (map fst as)) True (i, None))"
    "(j, c) \<in> set (rx_steps C s (rx_seq (Val r # map fst bs)) True k1)" by (rule rx_seq_split [OF m])
  then obtain k2 where k2: "k2 \<in> set (rx_steps C s (Val r) True k1)"
    "(j, c) \<in> set (rx_steps C s (rx_seq (map fst bs)) True k2)" by auto
  have i: "fst (i, None :: (nat \<times> nat) option) \<le> length s" using assms(2) by simp
  have le1: "fst k1 \<le> length s" using rx_steps_ok [OF i k1(1)] by (simp add: step_ok_def)
  have le2: "fst k1 \<le> fst k2" "fst k2 \<le> length s" using rx_steps_ok [OF le1 k2(1)] by (simp_all add: step_ok_def)
  have c: "c = Some (fst k1, fst k2)" using assms(5) [OF k2(2)] k2(1) by auto
  obtain ts where ts: "list_all2 (\<in>) ts (asked as)"
    "\<forall>ps. in_order ps (drop (fst k1) s) \<longrightarrow> Word [] \<notin> set ps \<longrightarrow> in_order (ts @ ps) (drop i s)"
    "Word [] \<notin> set ts"
    using seq_in_order [OF k1(1) i assms(3)] by auto
  obtain us where us: "list_all2 (\<in>) us (asked bs)" "Word [] \<notin> set us"
    "\<forall>ps. in_order ps (drop j s) \<longrightarrow> Word [] \<notin> set ps \<longrightarrow> in_order (us @ ps) (drop (fst k2) s)"
    using seq_in_order [OF k2(2) le2(2) assms(4)] by auto
  have rest: "in_order us (drop (fst k2) s)" using us(3) [rule_format, of "[]"] by simp
  have split: "drop (fst k1) s = slice s (fst k1) (fst k2) @ drop (fst k2) s"
    using le2(1) by (simp add: slice_def) (metis append_take_drop_id drop_drop le_add_diff_inverse2)
  have "in_order (ts @ Evidence # us) s" if "reads Evidence (slice s (fst k1) (fst k2))"
  proof -
    have "in_order (Evidence # us) (drop (fst k1) s)"
      unfolding split by (rule in_order_reads [OF that rest us(2)])
    then have "in_order (ts @ Evidence # us) (drop i s)" using ts(2) us(2) by simp
    then have "in_order (ts @ Evidence # us) (take i s @ drop i s)"
      using ts(3) us(2) by (intro in_order_later) auto
    then show ?thesis by simp
  qed
  with c le2 ts(1) us(1) show ?thesis by blast
qed

text \<open>A pattern reports nothing in a text where what it asks for does not come in order.\<close>

lemma nothing_pushed:
  assumes "engine_ok C E" "valid_str s" "p = NoCase (rx_seq (map fst as @ Val r # map fst bs))"
    and "\<forall>(r, Q) \<in> set as. asks C s r Q" "\<forall>(r, Q) \<in> set bs. asks C s r Q"
    and "\<And>k q. q \<in> set (rx_steps C s (rx_seq (map fst bs)) True k) \<Longrightarrow> snd q = snd k"
    and "\<And>ts us. list_all2 (\<in>) ts (asked as) \<Longrightarrow> list_all2 (\<in>) us (asked bs) \<Longrightarrow> \<not> in_order (ts @ Evidence # us) s"
  shows "push_gated E p s k out = out"
proof -
  have "\<not> looks_like_secret_value (capture_str s v)" if hit: "(w, v) \<in> set (captures_iter E p s)" for w v
  proof
    assume secret: "looks_like_secret_value (capture_str s v)"
    obtain i j c where m: "i \<le> length s" "rx_match C p s i (j, c)" "v = map_option (\<lambda>(a, b). span_of s a b) c"
      using assms(1) hit by (blast elim: engine_capture)
    obtain a b where ab: "c = Some (a, b)" "a \<le> b" "b \<le> length s"
      and ord: "reads Evidence (slice s a b) \<Longrightarrow>
        \<exists>ts us. list_all2 (\<in>) ts (asked as) \<and> list_all2 (\<in>) us (asked bs) \<and> in_order (ts @ Evidence # us) s"
      using value_in_order [OF m(2) [unfolded assms(3)] m(1) assms(4-6)] by blast
    have "s = take a s @ slice s a b @ drop b s"
      using ab(2) by (simp add: slice_def) (metis append_take_drop_id drop_drop le_add_diff_inverse2)
    moreover have "length (take a s) = a" "length (slice s a b) = b - a" using ab by (simp_all add: slice_def)
    ultimately have "capture_str s (Some (span_of s a b)) = slice s a b"
      using capture_mid [of "take a s" "slice s a b" "drop b s"] assms(2) ab(2) by simp
    with secret_value_evidence [OF secret] ord assms(7) m(3) ab(1) show False by auto
  qed
  then have "filter (\<lambda>(w, v). looks_like_secret_value (capture_str s v)) (captures_iter E p s) = []"
    by (auto simp: filter_empty_conv)
  then show ?thesis by (simp add: push_gated_def)
qed

section \<open>What the four gated patterns ask for\<close>

definition structural_orders :: "sought list list" where
  "structural_orders =
     [map Word [lit ''://'', lit '':''] @ [Evidence, Word (lit ''@'')]] @
     map (\<lambda>k. map Word [lit ''authorization'', lit '':'', lit k] @ [Evidence]) credential_kinds @
     map (\<lambda>k. map Word [lit ''http'', lit ''://'', lit k, lit ''=''] @ [Evidence]) url_keys @
     concat (map (\<lambda>k. [[Word (lit k), Word [58], Evidence], [Word (lit k), Word [61], Evidence]]) secret_keys)"

definition structural_free :: "str \<Rightarrow> bool" where
  "structural_free text \<longleftrightarrow>
     list_all (\<lambda>c. c < 128) text \<and> list_all (\<lambda>ts. \<not> in_order ts text) structural_orders"

lemma structural_freeD:
  assumes "structural_free s"
  shows "list_all (\<lambda>c. c < 128) s" "ts \<in> set structural_orders \<Longrightarrow> \<not> in_order ts s"
  using assms by (simp_all add: structural_free_def list_all_iff)

lemma no_connection:
  assumes "engine_ok C E" "fold_ok C" "valid_str s" "structural_free s"
  shows "push_gated E CONNECTION_STRING s k out = out"
proof (rule nothing_pushed [OF assms(1,3)])
  note word = asks_word [OF assms(2) structural_freeD(1) [OF assms(4)]]
  let ?as = "[(Word_Boundary, {}), (scheme_piece, {}), (rx_str ''://'', {Word (lit ''://'')}),
    (rx_star (Cls True no_authority), {}), (rx_str '':'', {Word (lit '':'')})]"
  let ?bs = "[(rx_str ''@'', {Word (lit ''@'')})]"
  show "CONNECTION_STRING = NoCase (rx_seq (map fst ?as @ Val (rx_plus (Cls True no_authority)) # map fst ?bs))"
    by (simp add: CONNECTION_STRING_pieces)
  show "\<forall>(r, Q) \<in> set ?as. asks C s r Q" "\<forall>(r, Q) \<in> set ?bs. asks C s r Q"
    by (simp_all add: asks_nothing word low_word_def is_ascii_uppercase_def)
  show "snd q = snd k" if "q \<in> set (rx_steps C s (rx_seq (map fst ?bs)) True k)" for k q
    using that by (auto simp: rx_str_def lit_def split: if_splits)
  show "\<not> in_order (ts @ Evidence # us) s" if "list_all2 (\<in>) ts (asked ?as)" "list_all2 (\<in>) us (asked ?bs)" for ts us
    using that by (intro structural_freeD(2) [OF assms(4)])
      (auto simp: asked_def list_all2_Cons2 structural_orders_def)
qed

lemma no_bearer:
  assumes "engine_ok C E" "fold_ok C" "valid_str s" "structural_free s"
  shows "push_gated E AUTHZ_BEARER s k out = out"
proof (rule nothing_pushed [where bs = "[]", OF assms(1,3)])
  note ascii = structural_freeD(1) [OF assms(4)]
  let ?as = "[(Word_Boundary, {}), (rx_opt (rx_str ''proxy-''), {}), (rx_str ''authorization'', {Word (lit ''authorization'')}),
    (rx_star (Cls False [Space]), {}), (rx_str '':'', {Word (lit '':'')}), (rx_star (Cls False [Space]), {}),
    (rx_strs credential_kinds, (\<lambda>w. Word (lit w)) ` set credential_kinds), (rx_plus (Cls False [Space]), {})]"
  show "AUTHZ_BEARER = NoCase (rx_seq (map fst ?as @ Val (rx_least (Cls False bearer_items) 8) # map fst []))"
    by (simp add: AUTHZ_BEARER_pieces)
  have "asks C s (rx_strs credential_kinds) ((\<lambda>w. Word (lit w)) ` set credential_kinds)"
    by (rule asks_words [OF assms(2) ascii]) (simp add: credential_kinds_def low_word_def is_ascii_uppercase_def)
  then show "\<forall>(r, Q) \<in> set ?as. asks C s r Q"
    by (simp add: asks_nothing asks_word [OF assms(2) ascii] low_word_def is_ascii_uppercase_def)
  have "credential_kinds \<noteq> []" by (simp add: credential_kinds_def)
  then show "\<not> in_order (ts @ Evidence # us) s" if "list_all2 (\<in>) ts (asked ?as)" "list_all2 (\<in>) us (asked [])" for ts us
    using that by (intro structural_freeD(2) [OF assms(4)])
      (auto simp: asked_def list_all2_Cons2 structural_orders_def)
qed simp_all

lemma no_url_secret:
  assumes "engine_ok C E" "fold_ok C" "signs_ok C" "valid_str s" "structural_free s"
  shows "push_gated E URL_EMBEDDED_SECRET s k out = out"
proof (rule nothing_pushed [where bs = "[]", OF assms(1,4)])
  note ascii = structural_freeD(1) [OF assms(5)]
  let ?as = "[(Word_Boundary, {}), (rx_str ''http'', {Word (lit ''http'')}), (rx_opt (rx_str ''s''), {}),
    (rx_str ''://'', {Word (lit ''://'')}), (rx_star (Cls True [Space]), {}), (query_sign, {}),
    (name_piece token_names password_names, (\<lambda>w. Word (lit w)) ` set url_keys), (rx_str ''='', {Word (lit ''='')})]"
  show "URL_EMBEDDED_SECRET = NoCase (rx_seq (map fst ?as @
      Val (rx_least (Cls True [Space, one CHR ''&'', one CHR ''#'']) 3) # map fst []))"
    by (simp add: URL_EMBEDDED_SECRET_pieces query_value_def)
  have "asks C s (name_piece token_names password_names) ((\<lambda>w. Word (lit w)) ` set url_keys)"
    unfolding url_keys_def by (rule asks_name [OF assms(2,3) ascii]) (simp add: low_word_def is_ascii_uppercase_def)
  then show "\<forall>(r, Q) \<in> set ?as. asks C s r Q"
    by (simp add: asks_nothing asks_word [OF assms(2) ascii] low_word_def is_ascii_uppercase_def)
  have "url_keys \<noteq> []" by (simp add: url_keys_def names_def)
  then show "\<not> in_order (ts @ Evidence # us) s" if "list_all2 (\<in>) ts (asked ?as)" "list_all2 (\<in>) us (asked [])" for ts us
    using that by (intro structural_freeD(2) [OF assms(5)])
      (auto simp: asked_def list_all2_Cons2 structural_orders_def)
qed simp_all

lemma no_assignment:
  assumes "engine_ok C E" "fold_ok C" "signs_ok C" "valid_str s" "structural_free s"
  shows "push_gated E KEY_VALUE_SECRET s k out = out"
proof (rule nothing_pushed [where bs = "[]", OF assms(1,4)])
  note ascii = structural_freeD(1) [OF assms(5)]
  let ?as = "[(lead_piece, {}), (key_piece, (\<lambda>w. Word (lit w)) ` set secret_keys), (rx_star (Cls False [Space]), {}),
    (equals_piece, {Word [58], Word [61]}), (rx_star (Cls False [Space]), {}), (rx_opt (Cls False quote_items), {})]"
  show "KEY_VALUE_SECRET = NoCase (rx_seq (map fst ?as @ Val (rx_least (Cls True (Space # quote_items)) 4) # map fst []))"
    by (simp add: KEY_VALUE_SECRET_pieces)
  have "asks C s key_piece ((\<lambda>w. Word (lit w)) ` set secret_keys)"
    unfolding secret_keys_def key_piece_def
    by (rule asks_name [OF assms(2,3) ascii]) (simp add: low_word_def is_ascii_uppercase_def)
  then show "\<forall>(r, Q) \<in> set ?as. asks C s r Q"
    by (simp add: asks_nothing asks_sign [OF assms(3)])
  have "secret_keys \<noteq> []" by (simp add: secret_keys_def names_def)
  then show "\<not> in_order (ts @ Evidence # us) s" if "list_all2 (\<in>) ts (asked ?as)" "list_all2 (\<in>) us (asked [])" for ts us
    using that by (intro structural_freeD(2) [OF assms(5)])
      (auto simp: asked_def list_all2_Cons2 structural_orders_def)
qed simp_all

section \<open>Texts without evidence behind a sign\<close>

lemma in_order_append:
  assumes "in_order (xs @ ys) s" "Word [] \<notin> set xs"
  shows "\<exists>a r. s = a @ r \<and> in_order ys r"
  using assms
proof (induction xs arbitrary: s)
  case (Cons t xs)
  then obtain r where r: "rest_after t s = Some r" "in_order (xs @ ys) r" by (auto split: option.splits)
  obtain a u where "s = a @ u @ r" using rest_afterD [OF r(1)] Cons.prems(2) by auto
  moreover obtain b q where "r = b @ q" "in_order ys q" using Cons.IH [OF r(2)] Cons.prems(2) by auto
  ultimately show ?case by (intro exI [of _ "a @ u @ b"] exI [of _ q]) simp
qed auto

lemma in_order_evidence:
  assumes "in_order (xs @ Evidence # ys) s" "Word [] \<notin> set xs"
  shows "list_ex evidence s"
proof -
  obtain a r where r: "s = a @ r" "in_order (Evidence # ys) r" using in_order_append [OF assms] by blast
  then obtain q where "rest_after Evidence r = Some q" by (auto split: option.splits)
  from rest_afterD [OF this] obtain b u where u: "r = b @ u @ q" "u \<noteq> [] \<and> evidence (hd u)" by auto
  then show ?thesis by (cases u) (simp_all add: r(1))
qed

lemma word_sign:
  assumes "to_ascii_lowercase u = w" "x \<in> set w" "x = 58 \<or> x = 61"
  shows "x \<in> set u"
  using assms by (auto simp: to_ascii_lowercase_def is_ascii_uppercase_def split: if_splits)

text \<open>Every order has a sign of assignment before the evidence.\<close>

definition sign_first :: "sought list \<Rightarrow> bool" where
  "sign_first ts \<longleftrightarrow> (\<exists>xs w ys zs. ts = xs @ Word w # ys @ Evidence # zs \<and> Word [] \<notin> set (xs @ ys) \<and>
     (58 \<in> set w \<or> 61 \<in> set w))"

lemma sign_firstI:
  "58 \<in> set w \<or> 61 \<in> set w \<Longrightarrow> Word [] \<notin> set (xs @ ys) \<Longrightarrow> sign_first (xs @ Word w # ys @ Evidence # zs)"
  unfolding sign_first_def by blast

lemma evidence_behind_sign:
  assumes "in_order ts s" "sign_first ts"
  shows "list_ex evidence (tl (dropWhile (\<lambda>c. c \<noteq> 58 \<and> c \<noteq> 61) s))"
proof -
  let ?P = "\<lambda>c :: nat. c \<noteq> 58 \<and> c \<noteq> 61"
  obtain xs w ys zs where ts: "ts = xs @ Word w # ys @ Evidence # zs" "Word [] \<notin> set (xs @ ys)"
    "58 \<in> set w \<or> 61 \<in> set w" using assms(2) unfolding sign_first_def by blast
  have "Word [] \<notin> set xs" using ts(2) by simp
  from in_order_append [OF assms(1) [unfolded ts(1)] this] obtain a r where
    r: "s = a @ r" "in_order (Word w # ys @ Evidence # zs) r" by blast
  from r(2) obtain b where b: "rest_after (Word w) r = Some b" "in_order (ys @ Evidence # zs) b"
    by (auto split: option.splits)
  have "Word w \<noteq> Word []" using ts(3) by auto
  then obtain c u where u: "r = c @ u @ b" "sought_at (Word w) u" "length u = length w"
    using rest_afterD [OF b(1)] by auto
  have "58 \<in> set u \<or> 61 \<in> set u" using u(2,3) ts(3) word_sign [of u w] by auto
  then obtain x where x: "x \<in> set (a @ c @ u)" "\<not> ?P x" by auto
  then have "dropWhile ?P (a @ c @ u) \<noteq> []" by (simp only: dropWhile_eq_Nil_conv) blast
  moreover have "dropWhile ?P ((a @ c @ u) @ b) = dropWhile ?P (a @ c @ u) @ b"
    using x by (rule dropWhile_append1)
  ultimately have "tl (dropWhile ?P s) = tl (dropWhile ?P (a @ c @ u)) @ b" by (simp add: r(1) u(1))
  moreover have "list_ex evidence b" using in_order_evidence [OF b(2)] ts(2) by simp
  ultimately show ?thesis by simp
qed

lemma structural_orders_sign: "ts \<in> set structural_orders \<Longrightarrow> sign_first ts"
proof -
  assume "ts \<in> set structural_orders"
  then consider "ts = [Word (lit ''://''), Word (lit '':''), Evidence, Word (lit ''@'')]"
    | k where "k \<in> set credential_kinds" "ts = [Word (lit ''authorization''), Word (lit '':''), Word (lit k), Evidence]"
    | k where "k \<in> set url_keys" "ts = [Word (lit ''http''), Word (lit ''://''), Word (lit k), Word (lit ''=''), Evidence]"
    | k x where "k \<in> set secret_keys" "x = 58 \<or> x = 61" "ts = [Word (lit k), Word [x], Evidence]"
    unfolding structural_orders_def by auto
  then show "sign_first ts"
  proof cases
    case 1
    show ?thesis using sign_firstI [of "lit '':''" "[Word (lit ''://'')]" "[]"] by (simp add: 1 lit_def)
  next
    case 2
    then have "lit k \<noteq> []" by (auto simp: credential_kinds_def lit_def)
    then show ?thesis using sign_firstI [of "lit '':''" "[Word (lit ''authorization'')]" "[Word (lit k)]"]
      by (simp add: 2 lit_def)
  next
    case 3
    then have "lit k \<noteq> []" by (auto simp: url_keys_def names_def lit_def)
    then show ?thesis
      using sign_firstI [of "lit ''=''" "map Word [lit ''http'', lit ''://'', lit k]" "[]"] by (simp add: 3 lit_def)
  next
    case 4
    then have "lit k \<noteq> []" by (auto simp: secret_keys_def names_def lit_def)
    then show ?thesis using sign_firstI [of "[x]" "[Word (lit k)]" "[]"] 4(2) by (simp add: 4(3))
  qed
qed

lemma structural_freeI:
  assumes "list_all (\<lambda>c. c < 128) s" "list_all (\<lambda>c. \<not> evidence c) (tl (dropWhile (\<lambda>c. c \<noteq> 58 \<and> c \<noteq> 61) s))"
  shows "structural_free s"
  using evidence_behind_sign [OF _ structural_orders_sign, of _ s] assms
  by (auto simp: structural_free_def list_all_iff list_ex_iff)

section \<open>Texts without a name\<close>

lemma in_order_contains:
  assumes "in_order (xs @ Word w # ys) s" "Word [] \<notin> set xs" "w \<noteq> []"
  shows "contains_str (to_ascii_lowercase s) w"
proof -
  obtain a r where r: "s = a @ r" "in_order (Word w # ys) r" using in_order_append [OF assms(1,2)] by blast
  then obtain q where q: "rest_after (Word w) r = Some q" by (auto split: option.splits)
  obtain b u where u: "r = b @ u @ q" "sought_at (Word w) u" "length u = length w"
    using rest_afterD [OF q] assms(3) by auto
  then have "to_ascii_lowercase s = to_ascii_lowercase (a @ b) @ w @ to_ascii_lowercase q"
    by (simp add: r(1) to_ascii_lowercase_def)
  then show ?thesis unfolding contains_str_iff by blast
qed

lemma structural_free_names:
  assumes "list_all (\<lambda>c. c < 128) s" "\<not> in_order [Word (lit ''://''), Word (lit '':''), Evidence, Word (lit ''@'')] s"
    and "list_all (\<lambda>w. \<not> contains_str (to_ascii_lowercase s) (lit w)) (''authorization'' # url_keys @ secret_keys)"
  shows "structural_free s"
proof -
  have no: "\<not> in_order (xs @ Word (lit w) # ys) s"
    if "w \<in> set (''authorization'' # url_keys @ secret_keys)" "Word [] \<notin> set xs" for xs w ys
  proof
    assume o: "in_order (xs @ Word (lit w) # ys) s"
    have "lit w \<noteq> []" using that(1) by (auto simp: url_keys_def secret_keys_def names_def lit_def)
    from in_order_contains [OF o that(2) this] assms(3) that(1) show False unfolding list_all_iff by blast
  qed
  have "\<not> in_order ts s" if "ts \<in> set structural_orders" for ts
  proof -
    from that consider "ts = [Word (lit ''://''), Word (lit '':''), Evidence, Word (lit ''@'')]"
      | ys where "ts = [] @ Word (lit ''authorization'') # ys"
      | k ys where "k \<in> set url_keys" "ts = map Word [lit ''http'', lit ''://''] @ Word (lit k) # ys"
      | k ys where "k \<in> set secret_keys" "ts = [] @ Word (lit k) # ys"
      unfolding structural_orders_def by auto
    then show ?thesis
    proof cases
      case 1
      with assms(2) show ?thesis by (simp only:) blast
    next
      case 2
      show ?thesis unfolding 2 by (rule no) simp_all
    next
      case 3
      show ?thesis unfolding 3(2) by (rule no) (use 3(1) in \<open>simp_all add: lit_def\<close>)
    next
      case 4
      show ?thesis unfolding 4(2) by (rule no) (use 4(1) in simp_all)
    qed
  qed
  with assms(1) show ?thesis by (simp add: structural_free_def list_all_iff)
qed

section \<open>Evaluating the search\<close>

primrec low_prefix :: "str \<Rightarrow> str \<Rightarrow> bool" where
  "low_prefix [] s = True"
| "low_prefix (a # w) s = (case s of [] \<Rightarrow> False
     | c # r \<Rightarrow> (if is_ascii_uppercase c then c + 32 else c) = a \<and> low_prefix w r)"

lemma low_prefix: "to_ascii_lowercase (take (length w) s) = w \<longleftrightarrow> low_prefix w s"
  by (induction w arbitrary: s) (auto simp: to_ascii_lowercase_def split: list.splits)

lemma rest_after_steps:
  "rest_after t [] = None"
  "rest_after (Word (a # w)) (c # s) =
     (if (if 65 \<le> c \<and> c \<le> 90 then c + 32 else c) = a \<and> low_prefix w s then Some (drop (length w) s)
      else rest_after (Word (a # w)) s)"
  "rest_after Evidence (c # s) = (if evidence c then Some s else rest_after Evidence s)"
proof -
  have "sought_at (Word (a # w)) (c # s) = low_prefix (a # w) (c # s)"
    by (simp only: sought_at.simps low_prefix)
  then show "rest_after (Word (a # w)) (c # s) =
     (if (if 65 \<le> c \<and> c \<le> 90 then c + 32 else c) = a \<and> low_prefix w s then Some (drop (length w) s)
      else rest_after (Word (a # w)) s)"
    by (simp add: is_ascii_uppercase_def del: sought_at.simps)
qed simp_all

declare rest_after.simps [simp del]

text \<open>Orders with a common beginning share its search.\<close>

definition behind :: "sought \<Rightarrow> str \<Rightarrow> (str \<Rightarrow> bool) \<Rightarrow> bool" where
  "behind t s P \<longleftrightarrow> (case rest_after t s of None \<Rightarrow> True | Some r \<Rightarrow> P r)"

lemma behind_orders:
  "\<not> in_order (t # ts) s \<longleftrightarrow> behind t s (\<lambda>r. \<not> in_order ts r)"
  "(\<forall>k \<in> A. behind t s (Q k)) \<longleftrightarrow> behind t s (\<lambda>r. \<forall>k \<in> A. Q k r)"
  "behind t s P \<and> behind t s P' \<longleftrightarrow> behind t s (\<lambda>r. P r \<and> P' r)"
  by (cases "rest_after t s"; simp add: behind_def)+

lemma structural_free_search:
  "structural_free s \<longleftrightarrow> list_all (\<lambda>c. c < 128) s \<and>
     \<not> in_order [Word (lit ''://''), Word (lit '':''), Evidence, Word (lit ''@'')] s \<and>
     behind (Word (lit ''authorization'')) s (\<lambda>r.
       \<forall>k \<in> set credential_kinds. \<not> in_order [Word (lit '':''), Word (lit k), Evidence] r) \<and>
     behind (Word (lit ''http'')) s (\<lambda>r. behind (Word (lit ''://'')) r (\<lambda>r'.
       \<forall>k \<in> set url_keys. \<not> in_order [Word (lit k), Word (lit ''=''), Evidence] r')) \<and>
     (\<forall>k \<in> set secret_keys. behind (Word (lit k)) s (\<lambda>r.
       \<not> in_order [Word [58], Evidence] r \<and> \<not> in_order [Word [61], Evidence] r))"
proof -
  have orders: "list_all P structural_orders \<longleftrightarrow>
      P [Word (lit ''://''), Word (lit '':''), Evidence, Word (lit ''@'')] \<and>
      (\<forall>k \<in> set credential_kinds. P [Word (lit ''authorization''), Word (lit '':''), Word (lit k), Evidence]) \<and>
      (\<forall>k \<in> set url_keys. P [Word (lit ''http''), Word (lit ''://''), Word (lit k), Word (lit ''=''), Evidence]) \<and>
      (\<forall>k \<in> set secret_keys. P [Word (lit k), Word [58], Evidence] \<and> P [Word (lit k), Word [61], Evidence])" for P
    unfolding structural_orders_def list_all_iff by (simp add: ball_Un)
  show ?thesis unfolding structural_free_def orders by (simp only: behind_orders)
qed

lemmas structural_search = behind_def rest_after_steps lit_def is_ascii_uppercase_def is_ascii_digit_def evidence_def
  credential_kinds_def url_keys_def secret_keys_def names_def

primrec raw_prefix :: "str \<Rightarrow> str \<Rightarrow> bool" where
  "raw_prefix [] s = True"
| "raw_prefix (a # w) s = (case s of [] \<Rightarrow> False | c # r \<Rightarrow> c = a \<and> raw_prefix w r)"

lemma raw_prefix: "starts_with s w \<longleftrightarrow> raw_prefix w s"
  by (induction w arbitrary: s) (auto simp: starts_with_def split: list.splits)

lemma contains_steps:
  "contains_str [] (a # w) = False"
  "contains_str (c # s) (a # w) =
     (if c = a then raw_prefix w s \<or> contains_str s (a # w) else contains_str s (a # w))"
  by (simp_all add: raw_prefix)

lemmas beginnings_search = contains_steps lit_def token_beginnings_def

section \<open>Ordinary text\<close>

text \<open>An executable description of texts that no rule looks at.\<close>

definition ordinary_text :: "'f mask_config \<Rightarrow> str \<Rightarrow> bool" where
  "ordinary_text config text \<longleftrightarrow>
     list_all (\<lambda>t. \<not> contains_str text t) token_beginnings \<and>
     (list_all (\<lambda>c. c \<noteq> 58 \<and> c \<noteq> 61) text \<or> structural_free text) \<and>
     list_all (plain_word config) (split_on (\<lambda>c. \<not> token_char c) text)"

lemma ordinary_pushes_nothing:
  assumes "engine_ok C E" "fold_ok C" "signs_ok C" "valid_str s" "ordinary_text config s"
    and "r \<in> {CONNECTION_STRING, AUTHZ_BEARER, URL_EMBEDDED_SECRET, KEY_VALUE_SECRET}"
  shows "push_gated E r s k out = out"
proof -
  consider "58 \<notin> set s" "61 \<notin> set s" | "structural_free s"
    using assms(5) by (auto simp: ordinary_text_def list_all_iff)
  then show ?thesis
  proof cases
    case 1
    have "\<not> rx_match C r s i q" if "i \<le> length s" for i q
      using structural_sign [OF assms(3) that, of r q] assms(6) 1 by blast
    from nothing_found(2) [OF assms(1) this] show ?thesis by (simp add: push_gated_def)
  next
    case 2
    note none = no_connection no_bearer no_url_secret no_assignment
    show ?thesis using assms(6) none [OF assms(1,2)] assms(3,4) 2 by auto
  qed
qed

lemma ordinary_nothing_collected:
  assumes "engine_ok C E" "fold_ok C" "signs_ok C" "valid_str text" "length (as_bytes text) < 2 ^ 32"
    and "user_rules config = []" "ordinary_text config text"
  shows "collect_raw prof F E text config = Some []"
proof -
  have p: "provider_matches E text [] = []"
    using assms(7) by (intro no_provider_matches [OF assms(1)]) (auto simp: ordinary_text_def list_all_iff)
  note none = ordinary_pushes_nothing [OF assms(1-4,7)]
  have s: "gated_literal_matches E text [] = []" "url_matches E text [] = []" "kv_matches E text [] = []"
    by (simp_all add: gated_literal_matches_def url_matches_def kv_matches_def none)
  have "\<forall>w \<in> set (split_on (\<lambda>c. \<not> token_char c) text). plain_word config w"
    using assms(7) by (simp add: ordinary_text_def list_all_iff)
  then have "high_entropy_matches prof F text config occupied [] = Some []" for occupied
    using token_run_word [OF assms(4)] by (intro no_entropy_matches [OF assms(4,5)]) blast
  then show ?thesis by (simp add: collect_raw_def Let_def p s user_matches_def assms(6))
qed

end
