(* ===== verification/Redact_Loops.thy ===== *)
theory Redact_Loops
  imports Redact_Entropy "HOL-Library.While_Combinator"
begin

text \<open>
  The two nested \<open>while\<close> loops of \<open>high_entropy_matches\<close> in \<open>redaction/entropy.rs\<close> as loops over
  their mutable variables, which might run for ever, and their equivalence with the recursive
  functions of Redact_Entropy. A state of the outer loop is \<open>None\<close> after a panic.
\<close>

text \<open>\<open>while i < bytes.len() && is_token_byte(bytes[i]) { i += 1; }\<close>\<close>

definition run_loop :: "bytes \<Rightarrow> nat \<Rightarrow> nat option" where
  "run_loop bs i = while_option (\<lambda>i. i < length bs \<and> is_token_byte (bs ! i)) (\<lambda>i. i + 1) i"

lemma run_loop_exact: "run_loop bs i = Some (token_run_end bs i)"
  unfolding run_loop_def
proof (induction bs i rule: token_run_end.induct)
  case (1 bs i)
  then show ?case by (subst while_option_unfold, subst token_run_end.simps) simp
qed

text \<open>One pass through the body of the outer loop.\<close>

definition scan_pass ::
  "build_profile \<Rightarrow> 'f f64_ops \<Rightarrow> str \<Rightarrow> 'f mask_config \<Rightarrow> (nat \<times> nat) list \<Rightarrow>
   (nat \<times> raw_match list) \<Rightarrow> (nat \<times> raw_match list) option" where
  "scan_pass prof F text config occupied = (\<lambda>(i, out).
     let bs = as_bytes text in
     if \<not> is_token_byte (bs ! i) then Some (i + 1, out)
     else Option.bind (run_loop bs i) (\<lambda>e.
       Option.bind (str_slice text i e) (\<lambda>run.
       Option.bind (qualifies prof F run config) (\<lambda>q.
         Some (e, if q \<and> \<not> overlaps_any i e occupied
                  then out @ [\<lparr>rm_start = i, rm_end = e, rm_kind = HighEntropyString, rm_confidence = Medium\<rparr>]
                  else out)))))"

definition scan_loop ::
  "build_profile \<Rightarrow> 'f f64_ops \<Rightarrow> str \<Rightarrow> 'f mask_config \<Rightarrow> (nat \<times> nat) list \<Rightarrow>
   (nat \<times> raw_match list) option \<Rightarrow> (nat \<times> raw_match list) option option" where
  "scan_loop prof F text config occupied =
     while_option (\<lambda>s. case s of None \<Rightarrow> False | Some (i, out) \<Rightarrow> i < length (as_bytes text))
       (\<lambda>s. Option.bind s (scan_pass prof F text config occupied))"

lemma scan_loop_None: "scan_loop prof F text config occupied None = Some None"
  unfolding scan_loop_def by (subst while_option_unfold) simp

lemma scan_loop_unfold: "scan_loop prof F text config occupied (Some (i, out)) =
    (if i < length (as_bytes text)
     then scan_loop prof F text config occupied (scan_pass prof F text config occupied (i, out))
     else Some (Some (i, out)))"
  unfolding scan_loop_def by (subst while_option_unfold) simp

text \<open>From every position the loop ends, with the result of the recursion.\<close>

lemma scan_loop_ends:
  "\<exists>s. scan_loop prof F text config occupied (Some (i, out)) = Some s \<and>
     map_option snd s = entropy_scan prof F text config occupied i out"
proof (induction prof F "text" config occupied i out rule: entropy_scan.induct)
  case (1 prof F "text" config occupied i out)
  let ?bs = "as_bytes text"
  note scan = entropy_scan.simps [of prof F "text" config occupied i out, unfolded Let_def]
  show ?case
  proof (cases "i < length ?bs")
    case False
    then show ?thesis by (simp add: scan_loop_unfold scan)
  next
    case i: True
    show ?thesis
    proof (cases "is_token_byte (?bs ! i)")
      case False
      with i "1.IH"(1) [OF refl] show ?thesis by (simp add: scan_loop_unfold [of _ _ _ _ _ i] scan scan_pass_def)
    next
      case tok: True
      let ?e = "token_run_end ?bs i"
      show ?thesis
      proof (cases "str_slice text i ?e")
        case None
        with i tok show ?thesis
          by (simp add: scan_loop_unfold [of _ _ _ _ _ i] scan scan_pass_def run_loop_exact scan_loop_None)
      next
        case run: (Some run)
        show ?thesis
        proof (cases "qualifies prof F run config")
          case None
          with i tok run show ?thesis
            by (simp add: scan_loop_unfold [of _ _ _ _ _ i] scan scan_pass_def run_loop_exact scan_loop_None)
        next
          case (Some q)
          with i tok run "1.IH"(2) [OF refl _ _ refl run Some] show ?thesis
            by (simp add: scan_loop_unfold [of _ _ _ _ _ i] scan scan_pass_def run_loop_exact Let_def
                split del: if_split)
        qed
      qed
    qed
  qed
qed

end
