(* ===== verification/Conformance.thy ===== *)
theory Conformance
  imports Redact_Properties Sync_Gc
begin

text \<open>
  The repository's own tests, run on the model: the unit tests in the \<open>tests\<close> modules of
  \<open>sync/mod.rs\<close>, \<open>crypto/mod.rs\<close>, \<open>kdf/mod.rs\<close>, \<open>record/canonical.rs\<close> and \<open>record/mod.rs\<close>, and the
  known answers of \<open>kat/sync.json\<close> with the loops of \<open>tests/kat_sync.rs\<close>; the redaction tests are in
  theory Redact_Tests. A test is a boolean that
  says whether all its assertions hold; a panic makes it false. Tests about forged or foreign
  ciphertexts are left out where only the strength of the cipher makes them pass (a wrong key, a hidden
  substring, the independence of labels); a changed tag is covered by exactness.
\<close>

section \<open>The tests of the sync rules\<close>

definition test_node :: "u8 \<Rightarrow> uuid" where "test_node n = ucast n"

definition test_hlc :: "i64 \<Rightarrow> u32 \<Rightarrow> u8 \<Rightarrow> hlc" where
  "test_hlc wall c n = \<lparr>wall_millis = wall, counter = c, node = test_node n\<rparr>"

definition default_local :: local_state where
  "default_local = \<lparr>applied = False, applied_deleted = False, live_duplicate_sync_hash = False,
     tombstoned_duplicate_hlc = None\<rparr>"

definition hlc_next_is_monotonic_against_backwards_clock :: bool where
  "hlc_next_is_monotonic_against_backwards_clock \<longleftrightarrow>
     (let prev = test_hlc 1000 3 1;
          nxt = hlc_next (Some prev) 500 (test_node 1);
          fresh = hlc_next (Some prev) 2000 (test_node 1)
      in wall_millis nxt = 1000 \<and> counter nxt = 4 \<and>
         (wall_millis fresh, counter fresh) = (2000, 0))"

definition hlc_counter_saturation_rolls_wall :: bool where
  "hlc_counter_saturation_rolls_wall \<longleftrightarrow>
     (let prev = test_hlc 1000 u32_max 1; nxt = hlc_next (Some prev) 1000 (test_node 1)
      in (wall_millis nxt, counter nxt) = (1001, 0))"

definition hlc_receive_clamps_skewed_remote_wall :: bool where
  "hlc_receive_clamps_skewed_remote_wall \<longleftrightarrow>
     (let local = test_hlc 1000 0 1;
          skewed = test_hlc (MAX_DRIFT_MILLIS * 10) 0 2;
          merged = hlc_receive (Some local) skewed 1000 (test_node 1)
      in sint (wall_millis merged) \<le> sint (1000 + MAX_DRIFT_MILLIS) \<and>
         hlc_compare skewed merged = Greater)"

definition hlc_compare_is_total_via_node :: bool where
  "hlc_compare_is_total_via_node \<longleftrightarrow>
     (let a = test_hlc 5 1 1; b = test_hlc 5 1 2
      in hlc_compare a b = Less \<and> hlc_compare a a = Equal)"

definition tombstone_always_wins_for_known_record :: bool where
  "tombstone_always_wins_for_known_record \<longleftrightarrow>
     (let local = default_local\<lparr>applied := True\<rparr>
      in merge_decide local True (test_hlc 1 0 2) = ApplyTombstone \<and>
         merge_decide local False (test_hlc 9 0 2) = Skip)"

definition unknown_tombstone_is_recorded_not_skipped :: bool where
  "unknown_tombstone_is_recorded_not_skipped \<longleftrightarrow>
     merge_decide default_local True (test_hlc 1 0 2) = RecordTombstoneOnly"

definition duplicate_content_suppresses_insert_unless_recopied_after_wipe :: bool where
  "duplicate_content_suppresses_insert_unless_recopied_after_wipe \<longleftrightarrow>
     (let live_dup = default_local\<lparr>live_duplicate_sync_hash := True\<rparr>;
          wiped = default_local\<lparr>tombstoned_duplicate_hlc := Some (test_hlc 100 0 1)\<rparr>
      in merge_decide live_dup False (test_hlc 10 0 2) = SkipDuplicateContent \<and>
         merge_decide wiped False (test_hlc 50 0 2) = SkipDuplicateContent \<and>
         merge_decide wiped False (test_hlc 150 0 2) = ApplyRemote)"

definition gc_blocks_on_fresh_unacked_device_and_respects_units :: "build_profile \<Rightarrow> bool" where
  "gc_blocks_on_fresh_unacked_device_and_respects_units prof \<longleftrightarrow>
     (let day = 86400;
          tomb = test_hlc (day * 1000) 0 1;
          acked = \<lparr>last_seen_secs = 39 * day\<rparr>;
          fresh_unacked = \<lparr>last_seen_secs = 12 * day\<rparr>;
          blocking = \<lparr>last_seen_secs = 12 * day\<rparr>;
          late_tomb = test_hlc (20 * day * 1000) 0 1
      in gc_eligible prof tomb [acked, fresh_unacked] (40 * day) = Some True \<and>
         gc_eligible prof late_tomb [blocking] (56 * day) = Some True \<and>
         gc_eligible prof late_tomb [blocking] (41 * day) = Some False)"

definition gc_respects_retention_age :: "build_profile \<Rightarrow> bool" where
  "gc_respects_retention_age prof \<longleftrightarrow>
     (let day = 86400; tomb = test_hlc (day * 1000) 0 1
      in gc_eligible prof tomb [] (30 * day) = Some False \<and>
         gc_eligible prof tomb [] (37 * day) = Some True)"

definition rejoin_stale_deletes_fresh_repushes :: bool where
  "rejoin_stale_deletes_fresh_repushes \<longleftrightarrow>
     (let day = 86400
      in rejoin_action 0 (31 * day) = DeleteLocally \<and> rejoin_action (10 * day) (31 * day) = Repush)"

lemma test_nodes: "uuid_bytes_cmp (test_node 1) (test_node 2) = Less"
  "uuid_bytes_cmp (test_node 1) (test_node 1) = Equal"
  by (simp_all add: uuid_bytes_cmp_def uuid_as_bytes_def test_node_def upt_rec)

lemmas clock_eval = hlc_next_def hlc_receive_def i64_larger_def i64_smaller_def i64_saturating_add_def
  checked_add_u32_def saturating_add_u32_def larger_u32_def u32_max_def MAX_DRIFT_MILLIS_def clamp_i64_def
  i64_of_def i64_min_def i64_max_def Let_def

lemma next_tests: "hlc_next_is_monotonic_against_backwards_clock" "hlc_counter_saturation_rolls_wall"
  unfolding hlc_next_is_monotonic_against_backwards_clock_def hlc_counter_saturation_rolls_wall_def test_hlc_def
  by (simp_all add: clock_eval)

lemma receive_test: "hlc_receive_clamps_skewed_remote_wall"
  unfolding hlc_receive_clamps_skewed_remote_wall_def test_hlc_def
  by (simp add: clock_eval hlc_compare_def)

lemma compare_test: "hlc_compare_is_total_via_node"
  unfolding hlc_compare_is_total_via_node_def test_hlc_def
  by (simp add: hlc_compare_def test_nodes)

lemma merge_tests: "tombstone_always_wins_for_known_record" "unknown_tombstone_is_recorded_not_skipped"
  "duplicate_content_suppresses_insert_unless_recopied_after_wipe"
  unfolding tombstone_always_wins_for_known_record_def unknown_tombstone_is_recorded_not_skipped_def
    duplicate_content_suppresses_insert_unless_recopied_after_wipe_def test_hlc_def default_local_def
  by (simp_all add: merge_decide_def hlc_compare_def)

lemma gc_tests: "gc_blocks_on_fresh_unacked_device_and_respects_units prof" "gc_respects_retention_age prof"
  by (cases prof; code_simp)+

lemma rejoin_test: "rejoin_stale_deletes_fresh_repushes"
  by code_simp

section \<open>The known answers of \<open>kat/sync.json\<close>\<close>

text \<open>Stamps name their node \<open>a\<close> or \<open>b\<close>; the default is \<open>a\<close>.\<close>

definition node_a :: uuid where "node_a = 1"
definition node_b :: uuid where "node_b = 2"

definition stamp_a :: "i64 \<Rightarrow> u32 \<Rightarrow> hlc" where
  "stamp_a wall c = \<lparr>wall_millis = wall, counter = c, node = node_a\<rparr>"

definition stamp_b :: "i64 \<Rightarrow> u32 \<Rightarrow> hlc" where
  "stamp_b wall c = \<lparr>wall_millis = wall, counter = c, node = node_b\<rparr>"

record next_case =
  nc_prev :: "hlc option"
  nc_now :: i64
  nc_expect :: "i64 \<times> u32"

definition kat_hlc_next :: "next_case list \<Rightarrow> bool" where
  "kat_hlc_next cs \<longleftrightarrow> list_all (\<lambda>c.
     let got = hlc_next (nc_prev c) (nc_now c) node_a
     in (wall_millis got, counter got) = nc_expect c \<and> node got = node_a) cs"

definition next_cases :: "next_case list" where
  "next_cases =
     [\<lparr>nc_prev = None, nc_now = 1000, nc_expect = (1000, 0)\<rparr>,
      \<lparr>nc_prev = Some (stamp_a 1000 3), nc_now = 1000, nc_expect = (1000, 4)\<rparr>,
      \<lparr>nc_prev = Some (stamp_a 1000 3), nc_now = 500, nc_expect = (1000, 4)\<rparr>,
      \<lparr>nc_prev = Some (stamp_a 1000 3), nc_now = 2000, nc_expect = (2000, 0)\<rparr>,
      \<lparr>nc_prev = Some (stamp_a 1000 4294967295), nc_now = 1000, nc_expect = (1001, 0)\<rparr>]"

record receive_case =
  rc_local :: hlc
  rc_remote :: hlc
  rc_now :: i64
  rc_expect :: "i64 \<times> u32"

definition kat_hlc_receive :: "receive_case list \<Rightarrow> bool" where
  "kat_hlc_receive cs \<longleftrightarrow> list_all (\<lambda>c.
     let got = hlc_receive (Some (rc_local c)) (rc_remote c) (rc_now c) node_a
     in (wall_millis got, counter got) = rc_expect c) cs"

definition receive_cases :: "receive_case list" where
  "receive_cases =
     [\<lparr>rc_local = stamp_a 1000 5, rc_remote = stamp_a 2000 7, rc_now = 1500, rc_expect = (2000, 8)\<rparr>,
      \<lparr>rc_local = stamp_a 1000 0, rc_remote = stamp_a 999999999999 0, rc_now = 1000,
       rc_expect = (86401000, 1)\<rparr>,
      \<lparr>rc_local = stamp_a 5000 2, rc_remote = stamp_a 5000 9, rc_now = 5000, rc_expect = (5000, 10)\<rparr>,
      \<lparr>rc_local = stamp_a 1000 5, rc_remote = stamp_a 2000 7, rc_now = 9000, rc_expect = (9000, 0)\<rparr>]"

definition kat_hlc_compare :: "(hlc \<times> hlc \<times> ordering) list \<Rightarrow> bool" where
  "kat_hlc_compare cs \<longleftrightarrow> list_all (\<lambda>(a, b, expect). hlc_compare a b = expect) cs"

definition compare_cases :: "(hlc \<times> hlc \<times> ordering) list" where
  "compare_cases =
     [(stamp_a 2 0, stamp_b 1 9, Greater), (stamp_a 1 1, stamp_b 1 2, Less),
      (stamp_a 1 1, stamp_b 1 1, Less)]"

definition kat_merge_case_table :: "(local_state \<times> bool \<times> hlc \<times> merge_action) list \<Rightarrow> bool" where
  "kat_merge_case_table cs \<longleftrightarrow>
     list_all (\<lambda>(local, remote_deleted, remote_hlc, expect).
       merge_decide local remote_deleted remote_hlc = expect) cs"

definition local_of :: "bool \<Rightarrow> bool \<Rightarrow> bool \<Rightarrow> hlc option \<Rightarrow> local_state" where
  "local_of a d live tomb = \<lparr>applied = a, applied_deleted = d, live_duplicate_sync_hash = live,
     tombstoned_duplicate_hlc = tomb\<rparr>"

definition merge_cases :: "(local_state \<times> bool \<times> hlc \<times> merge_action) list" where
  "merge_cases =
     [(local_of False False False None, False, stamp_b 10 0, ApplyRemote),
      (local_of False False False None, True, stamp_b 10 0, RecordTombstoneOnly),
      (local_of True False False None, False, stamp_b 99 0, Skip),
      (local_of True False False None, True, stamp_b 1 0, ApplyTombstone),
      (local_of True True False None, True, stamp_b 50 0, Skip),
      (local_of True True False None, False, stamp_b 50 0, Skip),
      (local_of False False True None, False, stamp_b 10 0, SkipDuplicateContent),
      (local_of False False False (Some (stamp_a 100 0)), False, stamp_b 150 0, ApplyRemote),
      (local_of False False False (Some (stamp_a 100 0)), False, stamp_b 50 0, SkipDuplicateContent),
      (local_of False False False (Some (stamp_a 100 0)), False, stamp_a 100 0, SkipDuplicateContent),
      (local_of False False True (Some (stamp_a 100 0)), False, stamp_b 150 0, SkipDuplicateContent)]"

definition kat_gc :: "build_profile \<Rightarrow> (i64 \<times> i64 list \<times> i64 \<times> bool) list \<Rightarrow> bool" where
  "kat_gc prof cs \<longleftrightarrow> list_all (\<lambda>(wall, seen, now_secs, expect).
     gc_eligible prof (stamp_a wall 0) (map (\<lambda>s. \<lparr>last_seen_secs = s\<rparr>) seen) now_secs = Some expect) cs"

definition gc_cases :: "(i64 \<times> i64 list \<times> i64 \<times> bool) list" where
  "gc_cases =
     [(86400000, [], 2592000, False), (86400000, [], 3196800, True),
      (86400000, [3369600], 3456000, True), (1728000000, [1036800], 3542400, False),
      (1728000000, [1036800], 4838400, True)]"

definition kat_rejoin :: "(i64 \<times> i64 \<times> rejoin_action) list \<Rightarrow> bool" where
  "kat_rejoin cs \<longleftrightarrow> list_all (\<lambda>(seen, now_secs, expect). rejoin_action seen now_secs = expect) cs"

definition rejoin_cases :: "(i64 \<times> i64 \<times> rejoin_action) list" where
  "rejoin_cases = [(0, 2678400, DeleteLocally), (864000, 2678400, Repush)]"

lemma node_order: "uuid_bytes_cmp node_a node_b = Less"
  by (simp add: uuid_bytes_cmp_def uuid_as_bytes_def node_a_def node_b_def upt_rec)

lemma clock_answers: "kat_hlc_next next_cases" "kat_hlc_receive receive_cases" "kat_hlc_compare compare_cases"
  unfolding kat_hlc_next_def next_cases_def kat_hlc_receive_def receive_cases_def kat_hlc_compare_def
    compare_cases_def stamp_a_def stamp_b_def
  by (simp_all add: clock_eval hlc_compare_def node_order)

lemma merge_answers: "kat_merge_case_table merge_cases" "kat_rejoin rejoin_cases"
proof -
  show "kat_merge_case_table merge_cases"
    unfolding kat_merge_case_table_def merge_cases_def stamp_a_def stamp_b_def local_of_def
    by (simp add: merge_decide_def hlc_compare_def uuid_cmp.refl)
  show "kat_rejoin rejoin_cases" by code_simp
qed

lemma gc_answers: "kat_gc prof gc_cases"
proof (cases prof)
  case Debug
  show ?thesis unfolding Debug by code_simp
next
  case Release
  show ?thesis unfolding Release by code_simp
qed

section \<open>The tests of the formats\<close>

text \<open>Tests of sealed data take the primitives and the JSON text as parameters.\<close>

definition seal_open_roundtrip :: "primitives \<Rightarrow> bool" where
  "seal_open_roundtrip P \<longleftrightarrow>
     (let key = replicate KEY_LEN 0x2A; nonce = replicate NONCE_LEN 0; pt = blit ''roundtrip''
      in case local_seal P key nonce pt of
           Inl e \<Rightarrow> False
         | Inr combined \<Rightarrow> length combined = NONCE_LEN + length pt + TAG_LEN \<and>
             take NONCE_LEN combined = nonce \<and> local_open P key combined = Ok pt)"

definition open_rejects_tampered_tag :: "primitives \<Rightarrow> bool" where
  "open_rejects_tampered_tag P \<longleftrightarrow>
     (let key = replicate KEY_LEN 0x2A; nonce = replicate NONCE_LEN 1
      in case local_seal P key nonce (blit ''abc'') of
           Inl e \<Rightarrow> False
         | Inr combined \<Rightarrow>
             (let last = length combined - 1; combined = combined[last := xor (combined ! last) 1]
              in local_open P key combined = Err DecryptFailed))"

definition invalid_lengths_rejected :: "primitives \<Rightarrow> bool" where
  "invalid_lengths_rejected P \<longleftrightarrow>
     local_seal P (replicate 16 0) (replicate NONCE_LEN 0) [] = Err InvalidInput \<and>
     local_seal P (replicate KEY_LEN 0) (replicate 8 0) [] = Err InvalidInput \<and>
     local_open P (replicate KEY_LEN 0) (blit ''short'') = Err DecryptFailed"

definition test_descriptor :: "u32 \<Rightarrow> kdf_descriptor" where
  "test_descriptor iterations =
     \<lparr>kdf_kind = Pbkdf2HmacSha256 iterations, kdf_salt = blit ''0123456789abcdef'', kdf_version = KDF_VERSION\<rparr>"

definition nfc_composed_and_decomposed_agree :: "primitives \<Rightarrow> bool" where
  "nfc_composed_and_decomposed_agree P \<longleftrightarrow>
     (let composed = lit ''caf'' @ [0xE9]; decomposed = lit ''cafe'' @ [0x301]; d = test_descriptor 4096
      in case derive_vault_key P composed d of
           Inl e \<Rightarrow> False
         | Inr k \<Rightarrow> derive_vault_key P decomposed d = Ok k)"

definition zero_iterations_and_empty_salt_rejected :: "primitives \<Rightarrow> bool" where
  "zero_iterations_and_empty_salt_rejected P \<longleftrightarrow>
     derive_vault_key P (lit ''x'') (test_descriptor 0) = Err KdfFailed \<and>
     derive_vault_key P (lit ''x'') ((test_descriptor 4096)\<lparr>kdf_salt := []\<rparr>) = Err KdfFailed"

definition unknown_version_rejected :: "primitives \<Rightarrow> bool" where
  "unknown_version_rejected P \<longleftrightarrow>
     derive_vault_key P (lit ''x'') ((test_descriptor 4096)\<lparr>kdf_version := 99\<rparr>) = Err UnsupportedFormat"

definition rejects_absurd_rep_count :: bool where
  "rejects_absurd_rep_count \<longleftrightarrow>
     decode_plaintext (u32_to_le_bytes 0 @ u32_to_le_bytes 0 @ [0] @ [0] @ u32_to_le_bytes u32_max) =
       Err UnsupportedFormat"

definition rejects_trailing_garbage :: bool where
  "rejects_trailing_garbage \<longleftrightarrow>
     decode_plaintext (encode_plaintext \<lparr>title = lit ''x'', primary_type = lit ''t'', source_bundle = None,
       is_color_code = False, representations = []\<rparr> @ [0xFF]) = Err UnsupportedFormat"

definition TEST_KEY :: bytes where "TEST_KEY = replicate 32 0x2A"
definition TEST_NONCE :: bytes where "TEST_NONCE = replicate 12 0"

definition test_plaintext :: record_plaintext where
  "test_plaintext =
     \<lparr>title = lit ''secret token ghp_xxx'', primary_type = lit ''public.utf8-plain-text'',
      source_bundle = Some (lit ''com.example.app''), is_color_code = False,
      representations = [\<lparr>uttype = lit ''public.utf8-plain-text'',
        rep_data = blit ''secret token ghp_xxx''\<rparr>]\<rparr>"

definition record_seal_open_roundtrip :: "primitives \<Rightarrow> bool" where
  "record_seal_open_roundtrip P \<longleftrightarrow>
     (case seal_record P TEST_KEY TEST_NONCE test_plaintext of
        Inl e \<Rightarrow> False
      | Inr b \<Rightarrow> open_record P TEST_KEY b = Ok test_plaintext)"

definition test_header :: "bool \<Rightarrow> record_header" where
  "test_header del =
     \<lparr>format_version = RECORD_FORMAT_VERSION, record_id = 0, origin_device_id = 0,
      hdr_hlc = \<lparr>wall_millis = 0, counter = 0, node = 0\<rparr>, created_at = 0, updated_at = 0,
      deleted = del, sync_hash = lit ''00''\<rparr>"

definition reencodes :: "json_text \<Rightarrow> record_envelope \<Rightarrow> record_envelope core_result \<Rightarrow> bool" where
  "reencodes J env expect \<longleftrightarrow>
     (case encode_envelope J env of Inl e \<Rightarrow> False | Inr bs \<Rightarrow> decode_envelope J bs = expect)"

definition envelope_roundtrip_live_and_tombstone :: "primitives \<Rightarrow> json_text \<Rightarrow> bool" where
  "envelope_roundtrip_live_and_tombstone P J \<longleftrightarrow>
     (case seal_record P TEST_KEY TEST_NONCE test_plaintext of
        Inl e \<Rightarrow> False
      | Inr b \<Rightarrow>
          (let live = \<lparr>header = test_header False, body = Some b\<rparr>;
               tomb = \<lparr>header = test_header True, body = None\<rparr>
           in reencodes J live (Ok live) \<and> reencodes J tomb (Ok tomb)))"

definition decode_rejects_body_tombstone_mismatch :: "json_text \<Rightarrow> bool" where
  "decode_rejects_body_tombstone_mismatch J \<longleftrightarrow>
     reencodes J \<lparr>header = test_header True, body = Some (replicate 28 0)\<rparr> (Err UnsupportedFormat)"

lemma crypto_tests:
  "aead_ok P \<Longrightarrow> seal_open_roundtrip P" "invalid_lengths_rejected P"
proof -
  assume P: "aead_ok P"
  have k: "length (replicate KEY_LEN (0x2A :: u8)) = 32" "length (replicate NONCE_LEN (0 :: u8)) = 12"
    by (simp_all add: len_defs)
  have "length (blit ''roundtrip'') \<le> AEAD_MAX" by (simp add: blit_def lit_def AEAD_MAX_def)
  then obtain b where b: "local_seal P (replicate KEY_LEN 0x2A) (replicate NONCE_LEN 0) (blit ''roundtrip'') = Inr b"
    using box.seal_total [OF P k] by blast
  then obtain c where c: "aes_gcm_encrypt P (replicate KEY_LEN 0x2A) (replicate NONCE_LEN 0) (blit ''roundtrip'') = Some c"
    "b = replicate NONCE_LEN 0 @ c" by (auto simp: local_seal_eq_Ok)
  have "length c = length (blit ''roundtrip'') + TAG_LEN" using aead_okD(1) [OF P _ _ c(1)] by simp
  with b c(2) local_open_local_seal [OF P b] show "seal_open_roundtrip P" by (simp add: seal_open_roundtrip_def)
qed (simp add: invalid_lengths_rejected_def local_seal_def local_open_def cipher_def len_defs blit_def lit_def)

lemma tampered_test:
  assumes P: "aead_ok P" "aead_exact P"
  shows "open_rejects_tampered_tag P"
proof -
  define key nonce :: bytes where "key = replicate KEY_LEN 0x2A" and "nonce = replicate NONCE_LEN 1"
  have k: "length key = 32" "length nonce = 12" by (simp_all add: key_def nonce_def len_defs)
  have "length (blit ''abc'') \<le> AEAD_MAX" by (simp add: blit_def lit_def AEAD_MAX_def)
  then obtain b where b: "local_seal P key nonce (blit ''abc'') = Inr b" using box.seal_total [OF P(1) k] by blast
  have l: "length b = 31" using box.seal_layout [OF P(1) b] by (simp add: blit_def lit_def)
  define c where "c = b[30 := xor (b ! 30) 1]"
  have "xor (b ! 30) 1 \<noteq> b ! 30"
  proof
    assume "xor (b ! 30) 1 = b ! 30"
    then have "xor (b ! 30) (xor (b ! 30) 1) = xor (b ! 30) (b ! 30)" by (rule arg_cong)
    then show False by (simp add: xor.assoc [symmetric])
  qed
  moreover have "c ! 30 = xor (b ! 30) 1" by (simp add: c_def l)
  ultimately have differs: "c \<noteq> b" by metis
  have c: "length c = length b" "take (length b - 16) c = take (length b - 16) b" by (simp_all add: c_def l)
  have "local_open P key c = Err DecryptFailed"
  proof (cases "local_open P key c")
    case (Inr q)
    have "length b \<le> AEAD_MAX + 28" by (simp add: l AEAD_MAX_def)
    from gcm.only_one_tag [OF P this box.unseal_seal [OF P(1) b] Inr c] differs show ?thesis by simp
  qed (use k local_open_error in auto)
  with b l show ?thesis
    by (simp add: open_rejects_tampered_tag_def key_def nonce_def c_def)
qed

lemma nfc_test: "nfc_ok P \<Longrightarrow> nfc_composed_and_decomposed_agree P"
proof -
  assume "nfc_ok P"
  then have "nfc_normalize P (lit ''caf'' @ [0x65, 0x301] @ []) = nfc_normalize P (lit ''caf'' @ [0xE9] @ [])"
    unfolding nfc_ok_def by blast
  then show ?thesis
    by (simp add: nfc_composed_and_decomposed_agree_def derive_vault_key_def test_descriptor_def KDF_VERSION_def
        lit_def blit_def)
qed

lemma kdf_tests: "zero_iterations_and_empty_salt_rejected P" "unknown_version_rejected P"
  by (simp_all add: zero_iterations_and_empty_salt_rejected_def unknown_version_rejected_def derive_vault_key_def
      test_descriptor_def KDF_VERSION_def)

lemmas reader_eval = read_string_def read_flag_string_def read_flag_def read_bytes_def read_u8_def read_u32_def
  reader_new_def get_range_def get_at_def slice_def checked_add_usize_def usize_max_def Let_def

lemma absurd_test: "rejects_absurd_rep_count"
  unfolding rejects_absurd_rep_count_def u32_to_le_bytes_def decode_plaintext_def
  by (simp add: reader_eval u32_max_def MAX_REPRESENTATIONS_def)

lemma trailing_test: "rejects_trailing_garbage"
proof -
  have t: "as_bytes (lit ''x'') = [120]" "as_bytes (lit ''t'') = [116]"
    by (simp_all add: lit_def utf8_char_ascii b8_def)
  have u: "from_utf8 [120] = Some (lit ''x'')" "from_utf8 [116] = Some (lit ''t'')"
    using from_utf8_as_bytes [of "lit ''x''"] from_utf8_as_bytes [of "lit ''t''"]
    by (simp_all add: t) (simp_all add: lit_def is_scalar_def)
  show ?thesis
    unfolding rejects_trailing_garbage_def encode_plaintext_layout decode_plaintext_def put_string_def put_field_def
    by (simp add: t u put_bytes_def reader_eval u32_to_le_bytes_def bundle_bytes_def flag_bytes_def MAX_REPRESENTATIONS_def as_u32_def)
qed

lemma test_plaintext_encodable: "encodable test_plaintext" "length (encode_plaintext test_plaintext) \<le> 1000"
  unfolding encode_plaintext_layout test_plaintext_def
  by (simp_all add: encodable_def str_field_ok_def field_len_ok_def rep_ok_def rep_bytes_def put_string_def
      length_put_field bundle_bytes_def flag_bytes_def lit_def blit_def utf8_char_ascii is_scalar_def)

lemma test_sealed:
  assumes "aead_ok P" "hkdf_ok P"
  obtains b where "seal_record P TEST_KEY TEST_NONCE test_plaintext = Inr b"
proof -
  have "length (encode_plaintext test_plaintext) \<le> AEAD_MAX"
    using test_plaintext_encodable(2) by (simp add: AEAD_MAX_def)
  then show thesis
    using seal_record_total [OF assms, of TEST_KEY TEST_NONCE] that by (auto simp: TEST_KEY_def TEST_NONCE_def)
qed

lemma record_test: "aead_ok P \<Longrightarrow> hkdf_ok P \<Longrightarrow> record_seal_open_roundtrip P"
proof -
  assume P: "aead_ok P" "hkdf_ok P"
  then obtain b where b: "seal_record P TEST_KEY TEST_NONCE test_plaintext = Inr b" by (rule test_sealed)
  then show ?thesis
    using open_record_seal_record [OF P(1) b] decode_encode_plaintext [OF test_plaintext_encodable(1)]
    by (simp add: record_seal_open_roundtrip_def)
qed

text \<open>The JSON texts of the two test headers are shorter than 2 GiB.\<close>

definition test_headers_short :: "json_text \<Rightarrow> bool" where
  "test_headers_short J \<longleftrightarrow> (\<forall>del. list_all (\<lambda>bs. length bs < 2 ^ 31)
     (case header_to_vec J (test_header del) of None \<Rightarrow> [] | Some bs \<Rightarrow> [bs]))"

lemma reencodes_exact:
  assumes "header_json_ok J" "test_headers_short J"
    and "header env = test_header del" "\<forall>b. body env = Some b \<longrightarrow> length b < 2 ^ 30"
  shows "reencodes J env (if env_wf env then Ok env else Err UnsupportedFormat)"
proof -
  have v: "valid_str (sync_hash (header env))" by (simp add: assms(3) test_header_def lit_def is_scalar_def)
  obtain hj where hj: "header_to_vec J (header env) = Some hj"
    using assms(1) v unfolding header_json_ok_def by blast
  have "list_all (\<lambda>bs. length bs < 2 ^ 31) [hj]"
    using assms(2) hj unfolding test_headers_short_def assms(3) by (metis option.simps(5))
  then have "length hj < 2 ^ 31" by simp
  moreover obtain bs where bs: "encode_envelope J env = Inr bs"
    "length bs = 5 + length hj + (case body env of None \<Rightarrow> 0 | Some b \<Rightarrow> length b)"
    using hj by (auto simp: encode_envelope_def Let_def split: option.splits)
  ultimately have "length bs < 2 ^ 32" using assms(4) by (auto split: option.splits)
  with decode_encode_envelope [OF assms(1) v bs(1)] bs(1) show ?thesis by (simp add: reencodes_def)
qed

lemma test_sealed_short:
  assumes "aead_ok P" "seal_record P TEST_KEY TEST_NONCE test_plaintext = Inr b"
  shows "length b < 2 ^ 30"
proof -
  obtain sk where "local_seal P sk TEST_NONCE (encode_plaintext test_plaintext) = Inr b"
    using assms(2) by (rule seal_record_Ok)
  then obtain c where c: "length sk = KEY_LEN" "length TEST_NONCE = NONCE_LEN" "b = TEST_NONCE @ c"
    "aes_gcm_encrypt P sk TEST_NONCE (encode_plaintext test_plaintext) = Some c"
    by (auto simp: local_seal_eq_Ok)
  then have "length b = 28 + length (encode_plaintext test_plaintext)"
    using aead_okD(1) [OF assms(1) c(1,2,4)] by (simp add: len_defs)
  with test_plaintext_encodable(2) show ?thesis by simp
qed

lemma envelope_tests:
  assumes "header_json_ok J" "test_headers_short J"
  shows "aead_ok P \<Longrightarrow> hkdf_ok P \<Longrightarrow> envelope_roundtrip_live_and_tombstone P J"
    "decode_rejects_body_tombstone_mismatch J"
proof -
  have wf: "env_wf \<lparr>header = test_header del, body = b\<rparr> \<longleftrightarrow> (del \<longleftrightarrow> b = None)" for del b
    by (auto simp: env_wf_def test_header_def)
  show "decode_rejects_body_tombstone_mismatch J"
    using reencodes_exact [OF assms, of "\<lparr>header = test_header True, body = Some (replicate 28 0)\<rparr>" True] wf
    by (simp add: decode_rejects_body_tombstone_mismatch_def)
  assume P: "aead_ok P" "hkdf_ok P"
  then obtain b where b: "seal_record P TEST_KEY TEST_NONCE test_plaintext = Inr b" by (rule test_sealed)
  have "reencodes J \<lparr>header = test_header False, body = Some b\<rparr> (Ok \<lparr>header = test_header False, body = Some b\<rparr>)"
    using reencodes_exact [OF assms, of "\<lparr>header = test_header False, body = Some b\<rparr>" False] wf
      test_sealed_short [OF P(1) b] by simp
  moreover have "reencodes J \<lparr>header = test_header True, body = None\<rparr> (Ok \<lparr>header = test_header True, body = None\<rparr>)"
    using reencodes_exact [OF assms, of "\<lparr>header = test_header True, body = None\<rparr>" True] wf by simp
  ultimately show "envelope_roundtrip_live_and_tombstone P J"
    by (simp add: envelope_roundtrip_live_and_tombstone_def b)
qed

section \<open>All of them\<close>

definition sync_unit_tests :: "build_profile \<Rightarrow> bool list" where
  "sync_unit_tests prof =
     [hlc_next_is_monotonic_against_backwards_clock, hlc_counter_saturation_rolls_wall,
      hlc_receive_clamps_skewed_remote_wall, hlc_compare_is_total_via_node,
      tombstone_always_wins_for_known_record, unknown_tombstone_is_recorded_not_skipped,
      duplicate_content_suppresses_insert_unless_recopied_after_wipe,
      gc_blocks_on_fresh_unacked_device_and_respects_units prof, gc_respects_retention_age prof,
      rejoin_stale_deletes_fresh_repushes]"

definition sync_known_answers :: "build_profile \<Rightarrow> bool list" where
  "sync_known_answers prof =
     [kat_hlc_next next_cases, kat_hlc_receive receive_cases, kat_hlc_compare compare_cases,
      kat_merge_case_table merge_cases, kat_gc prof gc_cases, kat_rejoin rejoin_cases]"

definition format_unit_tests :: "primitives \<Rightarrow> json_text \<Rightarrow> bool list" where
  "format_unit_tests P J =
     [seal_open_roundtrip P, open_rejects_tampered_tag P, invalid_lengths_rejected P,
      nfc_composed_and_decomposed_agree P, zero_iterations_and_empty_salt_rejected P,
      unknown_version_rejected P, rejects_absurd_rep_count, rejects_trailing_garbage,
      record_seal_open_roundtrip P, envelope_roundtrip_live_and_tombstone P J,
      decode_rejects_body_tombstone_mismatch J]"

text \<open>Validation of the model by tests of the repository: the unit tests of the sync rules and every case of
  the known-answer table \<open>kat/sync.json\<close> in both build profiles, eleven unit tests of the crypto,
  key-derivation, layout and record modules for all primitives that keep their documented laws and
  JSON texts that moreover write the two test headers in less than 2 GiB, and sixteen of the
  redaction tests, the display grid among them, for every engine and every float arithmetic. Not
  included are five unit tests of the crypto and record modules that rest on the strength of the
  cipher and the hashes (wrong key, label independence, local-key independence, hidden content,
  verifier).\<close>

theorem repository_tests_pass:
  assumes "aead_ok P" "aead_exact P" "hkdf_ok P" "nfc_ok P" "header_json_ok J" "test_headers_short J"
    and "engine_ok C E" "leftmost_first C E" "fold_ok C" "signs_ok C" "case_ok C" "classes_ok C"
  shows "list_all id (sync_unit_tests prof @ sync_known_answers prof @ format_unit_tests P J @ redaction_tests prof F E)"
  by (simp add: sync_unit_tests_def sync_known_answers_def format_unit_tests_def next_tests receive_test
      compare_test merge_tests gc_tests rejoin_test clock_answers merge_answers gc_answers crypto_tests kdf_tests
      absurd_test trailing_test record_test envelope_tests tampered_test nfc_test
      redaction_tests_hold [OF assms(7-12)] assms(1-6))

lemma toy_headers_short: "test_headers_short toy_json"
proof -
  have "length (put_str s) = 2 * length s + sum_list s + 1" for s
    by (induction s) (simp_all add: put_str_def put_nat_def)
  then show ?thesis
    by (simp add: test_headers_short_def toy_json_def toy_header_to_vec_def test_header_def lit_def
        RECORD_FORMAT_VERSION_def)
qed

theorem repository_tests_pass_witness:
  "kat_merge_case_table merge_cases \<and> open_rejects_tampered_tag toy_primitives \<and>
   env_var_password_detected Debug real_ops ascii_engine"
  using repository_tests_pass [OF toy_aead_ok toy_aead_exact toy_hkdf_ok toy_nfc_ok toy_header_ok toy_headers_short
      ascii_engine_ok ascii_leftmost_first ascii_fold_ok ascii_signs_ok ascii_case_ok ascii_classes_ok,
      of Debug real_ops]
  by (simp add: sync_known_answers_def format_unit_tests_def redaction_tests_def)

end
