(* ===== verification/Spec2Isabelle.thy ===== *)
theory Spec2Isabelle
  imports Record_Properties Sync_Properties Lifecycle_Properties Redact_Properties Conformance
begin

text \<open>
  A model of clipy-si-core, the shared core of the ClipySi clipboard manager: a Rust library of
  pure functions (crate \<open>clipy-si-core\<close>) and its binding surface (crate \<open>clipy-si-core-ffi\<close>).
  Paths below are relative to \<open>crates/clipy-si-core/src\<close> unless another crate is named.

  \<^bold>\<open>The program.\<close> Two halves that share nothing but the error type. The vault half seals clipboard
  records for a folder that a cloud provider synchronises: \<open>crypto/mod.rs\<close> (AES-GCM boxes, keyed
  hashes), \<open>kdf/mod.rs\<close> (vault key from a passphrase), \<open>record/canonical.rs\<close> (binary layout of a
  plaintext), \<open>record/mod.rs\<close> (sealed bodies, envelope, manifest), \<open>hexutil.rs\<close> (bytes in JSON) and
  \<open>sync/mod.rs\<close> (hybrid logical clock, merge decision, garbage collection, rejoin). The redaction
  half finds secrets in a text and masks it: \<open>redaction/patterns.rs\<close> (regular expressions and the
  value gate), \<open>entropy.rs\<close>, \<open>detector.rs\<close> (collection, overlap resolution, offsets), \<open>mask.rs\<close> and
  \<open>rules.rs\<close>. The FFI crate mirrors the types and forwards every call.

  \<^bold>\<open>The theories.\<close>
  \<^item> Prelude, Rust_Int, Rust_Str, Rust_Sort, Rust_Regex: Rust's results with a panic outcome,
    machine integers at their width, UTF-8 strings, stable sorting with a comparator, the meaning of
    the regular expressions used. They hold the locales \<open>codec\<close>, \<open>exact_codec\<close>, \<open>comparator\<close> and
    \<open>total_comparator\<close>.
  \<^item> Core_Error (\<open>error.rs\<close>), Hex (\<open>hexutil.rs\<close>), Crypto (\<open>crypto/mod.rs\<close>, locale \<open>sealed_box\<close> and
    its extension \<open>exact_box\<close>), Kdf (\<open>kdf/mod.rs\<close>), Reader and Canonical (\<open>record/canonical.rs\<close>, locale \<open>field_codec\<close> for one
    field of the layout), Uuid, Record_Format (\<open>record/mod.rs\<close>, \<open>record/version.rs\<close>, locale
    \<open>sealed_codec\<close> that joins a box with a codec).
  \<^item> Sync_Rules (\<open>sync/mod.rs\<close>), Sync_Clock (runs of a clock, locale \<open>monotone_clock\<close>), Sync_Gc
    (collection against its specification), Sync_Replay (the merge decision driven by any shell that
    meets its documented contract, locale \<open>merge_rules\<close>), Sync_Table (an executable shell that meets
    it), Sync_Vault (any number of devices that copy, delete and receive through a shared folder, as
    the inductive step relation \<open>vault_step\<close>), Sync_Lifecycle (the life of the folder in real time:
    devices with wall clocks that join, copy, delete, receive, run whole sessions, collect and leave,
    record files that vanish and come back, listings that come late and tombstones that are lost, as
    the relation \<open>folder_step\<close> with its invariant \<open>folder_ok\<close>).
  \<^item> Redact_Rules, Redact_Patterns, Redact_Entropy, Redact_Detector, Redact_Mask: the files of
    \<open>redaction/\<close> in their order of use. Redact_Keyvalue: the preferred match of an
    expression. Redact_Precision: what a match cannot do without. Redact_Structural: what the
    value-gated patterns for assignments, connection strings and authorization headers find under an
    engine that reports the preferred match; Redact_Url: the same for sensitive query parameters;
    Redact_Secrets: the four shapes together. Redact_Ordinary: texts that no rule looks at.
    Redact_Tests: redaction tests of the repository. Redact_Loops: the entropy scan as \<open>while\<close> loops.
  \<^item> Ffi: \<open>clipy-si-core-ffi/src/lib.rs\<close>, one definition per mirror type, conversion and exported
    function.
  \<^item> Instances: concrete values of all parameters; Entropy_Bound: the entropy in exact arithmetic.
  \<^item> Conformance: validation of the model by unit tests of the repository and the known answers of
    \<open>kat/sync.json\<close>, run on it together with those of Redact_Tests.
  \<^item> Record_Properties, Sync_Properties, Lifecycle_Properties, Redact_Properties and
    this theory: the properties C1 to C40, each with a witness at concrete inputs where it has
    hypotheses.

  \<^bold>\<open>How state and operations correspond.\<close> The core has no state of its own: a struct is a record, an
  enum a datatype, a method a function. The cursor of the plaintext decoder is the record \<open>reader\<close>,
  returned advanced. A fallible function returns \<open>Ok\<close>, \<open>Err\<close> or \<open>Panicked\<close>; the redaction and
  collection functions, which return no \<open>Result\<close>, give an option whose \<open>None\<close> is a panic. Unguarded
  arithmetic takes the build profile, because a debug build panics where a release build wraps.

  \<^bold>\<open>Parameters.\<close> Code of other crates is a record of functions with named hypotheses:
  \<open>primitives\<close> (\<open>aead_ok\<close>, \<open>aead_exact\<close>, \<open>hkdf_ok\<close>, \<open>hmac_ok\<close>, \<open>pbkdf2_ok\<close>, \<open>nfc_ok\<close>), \<open>json_text\<close> (\<open>header_json_ok\<close>,
  \<open>manifest_json_ok\<close>), \<open>uuid_text\<close> (\<open>uuid_text_ok\<close>), \<open>regex_engine\<close> with \<open>rx_classes\<close>
  (\<open>engine_ok\<close>, \<open>leftmost_first\<close>, and of Unicode \<open>classes_ok\<close>, \<open>fold_ok\<close>, \<open>case_ok\<close>, \<open>signs_ok\<close>) and \<open>f64_ops\<close>. The shell that summarises its tables for the merge
  decision and executes the answer is the parameter \<open>shell\<close>; \<open>shell_ok\<close> says what the documentation of
  \<open>LocalState\<close> and \<open>MergeAction\<close> asks of it. The shell and the
  provider of \<open>vault_step\<close> and \<open>folder_step\<close> are no code of the repository and translate none: the
  steps over-approximate them, each step calls the functions of the core as the documentation in
  \<open>sync/mod.rs\<close> says and otherwise allows what that documentation leaves open. What a property
  needs of them beyond that is in its statement: \<open>overrun\<close> (a device published at the very last stamp
  of its clock), \<open>spoiled\<close> (a tombstone was lost or missed by a session, or the record file outlived
  it), \<open>reads\<close> (a clock is right to within a drift) and \<open>margin_ok\<close> (four times the drift, and a second
  lost to rounding, fit into the margin between the retention and the staleness period). The hypotheses state documented behaviour; the
  concrete values of Instances, Sync_Table and Redact_Properties satisfy all of them.

  \<^bold>\<open>What the lemmas show.\<close> Records: every field, the plaintext, the envelope and the manifest round
  trip, the plaintext layout is canonical, decoders are total and return well-formed values, sealed
  records open, and nothing else does: what opens is the seal of its content, a changed tag is
  refused, and a key is confirmed only by the manifest that was written under it. Sync: stamps
  are totally ordered and issued stamps ascend, replicas stay well formed, deleted records stay
  deleted, pulls are idempotent and converge, collection meets its specification, and the device list never
  holds it back. In every reachable state of a shared vault stamps identify files, nothing a device shows
  or holds for deleted comes from nowhere, content that nobody deleted is shown by every device that
  has seen it, and a device can always catch up. Over the life of a folder with good enough clocks
  a deleted record that the environment did not spoil never returns, however long a device was away,
  and the rejoin decision is right; every tombstone can be collected in the end. Redaction: detection is total, its spans are
  disjoint, inside the text and name the matched characters, overlaps are resolved by the documented
  priority, provider tokens are always found and their first place lies in a reported span; found are also
  assignments to a secret key, connection strings, authorization headers and URLs with a sensitive
  parameter, in any case of the keyword, where it stands apart behind a text without a colon and the
  value passes the gate; ordinary text is never touched, URLs, times
  and assignments of words included; the entropy scan ends and reports exactly the qualifying runs,
  masked texts reveal at most four characters and are those the test suite's own oracle expects. The
  model passes those of the repository's tests that are in Conformance. FFI: the mirrors lose nothing and the exported functions
  compose.

  \<^bold>\<open>Bounds.\<close> Every loop is a total recursion; no fuel limits a result. The iteration of a regular
  expression carries a counter of \<open>length + 1 + lower bound\<close> rounds, which is never exhausted,
  because each round consumes a character or one required repetition. Lengths are bounded by
  \<open>2 ^ 32\<close> where a \<open>u32\<close> holds them and by \<open>2 ^ 36\<close> for AES-GCM.

  \<^bold>\<open>Not modelled.\<close> The generated Swift bindings and UniFFI scaffolding, the binary
  \<open>uniffi-bindgen\<close>, build scripts and the shell that executes merge actions (a parameter, see
  above). Of the tests, those that only the strength of the cipher makes
  pass (a wrong key, hidden content, distinct subkeys: no law of a function implies them), the vectors
  of the cryptographic primitives, and the redaction tests and vectors that name kinds or depend on the
  entropy (which need the real float operations). In the life
  of a folder a tombstone file that vanished does not come back. Zeroing of key material has no functional effect.

  \<^bold>\<open>Observations.\<close> C36 to C40 prove where the code does less than its comments promise: a late tombstone
  can lose re-copied content, a manifest can make the decoder panic, sealing ignores the cap on representations, an absurd \<open>last_seen\<close> breaks
  collection, clocks that are wrong by 31 hours bring a deleted record back. C32 shows that the second
  condition documented for \<open>gc_eligible\<close> is without effect. Three more are the theorems
  \<open>last_stamp_falls_back\<close> (the clock falls back at the end of its range),
  \<open>tombstone_ignores_trailing_bytes\<close> and \<open>unknown_kdf_version_passes\<close> (\<open>manifest_kdf\<close> does not look
  at the KDF version).
\<close>

section \<open>A new vault\<close>

text \<open>C17: creating a vault works end to end through the binding surface. With a parsable vault id, a
  32-byte key and a 12-byte nonce the manifest is written; reading it back confirms the key it was
  made with and returns the KDF descriptor it was made with.\<close>

theorem new_vault_opens:
  assumes "aead_ok P" "hkdf_ok P" "manifest_json_ok J" "uuid_parse U vid = Some i"
    and "length vk = 32" "length nonce = 12"
  shows "\<exists>bs. make_vault_manifest_ffi U J P vk vid created kdf nonce = Ok bs \<and>
    verify_passphrase_ffi J P vk bs = Ok True \<and> manifest_kdf_ffi J bs = Ok kdf"
proof -
  obtain sk where sk: "length sk = 32" "hkdf_subkey P vk INFO_CCLIP = Inr sk"
    by (rule vault_subkey [OF assms(2,5)])
  obtain v where "local_seal P sk nonce VERIFIER_PLAINTEXT = Inr v"
    using box.seal_total [OF assms(1) sk(1) assms(6) length_VERIFIER_PLAINTEXT] by blast
  then obtain m where m: "make_vault_manifest P vk i created (kdf_descriptor_from_ffi kdf) nonce = Inr m"
    using assms(5) sk by (simp add: make_vault_manifest_def as_key32_def KEY_LEN_def)
  obtain bs where "encode_vault_manifest J m = Inr bs" using decode_encode_manifest [OF assms(3)] by blast
  then have "make_vault_manifest_ffi U J P vk vid created kdf nonce = Ok bs"
    by (simp add: make_vault_manifest_ffi_def parse_uuid_def assms(4) m)
  with new_vault_ffi [OF assms(1,3) this] show ?thesis by blast
qed

definition sample_kdf_ffi :: kdf_descriptor_ffi where
  "sample_kdf_ffi =
     \<lparr>kdf_ffi_kind = FfiPbkdf2HmacSha256 2, kdf_ffi_salt = [1, 2], kdf_ffi_version = 1\<rparr>"

theorem new_vault_opens_witness:
  "\<exists>bs. make_vault_manifest_ffi toy_uuid_text toy_json toy_primitives sample_key [7] 1 sample_kdf_ffi
      sample_nonce = Ok bs \<and>
    verify_passphrase_ffi toy_json toy_primitives sample_key bs = Ok True \<and>
    manifest_kdf_ffi toy_json bs = Ok sample_kdf_ffi"
  by (rule new_vault_opens [OF toy_aead_ok toy_hkdf_ok toy_manifest_ok, where i = 7])
    (simp_all add: toy_uuid_text_def)

section \<open>The binding surface\<close>

text \<open>The three identifiers of an exported envelope parse.\<close>

definition ids_parse :: "uuid_text \<Rightarrow> record_envelope_ffi \<Rightarrow> bool" where
  "ids_parse U e \<longleftrightarrow> uuid_parse U (rhf_record_id (ref_header e)) \<noteq> None \<and>
     uuid_parse U (rhf_origin_device_id (ref_header e)) \<noteq> None \<and>
     uuid_parse U (hf_node (rhf_hlc (ref_header e))) \<noteq> None"

lemma envelope_ids:
  "\<not> ids_parse U e \<Longrightarrow> envelope_from_ffi U e = Err FfiInvalidInput"
  "ids_parse U e \<Longrightarrow> \<exists>env. envelope_from_ffi U e = Ok env \<and> sync_hash (header env) = rhf_sync_hash (ref_header e)"
  unfolding ids_parse_def envelope_from_ffi_def header_from_ffi_def hlc_from_ffi_def parse_uuid_def
  by (cases "uuid_parse U (rhf_record_id (ref_header e))"; cases "uuid_parse U (rhf_origin_device_id (ref_header e))";
      cases "uuid_parse U (hf_node (rhf_hlc (ref_header e)))"; simp)+

lemma parsed_envelope_round_trip:
  assumes "header_json_ok J" "envelope_from_ffi U e = Ok env" "valid_str (sync_hash (header env))"
    and "\<forall>bs. encode_envelope J env = Ok bs \<longrightarrow> length bs < 2 ^ 32"
  shows "if env_wf env
    then \<exists>bs. encode_envelope_ffi U J e = Ok bs \<and> decode_envelope_ffi U J bs = Ok (envelope_to_ffi U env)
    else encode_envelope_ffi U J e = Err FfiUnsupportedFormat"
proof (cases "env_wf env")
  case False
  then show ?thesis using encode_envelope_ffi_exact [OF assms] by simp
next
  case True
  obtain bs where "encode_envelope J env = Ok bs"
    using assms(1,3) unfolding header_json_ok_def encode_envelope_def by (auto simp: Let_def)
  with True encode_envelope_ffi_exact [OF assms] have "encode_envelope_ffi U J e = Ok bs" by simp
  with decode_encode_envelope_ffi [OF assms this] True show ?thesis by auto
qed

text \<open>C33: the exported \<open>encode_envelope\<close> accepts exactly the well-formed envelopes. One with a
  record id, a device id or a clock node that does not parse is refused as an invalid input. If all
  three parse, then what is encoded from a well-formed envelope (of the known format, with a body
  exactly when it is not deleted) is decoded by the exported \<open>decode_envelope\<close> to the same envelope with
  its identifiers in canonical spelling, and an ill-formed one is refused as an unsupported format.
  The envelope's encoding is shorter than 4 GiB and its \<open>sync_hash\<close> is a Rust string.\<close>

theorem exported_envelope_round_trip:
  assumes "header_json_ok J" "valid_str (rhf_sync_hash (ref_header e))"
    and "\<forall>env bs. envelope_from_ffi U e = Ok env \<longrightarrow> encode_envelope J env = Ok bs \<longrightarrow> length bs < 2 ^ 32"
  shows "(\<not> ids_parse U e \<longrightarrow> encode_envelope_ffi U J e = Err FfiInvalidInput) \<and>
    (ids_parse U e \<longrightarrow> (\<exists>env. envelope_from_ffi U e = Ok env \<and>
      (if env_wf env
       then \<exists>bs. encode_envelope_ffi U J e = Ok bs \<and> decode_envelope_ffi U J bs = Ok (envelope_to_ffi U env)
       else encode_envelope_ffi U J e = Err FfiUnsupportedFormat)))"
proof (intro conjI impI)
  show "encode_envelope_ffi U J e = Err FfiInvalidInput" if "\<not> ids_parse U e"
    by (simp add: encode_envelope_ffi_def envelope_ids(1) [OF that])
  assume "ids_parse U e"
  then obtain env where env: "envelope_from_ffi U e = Ok env" "sync_hash (header env) = rhf_sync_hash (ref_header e)"
    using envelope_ids(2) by blast
  then have "valid_str (sync_hash (header env))" "\<forall>bs. encode_envelope J env = Ok bs \<longrightarrow> length bs < 2 ^ 32"
    using assms(2,3) by simp_all
  from parsed_envelope_round_trip [OF assms(1) env(1) this] env(1)
  show "\<exists>env. envelope_from_ffi U e = Ok env \<and>
      (if env_wf env
       then \<exists>bs. encode_envelope_ffi U J e = Ok bs \<and> decode_envelope_ffi U J bs = Ok (envelope_to_ffi U env)
       else encode_envelope_ffi U J e = Err FfiUnsupportedFormat)" by blast
qed

theorem exported_envelope_round_trip_witness:
  "\<exists>bs. encode_envelope_ffi toy_uuid_text toy_json
      (envelope_to_ffi toy_uuid_text (sample_envelope False (Some [1, 2]))) = Ok bs \<and>
    decode_envelope_ffi toy_uuid_text toy_json bs =
      Ok (envelope_to_ffi toy_uuid_text (sample_envelope False (Some [1, 2])))"
proof -
  let ?env = "sample_envelope False (Some [1, 2])"
  have mirrored: "envelope_from_ffi toy_uuid_text (envelope_to_ffi toy_uuid_text ?env) = Ok ?env"
    by (rule envelope_mirror.dec_enc [OF toy_uuid_text_ok])
  have wf: "env_wf ?env"
    by (simp add: sample_envelope_def env_wf_def sample_header_def RECORD_FORMAT_VERSION_def)
  have small: "\<forall>env bs. envelope_from_ffi toy_uuid_text (envelope_to_ffi toy_uuid_text ?env) = Ok env \<longrightarrow>
      encode_envelope toy_json env = Ok bs \<longrightarrow> length bs < 2 ^ 32"
    using length_sample_envelope [of False "Some [1, 2]"] by (simp add: mirrored sample_envelope_encoded)
  have "ids_parse toy_uuid_text (envelope_to_ffi toy_uuid_text ?env)"
    using envelope_ids(1) mirrored by fastforce
  moreover have "valid_str (rhf_sync_hash (ref_header (envelope_to_ffi toy_uuid_text ?env)))"
    by (simp add: sample_envelope_def envelope_to_ffi_def header_to_ffi_def)
  ultimately show ?thesis
    using exported_envelope_round_trip [OF toy_header_ok _ small] wf by (simp add: mirrored)
qed

text \<open>A plaintext sealed through the binding surface opens to the same plaintext through it.\<close>

theorem exported_seal_opens:
  assumes "aead_ok P" "encodable (plaintext_from_ffi p)" "seal_record_ffi P vk nonce p = Ok b"
  shows "open_record_ffi P vk b = Ok p"
  using assms by (rule sealed_round_trip_ffi)

theorem exported_seal_opens_witness:
  "\<exists>b. seal_record_ffi toy_primitives sample_key sample_nonce (plaintext_to_ffi sample_plaintext) = Ok b \<and>
     open_record_ffi toy_primitives sample_key b = Ok (plaintext_to_ffi sample_plaintext)"
proof -
  obtain b where "seal_record toy_primitives sample_key sample_nonce sample_plaintext = Ok b"
    using seal_record_total [OF toy_aead_ok toy_hkdf_ok, of sample_key sample_nonce sample_plaintext]
    by (auto simp: sample_encoding_length AEAD_MAX_def)
  then have b: "seal_record_ffi toy_primitives sample_key sample_nonce (plaintext_to_ffi sample_plaintext) = Ok b"
    by (simp add: seal_record_ffi_def plaintext_mirror_eqs)
  have "encodable (plaintext_from_ffi (plaintext_to_ffi sample_plaintext))"
    by (simp add: plaintext_mirror_eqs sample_encodable)
  from exported_seal_opens [OF toy_aead_ok this b] b show ?thesis by blast
qed

text \<open>The exported comparison is a sign. For stamps whose node ids parse it returns -1, 0 or 1
  as the first is earlier than, the same as or later than the second, and exchanging the arguments
  negates it; a node id that does not parse is an invalid input.\<close>

theorem exported_compare_sign:
  assumes "hlc_from_ffi U a = Ok x" "hlc_from_ffi U b = Ok y"
  shows "\<exists>v w. hlc_compare_ffi U a b = Ok v \<and> hlc_compare_ffi U b a = Ok w \<and> sint w = - sint v \<and>
    sint v \<in> {-1, 0, 1} \<and> (sint v = 0 \<longleftrightarrow> x = y) \<and> (sint v = -1 \<longleftrightarrow> hlc_compare x y = Less)"
proof -
  have eq: "hlc_compare x y = Equal \<longleftrightarrow> x = y" using hlc_order.refl hlc_order.antisym by blast
  have swap: "hlc_compare y x = reverse_cmp (hlc_compare x y)" by (rule hlc_order.swap)
  show ?thesis using assms eq
    by (cases "hlc_compare x y") (simp_all add: hlc_compare_ffi_def swap)
qed

theorem exported_compare_sign_witness:
  "\<exists>v. hlc_compare_ffi toy_uuid_text (hlc_to_ffi toy_uuid_text (stamp 1)) (hlc_to_ffi toy_uuid_text (stamp 2)) = Ok v \<and>
     sint v = -1"
proof -
  have "hlc_compare (stamp 1) (stamp 2) = Less" by (simp add: stamp_def hlc_compare_def)
  then show ?thesis
    using exported_compare_sign [OF hlc_mirror.dec_enc [OF toy_uuid_text_ok]
        hlc_mirror.dec_enc [OF toy_uuid_text_ok], of "stamp 1" "stamp 2"] by auto
qed

text \<open>The exported \<open>manifest_kdf\<close> does not look at the KDF version. From a manifest of the known
  format with any other KDF version it returns the descriptor as a success; only deriving a key from
  it is refused as an unsupported format.\<close>

theorem unknown_kdf_version_passes:
  assumes "manifest_json_ok J" "vm_format_version m = VAULT_FORMAT_VERSION"
    and "kdf_version (vm_kdf m) \<noteq> KDF_VERSION"
  shows "\<exists>bs d. encode_vault_manifest J m = Ok bs \<and> manifest_kdf_ffi J bs = Ok d \<and>
    kdf_ffi_version d = kdf_version (vm_kdf m) \<and>
    derive_vault_key_ffi P pw d = Err FfiUnsupportedFormat"
proof -
  obtain bs where "encode_vault_manifest J m = Ok bs" "decode_vault_manifest J bs = Ok m"
    using decode_encode_manifest [OF assms(1), of m] assms(2) by auto
  then show ?thesis using assms(3)
    by (cases "kdf_kind (vm_kdf m)")
      (simp add: manifest_kdf_ffi_def derive_vault_key_ffi_def derive_vault_key_def into_ffi_def
        kdf_descriptor_from_ffi_def)
qed

theorem unknown_kdf_version_passes_witness:
  "\<exists>bs d. encode_vault_manifest toy_json (sample_manifest\<lparr>vm_kdf := sample_kdf\<lparr>kdf_version := 9\<rparr>\<rparr>) = Ok bs \<and>
     manifest_kdf_ffi toy_json bs = Ok d \<and> kdf_ffi_version d = 9"
  using unknown_kdf_version_passes [OF toy_manifest_ok, of "sample_manifest\<lparr>vm_kdf := sample_kdf\<lparr>kdf_version := 9\<rparr>\<rparr>"]
  by (simp add: sample_manifest_def VAULT_FORMAT_VERSION_def KDF_VERSION_def) blast

end
